(* ===== verification/Prelude.thy ===== *)
theory Prelude
  imports Main "HOL-Library.Word" "HOL-Library.Finite_Map" "HOL-Library.Signed_Division"
begin

text \<open>
  What the components of the metric store share.

  Go's \<open>int64\<close> and \<open>uint64\<close> are both 64-bit words; the signed order
  (\<open>word_sless\<close>, \<open>word_sle\<close>) is written where the code compares \<open>int64\<close>
  values, the unsigned one where it compares \<open>uint64\<close> values. Additions wrap, as in Go.
  Slice lengths and element counters are natural numbers.

  A Go map is a finite map; a \<open>range\<close> loop over a map visits its keys in an order the
  language leaves open, so every such loop takes the list of visited keys as an argument
  and the theorems assume only \<open>visits\<close>: the list enumerates the keys, each once.

  \<open>sort.Search\<close> of the Go library is transcribed with its loop, and the bucketing
  \<open>ts - ts % step\<close>, which the shard manager, the compactor and the query engine each
  compute, is one definition with its arithmetic proved here.
\<close>

named_theorems go_int \<open>signed comparisons and small signed constants, read as integers\<close>

type_synonym int64 = "64 word"
type_synonym uint64 = "64 word"
type_synonym uint32 = "32 word"
type_synonym byte = "8 word"

section \<open>Signed 64-bit arithmetic\<close>

lemma slt_iff [go_int]: "word_sless (a :: int64) b \<longleftrightarrow> sint a < sint b"
  by (rule word_sless_alt)

lemma sle_iff [go_int]: "word_sle (a :: int64) b \<longleftrightarrow> sint a \<le> sint b"
  by (rule word_sle_eq)

lemma sint64_bounds:
  fixes a :: int64
  shows "- (2 ^ 63) \<le> sint a" and "sint a < 2 ^ 63"
  using sint_ge [of a] sint_lt [of a] by simp_all

lemma sint_word_of_int64:
  "- (2 ^ 63) \<le> k \<Longrightarrow> k < 2 ^ 63 \<Longrightarrow> sint (word_of_int k :: int64) = k"
  by (simp add: sint_sbintrunc' signed_take_bit_int_eq_self)

lemma sint_add_no_overflow:
  fixes a b :: int64
  assumes "- (2 ^ 63) \<le> sint a + sint b" and "sint a + sint b < 2 ^ 63"
  shows "sint (a + b) = sint a + sint b"
  using assms by (simp add: sint_word_ariths signed_take_bit_int_eq_self)

lemma sint_sub_no_overflow:
  fixes a b :: int64
  assumes "- (2 ^ 63) \<le> sint a - sint b" and "sint a - sint b < 2 ^ 63"
  shows "sint (a - b) = sint a - sint b"
  using assms by (simp add: sint_word_ariths signed_take_bit_int_eq_self)

lemma sint64_inject: "sint (a :: int64) = sint b \<longleftrightarrow> a = b"
  by (rule word_eq_iff_signed [symmetric])

section \<open>Incrementing unsigned counters\<close>

lemma unat_succ: "n + 1 \<noteq> 0 \<Longrightarrow> unat (n + 1) = unat n + 1" for n :: "'a::len word"
  using unatSuc [of n] by (simp add: add.commute)

lemma less_succ_iff:
  "n + 1 \<noteq> 0 \<Longrightarrow> i < n + 1 \<longleftrightarrow> i \<le> n" for i n :: "'a::len word"
  by (simp add: word_less_nat_alt word_le_nat_alt unat_succ less_Suc_eq_le)

lemma less_self_succ: "n + 1 \<noteq> 0 \<Longrightarrow> n < n + 1" for n :: "'a::len word"
  by (simp add: less_succ_iff)

section \<open>Go's remainder and the bucketing it is used for\<close>

definition go_rem :: "int64 \<Rightarrow> int64 \<Rightarrow> int64" where
  "go_rem a b = word_of_int (sint a smod sint b)"

definition bucket_start :: "int64 \<Rightarrow> int64 \<Rightarrow> int64" where
  "bucket_start step ts = ts - go_rem ts step"

text \<open>The same two operations on unbounded integers.\<close>

definition trunc_int :: "int \<Rightarrow> int \<Rightarrow> int" where
  "trunc_int l k = k - k smod l"

lemma smod_pos_cases:
  assumes "0 < (l :: int)"
  shows "k smod l = (if 0 \<le> k then k mod l else - ((- k) mod l))"
  using assms by (cases "k = 0") (auto simp: signed_modulo_int_def sgn_if)

lemma trunc_int_cases:
  assumes "0 < l"
  shows "trunc_int l k = (if 0 \<le> k then l * (k div l) else - (l * ((- k) div l)))"
  using minus_mod_eq_mult_div [of k l] minus_mod_eq_mult_div [of "- k" l]
  unfolding trunc_int_def smod_pos_cases [OF assms] by auto

lemma trunc_int_nonneg_bounds:
  assumes "0 < l" and "0 \<le> k"
  shows "0 \<le> trunc_int l k" and "trunc_int l k \<le> k" and "k < trunc_int l k + l"
proof -
  have eq: "trunc_int l k = k - k mod l"
    using assms by (simp add: trunc_int_def smod_pos_cases)
  show "trunc_int l k \<le> k" "k < trunc_int l k + l"
    using assms by (simp_all add: eq)
  show "0 \<le> trunc_int l k"
    using assms by (simp add: trunc_int_cases pos_imp_zdiv_nonneg_iff)
qed

lemma trunc_int_neg_bounds:
  assumes "0 < l" and "k < 0"
  shows "trunc_int l k \<le> 0" and "k \<le> trunc_int l k" and "trunc_int l k - l < k"
proof -
  have eq: "trunc_int l k = k + (- k) mod l"
    using assms by (simp add: trunc_int_def smod_pos_cases)
  show "k \<le> trunc_int l k" "trunc_int l k - l < k"
    using assms by (simp_all add: eq)
  show "trunc_int l k \<le> 0"
    using assms by (simp add: trunc_int_cases pos_imp_zdiv_nonneg_iff)
qed

lemma trunc_int_mono:
  assumes "0 < l" and "j \<le> k"
  shows "trunc_int l j \<le> trunc_int l k"
proof (cases "0 \<le> j")
  case True
  then show ?thesis
    using assms by (simp add: trunc_int_cases zdiv_mono1 mult_left_mono)
next
  case False
  then have j: "j < 0" by simp
  show ?thesis
  proof (cases "0 \<le> k")
    case True
    from trunc_int_neg_bounds(1) [OF assms(1) j] trunc_int_nonneg_bounds(1) [OF assms(1) True]
    show ?thesis by simp
  next
    case False
    then show ?thesis
      using assms j by (simp add: trunc_int_cases zdiv_mono1 mult_left_mono)
  qed
qed

lemma trunc_int_idem:
  assumes "0 < l"
  shows "trunc_int l (trunc_int l k) = trunc_int l k"
proof -
  have nonneg: "trunc_int l (l * q) = l * q" if "0 \<le> q" for q
    using assms that by (simp add: trunc_int_cases)
  have neg: "trunc_int l (- (l * q)) = - (l * q)" if "0 \<le> q" for q
    using assms that by (cases "q = 0") (auto simp: trunc_int_cases mult_less_0_iff)
  show ?thesis
    using assms nonneg [of "k div l"] neg [of "(- k) div l"]
    by (auto simp: trunc_int_cases [OF assms, of k] pos_imp_zdiv_nonneg_iff)
qed

lemma trunc_int_dvd: "0 < l \<Longrightarrow> l dvd trunc_int l k"
  by (simp add: trunc_int_cases)

text \<open>The machine operations compute the integer ones for a positive step.\<close>

lemma trunc_int_between:
  assumes "0 < l"
  shows "min 0 k \<le> trunc_int l k \<and> trunc_int l k \<le> max 0 k"
  using trunc_int_nonneg_bounds [OF assms, of k] trunc_int_neg_bounds [OF assms, of k]
  by (cases "0 \<le> k") auto

lemma smod_int64_bounds:
  fixes a b :: int64
  assumes "0 < sint b"
  shows "- (2 ^ 63) \<le> sint a smod sint b" and "sint a smod sint b < 2 ^ 63"
  using trunc_int_between [OF assms, of "sint a"] sint64_bounds [of a]
  by (auto simp: trunc_int_def min_def max_def split: if_splits)

lemma sint_go_rem:
  assumes "0 < sint b"
  shows "sint (go_rem a b) = sint a smod sint b"
  using assms smod_int64_bounds [OF assms, of a] by (simp add: go_rem_def sint_word_of_int64)

lemma sint_bucket_start:
  assumes "0 < sint step"
  shows "sint (bucket_start step ts) = trunc_int (sint step) (sint ts)"
proof -
  have "sint ts - sint (go_rem ts step) = trunc_int (sint step) (sint ts)"
    using assms by (simp add: sint_go_rem trunc_int_def)
  then show ?thesis
    using trunc_int_between [OF assms, of "sint ts"] sint64_bounds [of ts]
    by (simp add: bucket_start_def sint_sub_no_overflow min_def max_def split: if_splits)
qed

lemma bucket_start_mono:
  "0 < sint step \<Longrightarrow> sint a \<le> sint b \<Longrightarrow> sint (bucket_start step a) \<le> sint (bucket_start step b)"
  by (simp add: sint_bucket_start trunc_int_mono)

lemma bucket_start_idem:
  "0 < sint step \<Longrightarrow> bucket_start step (bucket_start step ts) = bucket_start step ts"
  by (simp add: sint_bucket_start trunc_int_idem flip: sint64_inject)

lemma bucket_start_nonneg:
  assumes "0 < sint step" and "0 \<le> sint ts"
  shows "0 \<le> sint (bucket_start step ts)" and "sint (bucket_start step ts) \<le> sint ts"
    and "sint ts < sint (bucket_start step ts) + sint step"
  using trunc_int_nonneg_bounds [OF assms] assms by (simp_all add: sint_bucket_start)

section \<open>Searching\<close>

text \<open>\<open>sort.Search(n, f)\<close>: the loop of the Go library, with its two indices.\<close>

function search_loop :: "(nat \<Rightarrow> bool) \<Rightarrow> nat \<Rightarrow> nat \<Rightarrow> nat" where
  "search_loop f i j =
     (if i < j
      then (let h = (i + j) div 2 in if \<not> f h then search_loop f (h + 1) j else search_loop f i h)
      else i)"
  by pat_completeness auto
termination
  by (relation "measure (\<lambda>(f, i, j). j - i)") auto

declare search_loop.simps [simp del]

definition sort_search :: "nat \<Rightarrow> (nat \<Rightarrow> bool) \<Rightarrow> nat" where
  "sort_search n f = search_loop f 0 n"

lemma search_loop_stop: "\<not> i < j \<Longrightarrow> search_loop f i j = i"
  by (subst search_loop.simps) simp

lemma search_loop_step:
  "i < j \<Longrightarrow> search_loop f i j =
     (if f ((i + j) div 2) then search_loop f i ((i + j) div 2)
      else search_loop f ((i + j) div 2 + 1) j)"
  by (subst search_loop.simps) (simp add: Let_def)

text \<open>
  What a binary search over \<open>n\<close> positions promises: \<open>r\<close> splits them into a prefix where
  the predicate fails and a suffix where it holds. There is at most one such split.
\<close>

definition splits_at :: "nat \<Rightarrow> (nat \<Rightarrow> bool) \<Rightarrow> nat \<Rightarrow> bool" where
  "splits_at n f r \<longleftrightarrow> r \<le> n \<and> (\<forall>k < r. \<not> f k) \<and> (\<forall>k < n. r \<le> k \<longrightarrow> f k)"

definition upclosed :: "nat \<Rightarrow> (nat \<Rightarrow> bool) \<Rightarrow> bool" where
  "upclosed n f \<longleftrightarrow> (\<forall>b < n. \<forall>a \<le> b. f a \<longrightarrow> f b)"

lemma splits_at_unique:
  assumes "splits_at n f r" and "splits_at n f r'"
  shows "r = r'"
proof (rule ccontr)
  assume "r \<noteq> r'"
  then consider "r < r'" | "r' < r" by linarith
  then show False using assms by cases (auto simp: splits_at_def)
qed

lemma search_loop_splits:
  assumes up: "upclosed n f" and "i \<le> j" and "j \<le> n"
    and "\<forall>k < i. \<not> f k" and "\<forall>k < n. j \<le> k \<longrightarrow> f k"
  shows "splits_at n f (search_loop f i j)"
  using assms(2-)
proof (induction "j - i" arbitrary: i j rule: less_induct)
  case less
  let ?h = "(i + j) div 2"
  show ?case
  proof (cases "i < j")
    case False
    with less.prems have "i = j" by simp
    with less.prems show ?thesis
      by (simp only: search_loop_stop less_irrefl not_False_eq_True splits_at_def)
  next
    case ij: True
    then have h: "i \<le> ?h" "?h < j" "?h < n" using less.prems(2) by auto
    show ?thesis
    proof (cases "f ?h")
      case True
      have right: "\<forall>k < n. ?h \<le> k \<longrightarrow> f k"
        using up True unfolding upclosed_def by blast
      have "splits_at n f (search_loop f i ?h)"
        by (rule less.hyps [OF _ h(1) _ less.prems(3) right]) (use h in linarith)+
      with True ij show ?thesis by (simp only: search_loop_step if_True)
    next
      case False
      have left: "\<forall>k < ?h + 1. \<not> f k"
        using up False h(3) unfolding upclosed_def by (metis less_Suc_eq_le Suc_eq_plus1)
      have "splits_at n f (search_loop f (?h + 1) j)"
        by (rule less.hyps [OF _ _ less.prems(2) left less.prems(4)]) (use h in linarith)+
      with False ij show ?thesis by (simp only: search_loop_step if_False)
    qed
  qed
qed

lemma sort_search_splits: "upclosed n f \<Longrightarrow> splits_at n f (sort_search n f)"
  by (simp add: sort_search_def search_loop_splits)

lemma search_loop_le: "i \<le> j \<Longrightarrow> search_loop f i j \<le> j"
proof (induction "j - i" arbitrary: i j rule: less_induct)
  case less
  show ?case
  proof (cases "i < j")
    case False
    with less.prems show ?thesis by (simp add: search_loop_stop)
  next
    case True
    then have "i \<le> (i + j) div 2" "(i + j) div 2 < j" by auto
    then have "search_loop f i ((i + j) div 2) \<le> (i + j) div 2"
      and "search_loop f ((i + j) div 2 + 1) j \<le> j"
      by (intro less.hyps; linarith)+
    with \<open>(i + j) div 2 < j\<close> True show ?thesis by (simp add: search_loop_step)
  qed
qed

lemma sort_search_le [simp]: "sort_search n f \<le> n"
  by (simp add: sort_search_def search_loop_le)

section \<open>Iterating over Go maps\<close>

definition visits :: "'k list \<Rightarrow> ('k, 'v) fmap \<Rightarrow> bool" where
  "visits ks m \<longleftrightarrow> distinct ks \<and> fset_of_list ks = fmdom m"

lemma visits_iff: "visits ks m \<longleftrightarrow> distinct ks \<and> set ks = fmdom' m"
  unfolding visits_def fmdom'_alt_def by (metis fset_inject fset_of_list.rep_eq)

lemma visits_set: "visits ks m \<Longrightarrow> set ks = fmdom' m"
  by (simp add: visits_iff)

lemma visits_distinct [intro]: "visits ks m \<Longrightarrow> distinct ks"
  by (simp add: visits_def)

lemma visits_mem: "visits ks m \<Longrightarrow> k \<in> set ks \<longleftrightarrow> (\<exists>v. fmlookup m k = Some v)"
  by (simp add: visits_set fmlookup_dom'_iff)

lemma visits_empty [simp]: "visits ks fmempty \<longleftrightarrow> ks = []"
  by (auto simp: visits_iff)

text \<open>A choice of iteration order for every map, as a later operation needs one for maps it builds.\<close>

definition iterates :: "(('k, 'v) fmap \<Rightarrow> 'k list) \<Rightarrow> bool" where
  "iterates ord \<longleftrightarrow> (\<forall>m. visits (ord m) m)"

lemma iterates_visits: "iterates ord \<Longrightarrow> visits (ord m) m"
  by (simp add: iterates_def)

definition key_order :: "('k::linorder, 'v) fmap \<Rightarrow> 'k list" where
  "key_order m = sorted_list_of_fset (fmdom m)"

lemma iterates_key_order: "iterates key_order"
  by (simp add: iterates_def key_order_def visits_iff fmdom'_alt_def sorted_list_of_fset.rep_eq)

definition fmsize :: "('k, 'v) fmap \<Rightarrow> nat" where
  "fmsize m = fcard (fmdom m)"

lemma fmsize_empty [simp]: "fmsize fmempty = 0"
  by (simp add: fmsize_def)

lemma fmsize_0_iff: "fmsize m = 0 \<longleftrightarrow> m = fmempty"
  by (metis fmap_ext fmdom_empty fmdom_notI fmempty_lookup fmlookup_dom_iff fcard_0_eq fmsize_def option.exhaust fempty_iff)

lemma fmsize_upd:
  "fmsize (fmupd k v m) = (if fmlookup m k = None then Suc (fmsize m) else fmsize m)"
  by (auto simp: fmsize_def fcard_finsert_if fmlookup_dom_iff)

lemma visits_length: "visits ks m \<Longrightarrow> length ks = fmsize m"
  by (simp add: visits_iff fmsize_def fcard.rep_eq fmdom'_alt_def distinct_card [symmetric])

section \<open>Lists\<close>

text \<open>A sorted list, cut at two positions that split it by a bound each.\<close>

definition go_slice :: "nat \<Rightarrow> nat \<Rightarrow> 'a list \<Rightarrow> 'a list" where
  "go_slice lo hi xs = take (hi - lo) (drop lo xs)"

lemma filter_take_split:
  assumes "splits_at (length xs) (\<lambda>i. P (xs ! i)) r"
  shows "take r xs = filter (\<lambda>x. \<not> P x) xs" and "drop r xs = filter P xs"
proof -
  have r: "r \<le> length xs" using assms by (simp add: splits_at_def)
  have "\<forall>x \<in> set (take r xs). \<not> P x" "\<forall>x \<in> set (drop r xs). P x"
    using assms by (auto simp: splits_at_def in_set_conv_nth)
  then have "filter (\<lambda>x. \<not> P x) (take r xs @ drop r xs) = take r xs"
    and "filter P (take r xs @ drop r xs) = drop r xs"
    unfolding filter_append by (simp_all add: filter_empty_conv filter_id_conv)
  then show "take r xs = filter (\<lambda>x. \<not> P x) xs" and "drop r xs = filter P xs"
    by simp_all
qed

lemma splits_at_drop:
  assumes "splits_at n (\<lambda>i. Q (xs ! i)) hi" and "lo \<le> n" and "n = length xs"
  shows "splits_at (n - lo) (\<lambda>i. Q (drop lo xs ! i)) (hi - lo)"
  using assms by (auto simp: splits_at_def)

lemma go_slice_filter:
  assumes lo: "splits_at (length xs) (\<lambda>i. P (xs ! i)) lo"
    and hi: "splits_at (length xs) (\<lambda>i. Q (xs ! i)) hi"
  shows "go_slice lo hi xs = filter (\<lambda>x. P x \<and> \<not> Q x) xs"
proof -
  have "splits_at (length (drop lo xs)) (\<lambda>i. Q (drop lo xs ! i)) (hi - lo)"
    using splits_at_drop [OF hi _ refl] lo by (simp add: splits_at_def)
  then have "go_slice lo hi xs = filter (\<lambda>x. \<not> Q x) (drop lo xs)"
    unfolding go_slice_def by (rule filter_take_split(1))
  also have "\<dots> = filter (\<lambda>x. P x \<and> \<not> Q x) xs"
    by (simp add: filter_take_split(2) [OF lo] conj_commute)
  finally show ?thesis .
qed

text \<open>Fields joined by a separator that occurs in none of them can be read back.\<close>

lemma append_sep_inject:
  "z \<notin> set a \<Longrightarrow> z \<notin> set b \<Longrightarrow> a @ z # u = b @ z # v \<Longrightarrow> a = b \<and> u = v"
proof (induction a arbitrary: b)
  case Nil
  then show ?case by (cases b) auto
next
  case (Cons x a)
  then show ?case by (cases b) auto
qed

lemma joined_fields_inject:
  assumes "n @ concat (map ((#) z) es) = n' @ concat (map ((#) z) es')"
    and "z \<notin> set n" "z \<notin> set n'" "\<forall>e \<in> set es \<union> set es'. z \<notin> set e"
  shows "n = n' \<and> es = es'"
  using assms
proof (induction es arbitrary: n n' es')
  case Nil
  show ?case
  proof (cases es')
    case (Cons e fs)
    then have "z \<in> set n" using arg_cong [OF Nil.prems(1), of set] by simp
    with Nil.prems(2) show ?thesis by contradiction
  qed (use Nil.prems(1) in simp)
next
  case (Cons e es)
  have "es' \<noteq> []"
  proof
    assume "es' = []"
    then have "z \<in> set n'" using arg_cong [OF Cons.prems(1), of set] by force
    with Cons.prems(3) show False by contradiction
  qed
  then obtain e' fs where es': "es' = e' # fs" by (meson neq_Nil_conv)
  with Cons.prems(1) have "n @ z # (e @ concat (map ((#) z) es)) = n' @ z # (e' @ concat (map ((#) z) fs))"
    by simp
  with Cons.prems(2,3) have split: "n = n'" "e @ concat (map ((#) z) es) = e' @ concat (map ((#) z) fs)"
    by (blast dest: append_sep_inject)+
  have "e = e' \<and> es = fs"
    by (rule Cons.IH [OF split(2)]) (use Cons.prems(4) es' in simp_all)
  with split(1) es' show ?case by simp
qed

end
