(* ===== verification/Float64.thy ===== *)
theory Float64
  imports Prelude
begin

text \<open>
  Go's \<open>float64\<close>: IEEE 754 binary64, held as its bits, so that \<open>math.Float64bits\<close> and
  \<open>math.Float64frombits\<close> are the identity. The code uses addition, subtraction, division,
  the two strict comparisons and the conversion of a count; each is the exact result rounded
  to nearest, ties to even.

  A finite value is an integer multiple of \<open>2 ^ -1074\<close>, the smallest subnormal. \<open>mag\<close> are
  the 63 bits below the sign; \<open>scaled\<close> reads them as that multiple. The encoding is
  monotone: \<open>scaled\<close> is strictly increasing in \<open>mag\<close>, infinity included, so the
  comparisons are comparisons of scaled values. \<open>round_mag\<close> rounds a non-negative rational
  multiple back to a magnitude: the excess \<open>k\<close> of its bit length over 53 is the exponent,
  and \<open>k * 2 ^ 52 + m\<close> is the magnitude of \<open>m * 2 ^ k\<close> for every 53-bit \<open>m\<close>, subnormals,
  the carry into the next binade and the overflow to infinity included.
  A NaN result is the canonical quiet NaN; the payload of a NaN is not specified by Go.
\<close>

type_synonym float64 = "64 word"

section \<open>Encoding\<close>

definition inf_mag :: int where
  "inf_mag = 2047 * 2 ^ 52"

definition fmag :: "float64 \<Rightarrow> int" where
  "fmag x = uint x mod 2 ^ 63"

definition fneg :: "float64 \<Rightarrow> bool" where
  "fneg x \<longleftrightarrow> 2 ^ 63 \<le> uint x"

definition fpack :: "bool \<Rightarrow> int \<Rightarrow> float64" where
  "fpack s m = word_of_int ((if s then 2 ^ 63 else 0) + m)"

definition fnan :: float64 where
  "fnan = 0x7FF8000000000000"

definition is_nan :: "float64 \<Rightarrow> bool" where
  "is_nan x \<longleftrightarrow> inf_mag < fmag x"

definition is_inf :: "float64 \<Rightarrow> bool" where
  "is_inf x \<longleftrightarrow> fmag x = inf_mag"

definition scaled_mag :: "int \<Rightarrow> int" where
  "scaled_mag m =
     (let e = m div 2 ^ 52; f = m mod 2 ^ 52
      in if e = 0 then f else (2 ^ 52 + f) * 2 ^ nat (e - 1))"

definition scaled :: "float64 \<Rightarrow> int" where
  "scaled x = (if fneg x then - scaled_mag (fmag x) else scaled_mag (fmag x))"

section \<open>Rounding\<close>

function bit_len :: "int \<Rightarrow> nat" where
  "bit_len n = (if n \<le> 0 then 0 else Suc (bit_len (n div 2)))"
  by pat_completeness auto
termination
  by (relation "measure nat") auto

declare bit_len.simps [simp del]

definition round_half_even :: "int \<Rightarrow> int \<Rightarrow> int" where
  "round_half_even num den =
     (let q = num div den; r = num mod den
      in if 2 * r < den then q
         else if den < 2 * r then q + 1
         else if even q then q else q + 1)"

definition round_mag :: "int \<Rightarrow> int \<Rightarrow> int" where
  "round_mag num den =
     (let k = bit_len (num div den) - 53;
          m = round_half_even num (den * 2 ^ k)
      in min inf_mag (int k * 2 ^ 52 + m))"

section \<open>Operations\<close>

definition fadd :: "float64 \<Rightarrow> float64 \<Rightarrow> float64" where
  "fadd x y =
     (if is_nan x \<or> is_nan y then fnan
      else if is_inf x \<and> is_inf y then (if fneg x = fneg y then x else fnan)
      else if is_inf x then x
      else if is_inf y then y
      else (let s = scaled x + scaled y
            in if s = 0 then fpack (fneg x \<and> fneg y) 0
               else fpack (s < 0) (round_mag \<bar>s\<bar> 1)))"

definition fopp :: "float64 \<Rightarrow> float64" where
  "fopp x = fpack (\<not> fneg x) (fmag x)"

definition fsub :: "float64 \<Rightarrow> float64 \<Rightarrow> float64" where
  "fsub x y = fadd x (fopp y)"

definition fdiv :: "float64 \<Rightarrow> float64 \<Rightarrow> float64" where
  "fdiv x y =
     (let s = (fneg x \<noteq> fneg y)
      in if is_nan x \<or> is_nan y then fnan
         else if is_inf x then (if is_inf y then fnan else fpack s inf_mag)
         else if is_inf y then fpack s 0
         else if fmag y = 0 then (if fmag x = 0 then fnan else fpack s inf_mag)
         else fpack s (round_mag (scaled_mag (fmag x) * 2 ^ 1074) (scaled_mag (fmag y))))"

definition flt :: "float64 \<Rightarrow> float64 \<Rightarrow> bool" where
  "flt x y \<longleftrightarrow> \<not> is_nan x \<and> \<not> is_nan y \<and> scaled x < scaled y"

definition f_of_nat :: "nat \<Rightarrow> float64" where
  "f_of_nat n = fpack False (round_mag (int n * 2 ^ 1074) 1)"

section \<open>Rounding returns representable values unchanged\<close>

lemma bit_len_pos: "0 < n \<Longrightarrow> bit_len n = Suc (bit_len (n div 2))"
  by (subst bit_len.simps) simp

lemma bit_len_nonpos: "n \<le> 0 \<Longrightarrow> bit_len n = 0"
  by (subst bit_len.simps) simp

lemma bit_len_less: "n < 2 ^ p \<Longrightarrow> bit_len n \<le> p"
proof (induction p arbitrary: n)
  case 0
  then show ?case by (simp add: bit_len_nonpos)
next
  case (Suc p)
  show ?case
  proof (cases "0 < n")
    case True
    from Suc.prems have "n div 2 < 2 ^ p" by simp
    with Suc.IH True show ?thesis by (simp add: bit_len_pos)
  qed (simp add: bit_len_nonpos)
qed

lemma bit_len_ge: "2 ^ p \<le> n \<Longrightarrow> p < bit_len n"
proof (induction p arbitrary: n)
  case 0
  then show ?case by (simp add: bit_len_pos)
next
  case (Suc p)
  then have "0 < n" using zero_less_power [of "2 :: int" "Suc p"] by linarith
  moreover from Suc.prems have "2 ^ p \<le> n div 2" by simp
  ultimately show ?case using Suc.IH by (simp add: bit_len_pos)
qed

lemma bit_len_eq: "2 ^ p \<le> n \<Longrightarrow> n < 2 ^ Suc p \<Longrightarrow> bit_len n = Suc p"
  using bit_len_ge [of p n] bit_len_less [of n "Suc p"] by simp

lemma round_half_even_exact: "0 < d \<Longrightarrow> round_half_even (m * d) d = m"
  by (simp add: round_half_even_def)

lemma round_half_even_cancel:
  assumes "0 < c" and "0 < d"
  shows "round_half_even (c * n) (c * d) = round_half_even n d"
proof -
  have "(c * n) div (c * d) = n div d" "(c * n) mod (c * d) = c * (n mod d)"
    using assms by simp_all
  moreover have "2 * (c * (n mod d)) < c * d \<longleftrightarrow> 2 * (n mod d) < d"
    and "c * d < 2 * (c * (n mod d)) \<longleftrightarrow> d < 2 * (n mod d)"
    using assms mult_less_cancel_left_pos [of c "2 * (n mod d)" d]
      mult_less_cancel_left_pos [of c d "2 * (n mod d)"]
    by (simp_all add: mult.left_commute)
  ultimately show ?thesis by (simp add: round_half_even_def Let_def)
qed

lemma round_mag_cancel:
  assumes "0 < c" and "0 < d"
  shows "round_mag (c * n) (c * d) = round_mag n d"
  using assms by (simp add: round_mag_def mult.assoc round_half_even_cancel)

lemma round_scaled_mag:
  assumes "0 \<le> m" and "m \<le> inf_mag"
  shows "round_mag (scaled_mag m) 1 = m"
proof -
  define e f where "e = m div 2 ^ 52" and "f = m mod 2 ^ 52"
  have m: "m = e * 2 ^ 52 + f" and f: "0 \<le> f" "f < 2 ^ 52" and e: "0 \<le> e"
    using assms(1) by (simp_all add: e_def f_def pos_imp_zdiv_nonneg_iff)
  show ?thesis
  proof (cases "e = 0")
    case True
    then have "scaled_mag m = f" "m = f"
      using m unfolding scaled_mag_def Let_def e_def [symmetric] f_def [symmetric] by simp_all
    moreover have "bit_len f - 53 = 0" using bit_len_less [of f 52] f by simp
    ultimately show ?thesis
      using assms(2) round_half_even_exact [of 1 f] by (simp add: round_mag_def)
  next
    case False
    define k where "k = nat (e - 1)"
    have ek: "e = int k + 1" using False e by (simp add: k_def)
    have sc: "scaled_mag m = (2 ^ 52 + f) * 2 ^ k"
      using False unfolding scaled_mag_def Let_def e_def [symmetric] f_def [symmetric]
      by (simp add: k_def)
    have "(2::int) ^ (52 + k) \<le> (2 ^ 52 + f) * 2 ^ k"
      using f by (simp add: power_add)
    moreover have "(2 ^ 52 + f) * 2 ^ k < (2::int) ^ Suc (52 + k)"
      using f mult_strict_right_mono [of "2 ^ 52 + f" "2 ^ 53" "2 ^ k"]
      by (simp add: power_add)
    ultimately have "bit_len ((2 ^ 52 + f) * 2 ^ k) = Suc (52 + k)"
      by (rule bit_len_eq)
    then have "round_mag (scaled_mag m) 1 = min inf_mag (int k * 2 ^ 52 + (2 ^ 52 + f))"
      by (simp add: sc round_mag_def round_half_even_exact)
    also have "\<dots> = min inf_mag m" by (simp add: m ek algebra_simps)
    finally show ?thesis using assms(2) by simp
  qed
qed

section \<open>Packing, and division by one\<close>

lemma fmag_bounds: "0 \<le> fmag x" "fmag x < 2 ^ 63"
  by (simp_all add: fmag_def)

lemma fpack_fmag [simp]: "fpack (fneg x) (fmag x) = x"
proof -
  have lt: "uint x < 2 ^ 64" using uint_lt2p [of x] by simp
  have "(if fneg x then 2 ^ 63 else 0) + fmag x = uint x"
  proof (cases "fneg x")
    case True
    then have "uint x = 2 ^ 63 + (uint x - 2 ^ 63)" "0 \<le> uint x - 2 ^ 63" "uint x - 2 ^ 63 < 2 ^ 63"
      using lt by (simp_all add: fneg_def)
    then have "uint x mod 2 ^ 63 = uint x - 2 ^ 63"
      by (metis mod_add_self1 mod_pos_pos_trivial)
    with True show ?thesis by (simp add: fmag_def)
  next
    case False
    then show ?thesis by (simp add: fneg_def fmag_def)
  qed
  then show ?thesis by (simp add: fpack_def)
qed

lemma fmag_fpack:
  assumes "0 \<le> m" and "m < 2 ^ 63"
  shows "fmag (fpack s m) = m" and "fneg (fpack s m) = s"
proof -
  have "((if s then 2 ^ 63 else 0) + m) mod 2 ^ 64 = (if s then 2 ^ 63 else 0) + m"
    using assms by simp
  then have "uint (fpack s m) = (if s then 2 ^ 63 else 0) + m"
    unfolding fpack_def uint_word_of_int by simp
  then show "fmag (fpack s m) = m" "fneg (fpack s m) = s"
    using assms by (auto simp: fmag_def fneg_def)
qed

lemma round_mag_bounds:
  assumes "0 \<le> num" and "0 < den"
  shows "0 \<le> round_mag num den" and "round_mag num den \<le> inf_mag"
proof -
  have "0 \<le> round_half_even num (den * 2 ^ k)" for k
    using assms by (auto simp: round_half_even_def Let_def pos_imp_zdiv_nonneg_iff)
  then show "0 \<le> round_mag num den"
    by (simp add: round_mag_def Let_def inf_mag_def)
qed (simp add: round_mag_def Let_def)

definition fone :: float64 where
  "fone = 0x3FF0000000000000"

lemma f_of_nat_1: "f_of_nat 1 = fone"
proof -
  have "bit_len ((2::int) ^ 1074) = Suc 1074" by (rule bit_len_eq) simp_all
  then have "round_mag (2 ^ 1074) 1 = min inf_mag (1022 * 2 ^ 52 + round_half_even (2 ^ 52 * 2 ^ 1022) (2 ^ 1022))"
    by (simp add: round_mag_def flip: power_add)
  then show ?thesis
    by (simp only: round_half_even_exact zero_less_power zero_less_numeral)
       (simp add: f_of_nat_def fpack_def inf_mag_def fone_def)
qed

lemma fone_parts: "fneg fone = False" "\<not> is_nan fone" "\<not> is_inf fone"
  "scaled_mag (fmag fone) = 2 ^ 1074"
  by (simp_all add: fone_def fneg_def fmag_def is_nan_def is_inf_def inf_mag_def scaled_mag_def)

lemma fmag_fone_pos: "fmag fone \<noteq> 0"
  by (simp add: fone_def fmag_def)

lemma scaled_mag_nonneg: "0 \<le> m \<Longrightarrow> 0 \<le> scaled_mag m"
  by (simp add: scaled_mag_def Let_def)

lemma scaled_mag_pos: "0 < m \<Longrightarrow> 0 < scaled_mag m"
proof -
  assume m: "0 < m"
  show "0 < scaled_mag m"
  proof (cases "m div 2 ^ 52 = 0")
    case True
    then have "m mod 2 ^ 52 = m" using div_mult_mod_eq [of m "2 ^ 52"] by simp
    with m True show ?thesis by (simp add: scaled_mag_def)
  qed (simp add: scaled_mag_def Let_def add_pos_nonneg)
qed

lemma fdiv_one: "fdiv x fone = (if is_nan x then fnan else x)"
proof -
  consider "is_nan x" | "\<not> is_nan x" "is_inf x" | "\<not> is_nan x" "\<not> is_inf x" by blast
  then show ?thesis
  proof cases
    case 2
    then have "fpack (fneg x) inf_mag = x" using fpack_fmag [of x] by (simp add: is_inf_def)
    with 2 show ?thesis by (simp add: fdiv_def fone_parts)
  next
  case 3
  then have le: "fmag x \<le> inf_mag" by (simp add: is_nan_def)
  have "round_mag (scaled_mag (fmag x) * 2 ^ 1074) (2 ^ 1074) = round_mag (scaled_mag (fmag x)) 1"
    using round_mag_cancel [of "2 ^ 1074" 1 "scaled_mag (fmag x)"]
    by (simp only: mult.commute [of "scaled_mag (fmag x)"] mult_1_right zero_less_power zero_less_numeral zero_less_one)
  also have "\<dots> = fmag x" using le fmag_bounds(1) by (rule round_scaled_mag [rotated])
  finally show ?thesis
    using 3 fpack_fmag [of x]
    by (simp only: fdiv_def Let_def fone_parts if_False) (simp add: fmag_fone_pos)
  qed (simp add: fdiv_def)
qed

lemma not_is_nan_fpack: "0 \<le> m \<Longrightarrow> m \<le> inf_mag \<Longrightarrow> \<not> is_nan (fpack s m)"
  by (simp add: is_nan_def fmag_fpack inf_mag_def)

lemma fdiv_nan: "is_nan (fdiv x y) \<Longrightarrow> fdiv x y = fnan"
proof -
  have y: "0 < scaled_mag (fmag y)" if "fmag y \<noteq> 0"
    using that fmag_bounds(1) [of y] scaled_mag_pos by simp
  have "\<not> is_nan (fpack s (round_mag (scaled_mag (fmag x) * 2 ^ 1074) (scaled_mag (fmag y))))"
    if "fmag y \<noteq> 0" for s
    using y [OF that] fmag_bounds(1) [of x] scaled_mag_nonneg
    by (intro not_is_nan_fpack round_mag_bounds) simp_all
  moreover have "\<not> is_nan (fpack s 0)" "\<not> is_nan (fpack s inf_mag)" for s
    by (simp_all add: not_is_nan_fpack inf_mag_def)
  ultimately show "is_nan (fdiv x y) \<Longrightarrow> fdiv x y = fnan"
    by (auto simp: fdiv_def Let_def split: if_splits)
qed

lemma fdiv_one_again: "fdiv (fdiv x y) fone = fdiv x y"
  by (simp add: fdiv_one fdiv_nan)

section \<open>Comparison\<close>

lemma flt_irrefl [simp]: "\<not> flt x x"
  by (simp add: flt_def)

lemma flt_trans: "flt x y \<Longrightarrow> flt y z \<Longrightarrow> flt x z"
  by (simp add: flt_def)

lemma flt_not_lt_trans:
  "\<not> is_nan x \<Longrightarrow> \<not> is_nan y \<Longrightarrow> \<not> flt x y \<Longrightarrow> flt x z \<Longrightarrow> flt y z"
  by (auto simp: flt_def)

lemma flt_le_trans: "flt x z \<Longrightarrow> \<not> flt y z \<Longrightarrow> \<not> is_nan y \<Longrightarrow> flt x y"
  by (auto simp: flt_def)

lemma is_nan_fnan [simp]: "is_nan fnan"
  by (simp add: is_nan_def fmag_def fnan_def inf_mag_def)

end
