(* ===== verification/Model.thy ===== *)
theory Model
  imports Prelude Float64 "HOL-Library.Char_ord" "HOL-Library.List_Lexorder"
begin

text \<open>
  The shared data model, \<open>internal/model/model.go\<close>: points, series metadata with the
  canonical label key, time ranges, the shard and block states, and the policies. The errors
  the packages return, and the run-time panics the code can reach, are the
  constructors of \<open>err\<close>.

  Strings are byte strings (\<open>char list\<close>), as Go's are; \<open>sort.Strings\<close> is the library's
  \<open>sort\<close> at the lexicographic order on them.

  The last section is the interface of the two binary searches over points, which the
  memtable and the storage blocks each implement with a loop of their own.
\<close>

section \<open>Data\<close>

record point =
  TS :: int64
  Value :: float64
  SeriesID :: uint64

type_synonym series_points = "(uint64, point list) fmap"

record series_meta =
  ID :: uint64
  Name :: string
  Labels :: "(string, string) fmap"

type_synonym shard_id = uint32
type_synonym block_id = uint64
type_synonym duration = int64

record query_range =
  Start :: int64
  End :: int64

datatype shard_state = ShardActive | ShardSealing | ShardSealed | ShardArchived

datatype block_state = BlockMutable | BlockImmutable | BlockCompacting | BlockArchived

record retention_policy =
  MaxAge :: duration
  SweepStep :: duration

record downsample_policy =
  Window :: duration

record sweep_result =
  Scanned :: nat
  Removed :: nat

datatype err =
    ErrInvalidName
  | ErrInvalidLabel
  | ErrBeforeActive int64 int64
  | ErrWindowNotPositive
  | ErrBlockArchived block_id
  | ErrExpand nat
  | ErrUnknownSeries string
  | ErrTooLong
  | ErrIO
  | ErrNotExist string
  | ErrSegmentName string
  | ErrCheckpoint
  | ErrOptions
  | ErrRoute err
  | PanicMakeslice
  | PanicOpen string
  | PanicNil

definition zero_meta :: series_meta where
  "zero_meta = \<lparr>ID = 0, Name = [], Labels = fmempty\<rparr>"

section \<open>The canonical label key\<close>

text \<open>
  \<open>LabelsKey\<close> collects the label names in the map's iteration order \<open>ks\<close>, sorts them, and
  renders each label after a zero byte.
\<close>

definition label_value :: "series_meta \<Rightarrow> string \<Rightarrow> string" where
  "label_value s k = (case fmlookup (Labels s) k of Some v \<Rightarrow> v | None \<Rightarrow> [])"

definition render_label :: "series_meta \<Rightarrow> string \<Rightarrow> string" where
  "render_label s k = CHR 0x00 # k @ CHR ''='' # label_value s k"

definition LabelsKey_from :: "string list \<Rightarrow> series_meta \<Rightarrow> string" where
  "LabelsKey_from ks s = Name s @ concat (map (render_label s) (sort ks))"

definition LabelsKey :: "series_meta \<Rightarrow> string" where
  "LabelsKey s = LabelsKey_from (sorted_list_of_fset (fmdom (Labels s))) s"

text \<open>The key does not depend on the iteration order of the label map.\<close>

lemma sort_visits:
  fixes ks :: "string list"
  assumes "visits ks m"
  shows "sort ks = sorted_list_of_fset (fmdom m)"
proof -
  from assms have "distinct ks" and "fset (fmdom m) = set ks"
    by (simp_all add: visits_iff fmdom'_alt_def)
  then show ?thesis
    by (simp add: sorted_list_of_fset.rep_eq sorted_list_of_set_sort_remdups distinct_remdups_id)
qed

lemma sort_sorted_list_of_fset [simp]: "sort (sorted_list_of_fset A) = sorted_list_of_fset A"
  by (simp add: sorted_list_of_fset.rep_eq sorted_sort_id)

lemma LabelsKey_order: "visits ks (Labels s) \<Longrightarrow> LabelsKey_from ks s = LabelsKey s"
  by (simp add: LabelsKey_from_def LabelsKey_def sort_visits)

text \<open>
  A zero byte in a label value (or a zero byte or an equals sign in a label name) is what can
  make two series share a key; without them the key determines the series.
\<close>

definition key_safe :: "series_meta \<Rightarrow> bool" where
  "key_safe s \<longleftrightarrow> CHR 0x00 \<notin> set (Name s)
     \<and> fmpred (\<lambda>k v. CHR 0x00 \<notin> set k \<and> CHR ''='' \<notin> set k \<and> CHR 0x00 \<notin> set v) (Labels s)"

definition label_fields :: "series_meta \<Rightarrow> string list" where
  "label_fields s =
     map (\<lambda>k. k @ CHR ''='' # label_value s k) (sorted_list_of_fset (fmdom (Labels s)))"

lemma LabelsKey_fields: "LabelsKey s = Name s @ concat (map ((#) (CHR 0x00)) (label_fields s))"
  by (simp add: LabelsKey_def LabelsKey_from_def label_fields_def comp_def render_label_def [abs_def])

lemma key_safe_label:
  assumes "key_safe s" and "k |\<in>| fmdom (Labels s)"
  shows "CHR 0x00 \<notin> set k" and "CHR ''='' \<notin> set k" and "CHR 0x00 \<notin> set (label_value s k)"
  using assms by (auto simp: key_safe_def fmpred_iff label_value_def elim!: fmdomE)

lemma key_safe_fields: "key_safe s \<Longrightarrow> e \<in> set (label_fields s) \<Longrightarrow> CHR 0x00 \<notin> set e"
  by (auto simp: label_fields_def dest: key_safe_label)

lemma label_fields_Labels:
  assumes s: "key_safe s" and t: "key_safe t" and eq: "label_fields s = label_fields t"
  shows "Labels s = Labels t"
proof (rule fmap_ext)
  let ?ks = "sorted_list_of_fset (fmdom (Labels s))" and ?kt = "sorted_list_of_fset (fmdom (Labels t))"
  have len: "length ?ks = length ?kt"
    using arg_cong [OF eq, of length] by (simp add: label_fields_def)
  have nth: "?ks ! i = ?kt ! i \<and> label_value s (?ks ! i) = label_value t (?kt ! i)"
    if "i < length ?ks" for i
  proof (rule append_sep_inject [where z = "CHR ''=''"])
    show "?ks ! i @ CHR ''='' # label_value s (?ks ! i) = ?kt ! i @ CHR ''='' # label_value t (?kt ! i)"
      using arg_cong [OF eq, of "\<lambda>l. l ! i"] that len by (simp add: label_fields_def)
    have "?ks ! i |\<in>| fmdom (Labels s)" "?kt ! i |\<in>| fmdom (Labels t)"
      using that len nth_mem [of i ?ks] nth_mem [of i ?kt] by simp_all
    then show "CHR ''='' \<notin> set (?ks ! i)" "CHR ''='' \<notin> set (?kt ! i)"
      using key_safe_label(2) s t by blast+
  qed
  then have keys: "?ks = ?kt"
    using len by (auto intro: nth_equalityI)
  then have dom: "fmdom (Labels s) = fmdom (Labels t)"
    by (metis sorted_list_of_fset_simps(2))
  fix k
  show "fmlookup (Labels s) k = fmlookup (Labels t) k"
  proof (cases "k |\<in>| fmdom (Labels s)")
    case True
    then obtain i where "i < length ?ks" "?ks ! i = k"
      by (metis in_set_conv_nth sorted_list_of_fset_simps(1))
    with nth keys have "label_value s k = label_value t k" by metis
    moreover from True dom obtain v w where "fmlookup (Labels s) k = Some v" "fmlookup (Labels t) k = Some w"
      by (metis fmlookup_dom_iff)
    ultimately show ?thesis by (simp add: label_value_def)
  next
    case False
    with dom show ?thesis by (metis fmdom_notD)
  qed
qed

lemma LabelsKey_inject:
  assumes s: "key_safe s" and t: "key_safe t" and eq: "LabelsKey s = LabelsKey t"
  shows "Name s = Name t \<and> Labels s = Labels t"
proof -
  have "Name s = Name t \<and> label_fields s = label_fields t"
  proof (rule joined_fields_inject [where z = "CHR 0x00"])
    show "CHR 0x00 \<notin> set (Name s)" "CHR 0x00 \<notin> set (Name t)"
      using s t by (simp_all add: key_safe_def)
  qed (use eq s t in \<open>auto simp: LabelsKey_fields dest: key_safe_fields\<close>)
  then show ?thesis using label_fields_Labels s t by blast
qed

lemma LabelsKey_cong: "Name s = Name t \<Longrightarrow> Labels s = Labels t \<Longrightarrow> LabelsKey s = LabelsKey t"
  by (simp add: LabelsKey_fields label_fields_def label_value_def)

section \<open>Points of one series, and searching them by time\<close>

definition series_of :: "series_points \<Rightarrow> uint64 \<Rightarrow> point list" where
  "series_of m sid = (case fmlookup m sid of Some pts \<Rightarrow> pts | None \<Rightarrow> [])"

lemma series_of_upd [simp]:
  "series_of (fmupd k v m) sid = (if sid = k then v else series_of m sid)"
  by (auto simp: series_of_def)

lemma series_of_empty [simp]: "series_of fmempty sid = []"
  by (simp add: series_of_def)

definition in_range :: "query_range \<Rightarrow> point \<Rightarrow> bool" where
  "in_range rng p \<longleftrightarrow> Start rng \<le>s TS p \<and> TS p <s End rng"

definition time_sorted :: "point list \<Rightarrow> bool" where
  "time_sorted pts \<longleftrightarrow> sorted_wrt (\<lambda>p q. TS p \<le>s TS q) pts"

definition time_strict :: "point list \<Rightarrow> bool" where
  "time_strict pts \<longleftrightarrow> sorted_wrt (\<lambda>p q. TS p <s TS q) pts"

lemma time_strict_sorted: "time_strict pts \<Longrightarrow> time_sorted pts"
  unfolding time_strict_def time_sorted_def
  by (erule sorted_wrt_mono_rel [rotated]) (simp add: go_int)

lemma time_sorted_nth:
  "time_sorted pts \<Longrightarrow> i \<le> j \<Longrightarrow> j < length pts \<Longrightarrow> sint (TS (pts ! i)) \<le> sint (TS (pts ! j))"
  unfolding time_sorted_def
  by (cases "i = j") (auto simp: sorted_wrt_iff_nth_less go_int)

lemma upclosed_time:
  "time_sorted pts \<Longrightarrow> upclosed (length pts) (\<lambda>i. \<not> TS (pts ! i) <s t)"
  using time_sorted_nth by (fastforce simp: upclosed_def go_int)

text \<open>
  The running minimum and maximum of the timestamps seen so far, with the flag \<open>first\<close> of the
  loops in \<open>ingest.groupMinMax\<close> and \<open>compact.Compact\<close>.
\<close>

record time_span =
  spanMin :: int64
  spanMax :: int64
  spanFirst :: bool

definition no_span :: time_span where
  "no_span = \<lparr>spanMin = 0, spanMax = 0, spanFirst = True\<rparr>"

definition widen :: "point \<Rightarrow> time_span \<Rightarrow> time_span" where
  "widen p s =
     \<lparr>spanMin = (if spanFirst s \<or> TS p <s spanMin s then TS p else spanMin s),
      spanMax = (if spanFirst s \<or> spanMax s <s TS p then TS p else spanMax s),
      spanFirst = False\<rparr>"

definition spans :: "time_span \<Rightarrow> point set \<Rightarrow> bool" where
  "spans s P \<longleftrightarrow> (spanFirst s \<longleftrightarrow> P = {})
     \<and> (P \<noteq> {} \<longrightarrow> spanMin s \<in> TS ` P \<and> spanMax s \<in> TS ` P
         \<and> (\<forall>p \<in> P. spanMin s \<le>s TS p \<and> TS p \<le>s spanMax s))"

lemma spans_none: "spans no_span {}"
  by (simp add: spans_def no_span_def)

lemma widen_spans:
  assumes "spans s P"
  shows "spans (widen p s) (insert p P)"
proof (cases "P = {}")
  case True
  with assms show ?thesis by (simp add: spans_def widen_def go_int)
next
  case False
  with assms show ?thesis
    by (auto simp: spans_def widen_def go_int)
qed

lemma fold_widen_spans: "spans s P \<Longrightarrow> spans (fold widen ps s) (P \<union> set ps)"
proof (induction ps arbitrary: s P)
  case (Cons p ps)
  from Cons.IH [OF widen_spans [OF Cons.prems, of p]] show ?case by simp
qed simp

text \<open>
  The interface: \<open>lb pts t\<close> is the first position whose time is not before \<open>t\<close>. Everything
  the readers need of a search over sorted points follows from that.
\<close>

locale time_search =
  fixes lb :: "point list \<Rightarrow> int64 \<Rightarrow> nat"
  assumes lb_splits: "time_sorted pts \<Longrightarrow> splits_at (length pts) (\<lambda>i. \<not> TS (pts ! i) <s t) (lb pts t)"
begin

lemma lb_le_length: "time_sorted pts \<Longrightarrow> lb pts t \<le> length pts"
  using lb_splits by (simp add: splits_at_def)

lemma lb_mono:
  assumes "time_sorted pts" and "a \<le>s b"
  shows "lb pts a \<le> lb pts b"
proof (rule ccontr)
  assume "\<not> lb pts a \<le> lb pts b"
  then have "TS (pts ! lb pts b) <s a" "lb pts b < length pts"
    using lb_splits [OF assms(1), of a] by (auto simp: splits_at_def)
  moreover have "\<not> TS (pts ! lb pts b) <s b"
    using lb_splits [OF assms(1), of b] calculation(2) by (simp add: splits_at_def)
  ultimately show False using assms(2) by (simp add: go_int)
qed

lemma slice_range:
  assumes "time_sorted pts"
  shows "go_slice (lb pts (Start rng)) (lb pts (End rng)) pts = filter (in_range rng) pts"
proof -
  have "in_range rng = (\<lambda>p. \<not> TS p <s Start rng \<and> \<not> \<not> TS p <s End rng)"
    by (auto simp: in_range_def go_int fun_eq_iff)
  then show ?thesis
    using go_slice_filter [OF lb_splits [OF assms] lb_splits [OF assms], of "Start rng" "End rng"]
    by simp
qed

lemma lb_strict_less:
  assumes "time_sorted pts" and "p \<in> set pts" and "a \<le>s TS p" and "TS p <s b"
  shows "lb pts a < lb pts b"
proof -
  from assms(2) obtain i where i: "i < length pts" "pts ! i = p"
    by (auto simp: in_set_conv_nth)
  have "\<not> i < lb pts a"
    using lb_splits [OF assms(1), of a] i assms(3) unfolding splits_at_def go_int by fastforce
  moreover have "\<not> lb pts b \<le> i"
    using lb_splits [OF assms(1), of b] i assms(4) unfolding splits_at_def by blast
  ultimately show ?thesis by simp
qed

end

end
