(* ===== verification/Windows.thy ===== *)
theory Windows
  imports Model
begin

text \<open>
  The windowing loop that the compactor and the query engine share in shape: walk the points,
  open a new accumulator when the bucket start differs from the last accumulator's, otherwise
  fold the point into the last one. \<open>runs\<close> cuts the points into maximal runs of one bucket;
  the locale shows that the loop is one fold per run, whatever the accumulator.
\<close>

definition default_step :: int64 where
  "default_step = 60000000000"

definition effective_step :: "int64 \<Rightarrow> int64" where
  "effective_step step = (if step \<le>s 0 then default_step else step)"

lemma effective_step_pos: "0 < sint (effective_step step)"
proof -
  have "sint default_step = 60000000000" by (simp add: default_step_def)
  then show ?thesis by (simp add: effective_step_def go_int)
qed

fun runs :: "int64 \<Rightarrow> point list \<Rightarrow> point list list" where
  "runs step [] = []"
| "runs step (p # ps) =
     (case runs step ps of
        [] \<Rightarrow> [[p]]
      | g # gs \<Rightarrow>
          if bucket_start step (TS (hd g)) = bucket_start step (TS p) then (p # g) # gs
          else [p] # g # gs)"

definition run_bucket :: "int64 \<Rightarrow> point list \<Rightarrow> int64" where
  "run_bucket step g = bucket_start step (TS (hd g))"

lemma runs_nonempty: "g \<in> set (runs step ps) \<Longrightarrow> g \<noteq> []"
  by (induction ps arbitrary: g) (auto split: list.splits if_splits)

lemma runs_Nil_iff [simp]: "runs step ps = [] \<longleftrightarrow> ps = []"
  by (cases ps) (auto split: list.splits)

lemma concat_runs: "concat (runs step ps) = ps"
  by (induction ps) (auto split: list.splits)

lemma runs_same_bucket:
  "g \<in> set (runs step ps) \<Longrightarrow> p \<in> set g \<Longrightarrow> bucket_start step (TS p) = run_bucket step g"
proof (induction ps arbitrary: g p)
  case (Cons q ps)
  show ?case
  proof (cases "runs step ps")
    case Nil
    with Cons.prems show ?thesis by (simp add: run_bucket_def)
  next
    case (Cons h hs)
    have h: "\<forall>x \<in> set h. bucket_start step (TS x) = run_bucket step h"
      using Cons.IH Cons by simp
    from Cons.prems Cons consider "g = q # h" "run_bucket step h = bucket_start step (TS q)"
      | "g = [q]" | "g \<in> set (runs step ps)"
      by (auto simp: run_bucket_def split: if_splits)
    then show ?thesis
    proof cases
      case 1
      with h Cons.prems show ?thesis by (auto simp: run_bucket_def)
    next
      case 2
      with Cons.prems show ?thesis by (simp add: run_bucket_def)
    next
      case 3
      with Cons.IH Cons.prems show ?thesis by blast
    qed
  qed
qed simp

lemma hd_runs: "ps \<noteq> [] \<Longrightarrow> hd (hd (runs step ps)) = hd ps"
  by (cases ps) (auto split: list.splits)

lemma runs_snoc:
  "runs step (ps @ [p]) =
     (if ps = [] then [[p]]
      else if run_bucket step (last (runs step ps)) = bucket_start step (TS p)
           then butlast (runs step ps) @ [last (runs step ps) @ [p]]
           else runs step ps @ [[p]])"
proof (induction ps)
  case (Cons q ps)
  show ?case
  proof (cases ps)
    case Nil
    then show ?thesis by (auto simp: run_bucket_def)
  next
    case (Cons r rs)
    then have "runs step ps \<noteq> []" unfolding runs_Nil_iff by simp
    then obtain g gs where g: "runs step ps = g # gs" by (meson neq_Nil_conv)
    then have "g \<noteq> []" using runs_nonempty [of g step ps] by simp
    with Cons g Cons.IH show ?thesis
      by (cases "gs = []") (auto simp: run_bucket_def)
  qed
qed simp

locale window_fold =
  fixes init :: "int64 \<Rightarrow> point \<Rightarrow> 'a"
    and upd :: "'a \<Rightarrow> point \<Rightarrow> 'a"
    and key :: "'a \<Rightarrow> int64"
    and wstep :: "int64 \<Rightarrow> 'a list \<Rightarrow> point \<Rightarrow> 'a list"
  assumes key_init: "key (init b p) = b"
    and key_upd: "key (upd a p) = key a"
    and wstep_eq: "wstep step ws p =
      (if ws = [] \<or> key (last ws) \<noteq> bucket_start step (TS p) then ws @ [init (bucket_start step (TS p)) p]
       else butlast ws @ [upd (last ws) p])"
begin

definition run_acc :: "int64 \<Rightarrow> point list \<Rightarrow> 'a" where
  "run_acc step g = foldl upd (init (run_bucket step g) (hd g)) (tl g)"

lemma key_run_acc: "key (run_acc step g) = run_bucket step g"
proof -
  have "key (foldl upd a ps) = key a" for a ps
    by (induction ps arbitrary: a) (simp_all add: key_upd)
  then show ?thesis by (simp add: run_acc_def key_init)
qed

lemma fold_runs: "foldl (wstep step) [] ps = map (run_acc step) (runs step ps)"
proof (induction ps rule: rev_induct)
  case (snoc p ps)
  show ?case
  proof (cases "ps = []")
    case True
    then show ?thesis by (simp add: wstep_eq run_acc_def run_bucket_def)
  next
    case False
    let ?g = "last (runs step ps)"
    have "?g \<in> set (runs step ps)" using False by simp
    then have ne: "?g \<noteq> []" by (rule runs_nonempty)
    then have app: "run_acc step (?g @ [p]) = upd (run_acc step ?g) p"
      by (simp add: run_acc_def run_bucket_def)
    have lst: "last (map (run_acc step) (runs step ps)) = run_acc step ?g"
      using False by (simp add: last_map)
    show ?thesis
      using False snoc.IH app lst
      by (simp add: wstep_eq key_run_acc runs_snoc map_butlast) (simp add: run_acc_def run_bucket_def)
  qed
qed simp

end

section \<open>Runs of time-ordered points\<close>

lemma runs_ascending:
  assumes "0 < sint step" and "time_sorted ps"
  shows "sorted_wrt (\<lambda>g h. sint (run_bucket step g) < sint (run_bucket step h)) (runs step ps)"
  using assms(2)
proof (induction ps)
  case (Cons p ps)
  then have tail: "sorted_wrt (\<lambda>g h. sint (run_bucket step g) < sint (run_bucket step h)) (runs step ps)"
    and le: "\<forall>q \<in> set ps. sint (TS p) \<le> sint (TS q)"
    by (auto simp: time_sorted_def go_int)
  show ?case
  proof (cases "runs step ps")
    case (Cons g gs)
    have g: "g \<in> set (runs step ps)" "g \<noteq> []" using Cons runs_nonempty [of g step ps] by auto
    then have "hd g \<in> set ps" using concat_runs [of step ps] by (metis UN_I hd_in_set set_concat)
    then have pg: "sint (bucket_start step (TS p)) \<le> sint (run_bucket step g)"
      unfolding run_bucket_def using le by (intro bucket_start_mono [OF assms(1)]) blast
    show ?thesis
      using tail pg g(2) Cons
      by (auto simp: run_bucket_def sint64_inject [symmetric] order_less_le intro: order_trans)
  qed simp
qed simp

lemma set_runs_buckets:
  "run_bucket step ` set (runs step ps) = (\<lambda>p. bucket_start step (TS p)) ` set ps"
proof
  show "run_bucket step ` set (runs step ps) \<subseteq> (\<lambda>p. bucket_start step (TS p)) ` set ps"
  proof
    fix b assume "b \<in> run_bucket step ` set (runs step ps)"
    then obtain g where g: "g \<in> set (runs step ps)" "b = bucket_start step (TS (hd g))"
      by (auto simp: run_bucket_def)
    then have "hd g \<in> set (concat (runs step ps))"
      using runs_nonempty [OF g(1)] by (auto intro: bexI [of _ g])
    then show "b \<in> (\<lambda>p. bucket_start step (TS p)) ` set ps"
      using g(2) by (simp add: concat_runs)
  qed
  show "(\<lambda>p. bucket_start step (TS p)) ` set ps \<subseteq> run_bucket step ` set (runs step ps)"
  proof
    fix b assume "b \<in> (\<lambda>p. bucket_start step (TS p)) ` set ps"
    then obtain p where "p \<in> set (concat (runs step ps))" "b = bucket_start step (TS p)"
      by (auto simp: concat_runs)
    then show "b \<in> run_bucket step ` set (runs step ps)"
      using runs_same_bucket by auto
  qed
qed

text \<open>Runs are maximal; points whose neighbours lie in other buckets are runs of their own.\<close>

lemma runs_adjacent: "distinct_adj (map (run_bucket step) (runs step ps))"
proof (induction ps)
  case (Cons p ps)
  show ?case
  proof (cases "runs step ps")
    case (Cons g gs)
    have "map (run_bucket step) ((p # g) # gs) = map (run_bucket step) (g # gs)"
      if "bucket_start step (TS (hd g)) = bucket_start step (TS p)"
      using that by (simp add: run_bucket_def)
    with Cons \<open>distinct_adj (map (run_bucket step) (runs step ps))\<close> show ?thesis
      by (auto simp: run_bucket_def [abs_def])
  qed simp
qed simp

lemma runs_singletons:
  "distinct_adj (map (\<lambda>p. bucket_start step (TS p)) ps) \<Longrightarrow> runs step ps = map (\<lambda>p. [p]) ps"
proof (induction ps)
  case (Cons p ps)
  then show ?case by (cases ps) auto
qed simp

lemma fold_points_length: "sum_list (map length (runs step ps)) = length ps"
  using concat_runs [of step ps] by (metis length_concat)

end
