(* ===== verification/Memtable.thy ===== *)
theory Memtable
  imports Model
begin

text \<open>
  The memtable, \<open>internal/memtable\<close>: the live snapshot, one slice of points per series kept
  in time order by \<open>Write\<close>, and the count of writes since the last flush.

  \<open>mem_value m sid ts\<close> reads the memtable as a map from series and timestamp to value.
  \<open>mem_inv\<close> says every slice is strictly ordered, belongs to its series and lies within the
  recorded time span; \<open>Write\<close> keeps it and is an update of that map, \<open>Read\<close> returns the
  slice's points in the range, in order. A snapshot pointer may be nil in the code, so the
  snapshot methods take an option.
\<close>

record snapshot =
  refs :: nat
  byID :: series_points
  minTS :: int64
  maxTS :: int64

record memtable =
  current :: snapshot
  points :: nat

section \<open>Snapshots\<close>

fun Acquire :: "snapshot option \<Rightarrow> snapshot option" where
  "Acquire None = None"
| "Acquire (Some s) = Some (s\<lparr>refs := refs s + 1\<rparr>)"

fun Release :: "snapshot option \<Rightarrow> snapshot option" where
  "Release None = None"
| "Release (Some s) = Some (if 0 < refs s then s\<lparr>refs := refs s - 1\<rparr> else s)"

definition mem_lb :: "point list \<Rightarrow> int64 \<Rightarrow> nat" where
  "mem_lb pts t = sort_search (length pts) (\<lambda>i. t \<le>s TS (pts ! i))"

fun snapshot_Range :: "snapshot option \<Rightarrow> uint64 \<Rightarrow> query_range \<Rightarrow> err + point list" where
  "snapshot_Range None sid rng = Inr []"
| "snapshot_Range (Some s) sid rng =
     (let pts = series_of (byID s) sid;
          lo = mem_lb pts (Start rng);
          hi = mem_lb pts (End rng)
      in if hi < lo then Inl PanicMakeslice else Inr (go_slice lo hi pts))"

fun MinMax :: "snapshot option \<Rightarrow> int64 \<times> int64" where
  "MinMax None = (0, 0)"
| "MinMax (Some s) = (minTS s, maxTS s)"

fun RawCopy :: "snapshot option \<Rightarrow> series_points" where
  "RawCopy None = fmempty"
| "RawCopy (Some s) = byID s"

section \<open>The live table\<close>

definition empty_snapshot :: snapshot where
  "empty_snapshot = \<lparr>refs = 1, byID = fmempty, minTS = 0, maxTS = 0\<rparr>"

definition NewMem :: memtable where
  "NewMem = \<lparr>current = empty_snapshot, points = 0\<rparr>"

definition write_points :: "point \<Rightarrow> point list \<Rightarrow> point list" where
  "write_points p pts =
     (let idx = mem_lb pts (TS p)
      in if idx < length pts \<and> TS (pts ! idx) = TS p
         then pts[idx := (pts ! idx)\<lparr>Value := Value p\<rparr>]
         else take idx pts @ p # drop idx pts)"

definition Write :: "point \<Rightarrow> memtable \<Rightarrow> memtable" where
  "Write p m =
     (let cur = current m;
          cur1 = cur\<lparr>byID := fmupd (SeriesID p) (write_points p (series_of (byID cur) (SeriesID p))) (byID cur)\<rparr>;
          cur2 = (if points m = 0 \<or> TS p <s minTS cur1 then cur1\<lparr>minTS := TS p\<rparr> else cur1);
          cur3 = (if points m = 0 \<or> maxTS cur2 <s TS p then cur2\<lparr>maxTS := TS p\<rparr> else cur2)
      in m\<lparr>current := cur3, points := points m + 1\<rparr>)"

definition Latest :: "memtable \<Rightarrow> snapshot option \<times> memtable" where
  "Latest m = (let s = Acquire (Some (current m)) in (s, m\<lparr>current := the s\<rparr>))"

definition Flush :: "memtable \<Rightarrow> snapshot \<times> memtable" where
  "Flush m = (current m, m\<lparr>current := empty_snapshot, points := 0\<rparr>)"

definition Len :: "memtable \<Rightarrow> nat" where
  "Len m = points m"

definition Read :: "uint64 \<Rightarrow> query_range \<Rightarrow> memtable \<Rightarrow> (err + point list) \<times> memtable" where
  "Read sid rng m =
     (case Latest m of (snap, m1) \<Rightarrow>
        (snapshot_Range snap sid rng, m1\<lparr>current := the (Release (Some (current m1)))\<rparr>))"

record mem_stats =
  st_points :: nat
  st_min :: int64
  st_max :: int64

definition MemStats :: "memtable \<Rightarrow> mem_stats" where
  "MemStats m = \<lparr>st_points = points m, st_min = minTS (current m), st_max = maxTS (current m)\<rparr>"

section \<open>The search\<close>

interpretation ms: time_search mem_lb
proof
  fix pts t
  assume "time_sorted pts"
  moreover have "(\<lambda>i. \<not> TS (pts ! i) <s t) = (\<lambda>i. t \<le>s TS (pts ! i))"
    by (simp add: go_int not_less)
  ultimately show "splits_at (length pts) (\<lambda>i. \<not> TS (pts ! i) <s t) (mem_lb pts t)"
    using sort_search_splits [OF upclosed_time, of pts t] by (simp add: mem_lb_def)
qed

lemma snapshot_Range_sorted:
  assumes "time_sorted (series_of (byID s) sid)" and "Start rng \<le>s End rng"
  shows "snapshot_Range (Some s) sid rng = Inr (filter (in_range rng) (series_of (byID s) sid))"
  using ms.lb_mono [OF assms] ms.slice_range [OF assms(1)]
  by (simp add: Let_def not_less)

lemma snapshot_Range_panic:
  assumes "time_sorted (series_of (byID s) sid)" and "p \<in> set (series_of (byID s) sid)"
    and "End rng \<le>s TS p" and "TS p <s Start rng"
  shows "snapshot_Range (Some s) sid rng = Inl PanicMakeslice"
  using ms.lb_strict_less [OF assms] by (simp add: Let_def)

section \<open>One slice as a map from time to value\<close>

definition value_at :: "point list \<Rightarrow> int64 \<Rightarrow> float64 option" where
  "value_at pts t = map_option Value (find (\<lambda>p. TS p = t) pts)"

lemma value_at_Nil [simp]: "value_at [] t = None"
  by (simp add: value_at_def)

lemma value_at_Cons [simp]:
  "value_at (p # pts) t = (if TS p = t then Some (Value p) else value_at pts t)"
  by (simp add: value_at_def)

lemma value_at_append:
  "value_at (xs @ ys) t = (case value_at xs t of Some v \<Rightarrow> Some v | None \<Rightarrow> value_at ys t)"
  by (induction xs) simp_all

lemma value_at_None: "value_at pts t = None \<longleftrightarrow> (\<forall>p \<in> set pts. TS p \<noteq> t)"
  by (induction pts) auto

lemma value_at_insert:
  "value_at a (TS p) = None \<Longrightarrow> value_at (a @ p # b) = (value_at (a @ b))(TS p \<mapsto> Value p)"
  by (auto simp: value_at_append fun_eq_iff split: option.splits)

lemma value_at_overwrite:
  "value_at a (TS q) = None \<Longrightarrow>
   value_at (a @ q\<lparr>Value := v\<rparr> # b) = (value_at (a @ q # b))(TS q \<mapsto> v)"
  by (auto simp: value_at_append fun_eq_iff split: option.splits)

lemma time_strict_insert:
  "time_strict (a @ b) \<Longrightarrow> \<forall>q \<in> set a. TS q <s TS p \<Longrightarrow> \<forall>q \<in> set b. TS p <s TS q \<Longrightarrow>
   time_strict (a @ p # b)"
  by (auto simp: time_strict_def sorted_wrt_append)

lemma mem_lb_parts:
  assumes "time_sorted pts"
  shows "\<forall>q \<in> set (take (mem_lb pts t) pts). TS q <s t"
    and "\<forall>q \<in> set (drop (mem_lb pts t) pts). t \<le>s TS q"
  using filter_take_split [OF ms.lb_splits [OF assms, of t]] by (auto simp: go_int not_less)

text \<open>The two cases of a write: overwrite in place, or insert between the two parts.\<close>

lemma write_points_cases:
  assumes "time_strict pts"
  obtains (overwrite) q r where
      "pts = take (mem_lb pts (TS p)) pts @ q # r" "TS q = TS p"
      "write_points p pts = take (mem_lb pts (TS p)) pts @ q\<lparr>Value := Value p\<rparr> # r"
  | (insert) "\<forall>q \<in> set pts. TS q \<noteq> TS p"
      "write_points p pts = take (mem_lb pts (TS p)) pts @ p # drop (mem_lb pts (TS p)) pts"
proof -
  note sorted = time_strict_sorted [OF assms]
  let ?i = "mem_lb pts (TS p)"
  show ?thesis
  proof (cases "?i < length pts \<and> TS (pts ! ?i) = TS p")
    case True
    then show ?thesis
      by (intro overwrite [of "pts ! ?i" "drop (Suc ?i) pts"])
         (simp_all add: write_points_def Let_def upd_conv_take_nth_drop id_take_nth_drop [symmetric])
  next
    case False
    have "TS q \<noteq> TS p" if "q \<in> set pts" for q
    proof
      assume eq: "TS q = TS p"
      from that obtain j where j: "j < length pts" "pts ! j = q" by (auto simp: in_set_conv_nth)
      have sp: "splits_at (length pts) (\<lambda>i. \<not> TS (pts ! i) <s TS p) ?i" by (rule ms.lb_splits [OF sorted])
      have "\<not> j < ?i"
      proof
        assume "j < ?i"
        with sp have "TS (pts ! j) <s TS p" by (simp add: splits_at_def)
        with j(2) eq show False by (simp add: go_int)
      qed
      then have "?i \<le> j" by simp
      moreover have "\<not> TS (pts ! ?i) <s TS p" using sp \<open>?i \<le> j\<close> j by (simp add: splits_at_def)
      ultimately have "TS (pts ! ?i) = TS p"
        using time_sorted_nth [OF sorted \<open>?i \<le> j\<close> j(1)] j(2) eq
        by (simp add: go_int flip: sint64_inject)
      with False \<open>?i \<le> j\<close> j(1) show False by simp
    qed
    with False show ?thesis by (intro insert) (auto simp: write_points_def Let_def)
  qed
qed

lemma write_points_strict:
  assumes "time_strict pts"
  shows "time_strict (write_points p pts)"
proof (rule write_points_cases [OF assms, of p])
  fix q r
  assume "pts = take (mem_lb pts (TS p)) pts @ q # r" "TS q = TS p"
    and wp: "write_points p pts = take (mem_lb pts (TS p)) pts @ q\<lparr>Value := Value p\<rparr> # r"
  with assms have "time_strict (take (mem_lb pts (TS p)) pts @ q # r)" by simp
  then show ?thesis by (simp add: wp time_strict_def sorted_wrt_append)
next
  let ?a = "take (mem_lb pts (TS p)) pts" and ?b = "drop (mem_lb pts (TS p)) pts"
  assume new: "\<forall>q \<in> set pts. TS q \<noteq> TS p" and wp: "write_points p pts = ?a @ p # ?b"
  note parts = mem_lb_parts [OF time_strict_sorted [OF assms], of "TS p"]
  have "\<forall>q \<in> set ?b. TS p <s TS q"
    using parts(2) new by (auto simp: go_int order_less_le sint64_inject dest: in_set_dropD)
  moreover have "time_strict (?a @ ?b)" using assms by simp
  ultimately show ?thesis
    using parts(1) unfolding wp by (intro time_strict_insert)
qed

lemma write_points_value:
  assumes "time_strict pts"
  shows "value_at (write_points p pts) = (value_at pts)(TS p \<mapsto> Value p)"
proof (rule write_points_cases [OF assms, of p])
  fix q r
  let ?a = "take (mem_lb pts (TS p)) pts"
  assume pts: "pts = ?a @ q # r" and q: "TS q = TS p"
    and wp: "write_points p pts = ?a @ q\<lparr>Value := Value p\<rparr> # r"
  have "\<forall>x \<in> set ?a. TS x \<noteq> TS p"
    using mem_lb_parts(1) [OF time_strict_sorted [OF assms], of "TS p"] by (auto simp: go_int)
  then have none: "value_at ?a (TS p) = None" by (simp add: value_at_None)
  have "value_at (?a @ q\<lparr>Value := Value p\<rparr> # r) = (value_at (?a @ q # r))(TS p \<mapsto> Value p)"
    using value_at_overwrite [of ?a q] none q by metis
  with wp pts show ?thesis by metis
next
  let ?a = "take (mem_lb pts (TS p)) pts" and ?b = "drop (mem_lb pts (TS p)) pts"
  assume new: "\<forall>q \<in> set pts. TS q \<noteq> TS p" and wp: "write_points p pts = ?a @ p # ?b"
  from new have none: "value_at ?a (TS p) = None"
    by (auto simp: value_at_None dest: in_set_takeD)
  have "value_at (?a @ p # ?b) = (value_at (?a @ ?b))(TS p \<mapsto> Value p)"
    by (rule value_at_insert [OF none])
  then show ?thesis by (simp add: wp)
qed

lemma write_points_set:
  assumes "time_strict pts"
  shows "TS ` set (write_points p pts) = insert (TS p) (TS ` set pts)"
    and "\<forall>q \<in> set pts. SeriesID q = s \<Longrightarrow> SeriesID p = s \<Longrightarrow> \<forall>q \<in> set (write_points p pts). SeriesID q = s"
proof -
  have "t \<in> TS ` set xs \<longleftrightarrow> value_at xs t \<noteq> None" for xs t
    by (auto simp: value_at_None)
  then show "TS ` set (write_points p pts) = insert (TS p) (TS ` set pts)"
    by (auto simp: write_points_value [OF assms] set_eq_iff simp del: not_None_eq split: if_splits)
  assume "\<forall>q \<in> set pts. SeriesID q = s" "SeriesID p = s"
  then show "\<forall>q \<in> set (write_points p pts). SeriesID q = s"
    by (auto simp: write_points_def Let_def dest!: set_update_subset_insert [THEN subsetD]
        dest: in_set_takeD in_set_dropD)
qed

section \<open>Invariant and refinement\<close>

definition span_ok :: "snapshot \<Rightarrow> bool" where
  "span_ok s \<longleftrightarrow> fmpred (\<lambda>_ pts. \<forall>p \<in> set pts. minTS s \<le>s TS p \<and> TS p \<le>s maxTS s) (byID s)"

definition series_ok :: "series_points \<Rightarrow> bool" where
  "series_ok m \<longleftrightarrow>
     fmpred (\<lambda>sid pts. time_strict pts \<and> pts \<noteq> [] \<and> (\<forall>p \<in> set pts. SeriesID p = sid)) m"

definition mem_inv :: "memtable \<Rightarrow> bool" where
  "mem_inv m \<longleftrightarrow> series_ok (byID (current m)) \<and> span_ok (current m)
     \<and> (points m = 0 \<longleftrightarrow> byID (current m) = fmempty)"

definition mem_value :: "memtable \<Rightarrow> uint64 \<Rightarrow> int64 \<Rightarrow> float64 option" where
  "mem_value m sid = value_at (series_of (byID (current m)) sid)"

lemma series_ok_strict: "series_ok m \<Longrightarrow> time_strict (series_of m sid)"
  by (auto simp: series_ok_def fmpred_iff series_of_def time_strict_def split: option.splits)

lemma series_ok_ids: "series_ok m \<Longrightarrow> \<forall>p \<in> set (series_of m sid). SeriesID p = sid"
  by (cases "fmlookup m sid") (auto simp: series_ok_def fmpred_iff series_of_def)

lemma mem_inv_sorted: "mem_inv m \<Longrightarrow> time_sorted (series_of (byID (current m)) sid)"
  by (simp add: mem_inv_def series_ok_strict time_strict_sorted)

lemma NewMem_inv: "mem_inv NewMem"
  by (simp add: mem_inv_def NewMem_def empty_snapshot_def series_ok_def span_ok_def)

lemma Flush_inv: "mem_inv (snd (Flush m))"
  by (simp add: mem_inv_def Flush_def empty_snapshot_def series_ok_def span_ok_def)

lemma Write_current:
  "byID (current (Write p m)) =
     fmupd (SeriesID p) (write_points p (series_of (byID (current m)) (SeriesID p))) (byID (current m))"
  "points (Write p m) = points m + 1"
  by (simp_all add: Write_def Let_def)

lemma Write_span:
  "minTS (current (Write p m)) = (if points m = 0 \<or> TS p <s minTS (current m) then TS p else minTS (current m))"
  "maxTS (current (Write p m)) = (if points m = 0 \<or> maxTS (current m) <s TS p then TS p else maxTS (current m))"
  by (simp_all add: Write_def Let_def)

lemma write_points_nonempty: "write_points p pts \<noteq> []"
  by (auto simp: write_points_def Let_def)

lemma Write_value:
  assumes "mem_inv m"
  shows "mem_value (Write p m) =
    (mem_value m)(SeriesID p := (mem_value m (SeriesID p))(TS p \<mapsto> Value p))"
  using write_points_value [OF series_ok_strict [of "byID (current m)" "SeriesID p"], of p] assms
  by (auto simp: mem_value_def Write_current mem_inv_def fun_eq_iff)

lemma Write_series_ok:
  assumes "series_ok (byID (current m))"
  shows "series_ok (byID (current (Write p m)))"
proof -
  note strict = series_ok_strict [OF assms, of "SeriesID p"]
  have "\<forall>q \<in> set (write_points p (series_of (byID (current m)) (SeriesID p))). SeriesID q = SeriesID p"
    by (rule write_points_set(2) [OF strict series_ok_ids [OF assms] refl])
  with assms write_points_strict [OF strict, of p] show ?thesis
    by (auto simp: Write_current series_ok_def fmpred_iff write_points_nonempty)
qed

lemma Write_span_ok:
  assumes "mem_inv m"
  shows "span_ok (current (Write p m))"
proof -
  let ?cur = "current m" and ?new = "current (Write p m)"
  have old: "minTS ?new \<le>s TS q \<and> TS q \<le>s maxTS ?new"
    if "fmlookup (byID ?cur) sid = Some pts" "q \<in> set pts" for sid pts q
  proof -
    from that(1) have "points m \<noteq> 0" using assms by (auto simp: mem_inv_def)
    moreover have "minTS ?cur \<le>s TS q \<and> TS q \<le>s maxTS ?cur"
      using assms that by (auto simp: mem_inv_def span_ok_def fmpred_iff)
    ultimately show ?thesis by (auto simp: Write_span go_int)
  qed
  have new: "minTS ?new \<le>s TS p \<and> TS p \<le>s maxTS ?new"
    by (auto simp: Write_span go_int)
  have mine: "minTS ?new \<le>s t \<and> t \<le>s maxTS ?new"
    if "t \<in> TS ` set (write_points p (series_of (byID ?cur) (SeriesID p)))" for t
  proof -
    have "series_ok (byID ?cur)" using assms by (simp add: mem_inv_def)
    then have "t = TS p \<or> t \<in> TS ` set (series_of (byID ?cur) (SeriesID p))"
      using that write_points_set(1) [OF series_ok_strict] by blast
    then show ?thesis
      using new old by (cases "fmlookup (byID ?cur) (SeriesID p)") (auto simp: series_of_def)
  qed
  show ?thesis
    using old mine by (auto simp: span_ok_def fmpred_iff Write_current)
qed

lemma Write_inv: "mem_inv m \<Longrightarrow> mem_inv (Write p m)"
  using Write_span_ok [of m p] Write_series_ok [of m p]
  by (auto simp: mem_inv_def Write_current dest: arg_cong [where f = fmdom])

section \<open>Reading\<close>

lemma Read_state: "snd (Read sid rng m) = m"
  by (simp add: Read_def Latest_def)

lemma Read_range:
  assumes "mem_inv m" and "Start rng \<le>s End rng"
  shows "fst (Read sid rng m) = Inr (filter (in_range rng) (series_of (byID (current m)) sid))"
  using snapshot_Range_sorted [of "(current m)\<lparr>refs := refs (current m) + 1\<rparr>" sid rng]
    mem_inv_sorted [OF assms(1), of sid] assms(2)
  by (simp add: Read_def Latest_def Let_def)

lemma value_at_Some:
  assumes "time_strict pts"
  shows "value_at pts t = Some v \<longleftrightarrow> (\<exists>p \<in> set pts. TS p = t \<and> Value p = v)"
  using assms unfolding time_strict_def
  by (induction pts) (auto simp: go_int)

lemma mem_value_Some:
  assumes "mem_inv m"
  shows "mem_value m sid t = Some v \<longleftrightarrow>
    (\<exists>p \<in> set (series_of (byID (current m)) sid). TS p = t \<and> Value p = v)"
  using assms by (simp add: mem_value_def value_at_Some mem_inv_def series_ok_strict)

section \<open>Reading while a write is under way\<close>

text \<open>
  \<open>Read\<close> gives the mutex back before \<open>Range\<close> runs, and \<open>Write\<close> shifts the points of the same
  array when it has room. Here \<open>Range\<close> has searched its bounds when a write of \<open>p\<close> runs to its
  end, and copies afterwards: it sees the array's new contents under its old length. The code
  has a data race there, and this is the mildest of its outcomes.
\<close>

definition racing_Range :: "point \<Rightarrow> query_range \<Rightarrow> point list \<Rightarrow> err + point list" where
  "racing_Range p rng pts =
     (let lo = mem_lb pts (Start rng);
          hi = mem_lb pts (End rng)
      in if hi < lo then Inl PanicMakeslice else Inr (go_slice lo hi (take (length pts) (write_points p pts))))"

lemma mem_lb_last:
  assumes "time_sorted (a @ q # b)" and "TS q <s t" and "\<forall>x \<in> set b. t \<le>s TS x"
  shows "mem_lb (a @ q # b) t = Suc (length a)"
proof -
  let ?k = "mem_lb (a @ q # b) t"
  note parts = mem_lb_parts [OF assms(1), of t]
  have "\<not> ?k \<le> length a" using parts(2) assms(2) by (auto simp: go_int)
  moreover have "\<not> Suc (length a) < ?k"
  proof
    assume "Suc (length a) < ?k"
    moreover have "?k \<le> length (a @ q # b)" using ms.lb_splits [OF assms(1), of t] by (simp add: splits_at_def)
    ultimately have "Suc (length a) < length (take ?k (a @ q # b))" "b \<noteq> []" by auto
    then have "hd b \<in> set b" "hd b \<in> set (take ?k (a @ q # b))"
      using nth_mem [of "Suc (length a)" "take ?k (a @ q # b)"] by (simp_all add: nth_append hd_conv_nth del: take_append)
    with parts(1) assms(3) show False by (fastforce simp del: take_append)
  qed
  ultimately show ?thesis by simp
qed

text \<open>A write of an earlier, new timestamp pushes the last point of the range out of the reader's sight.\<close>

theorem racing_read_misses:
  assumes pts: "pts = a @ q # b" "time_strict pts" and rng: "Start rng \<le>s End rng" "in_range rng q" "\<forall>x \<in> set b. End rng \<le>s TS x"
    and p: "TS p <s TS q" "\<forall>x \<in> set pts. TS x \<noteq> TS p"
  shows "\<exists>out. racing_Range p rng pts = Inr out \<and> q \<notin> set out \<and> q \<in> set (write_points p pts)"
proof -
  note sorted = time_strict_sorted [OF pts(2)]
  let ?i = "mem_lb pts (TS p)" and ?lo = "mem_lb pts (Start rng)"
  have hi: "mem_lb pts (End rng) = Suc (length a)"
    using mem_lb_last [of a q b "End rng"] sorted rng pts(1) by (simp add: in_range_def)
  have i: "?i \<le> length a"
  proof (rule ccontr)
    assume "\<not> ?i \<le> length a"
    then have "q \<in> set (take ?i pts)" by (simp add: pts(1) take_Cons' del: take_append) (simp add: take_Cons')
    with mem_lb_parts(1) [OF sorted, of "TS p"] p(1) show False by (auto simp: go_int)
  qed
  let ?c = "take ?i a @ p # drop ?i a"
  have w: "write_points p pts = ?c @ q # b"
  proof (rule write_points_cases [OF pts(2), of p])
    fix x r
    assume "pts = take ?i pts @ x # r" "TS x = TS p"
    with p(2) show ?thesis by (metis in_set_conv_decomp)
  next
    assume "write_points p pts = take ?i pts @ p # drop ?i pts"
    with i show ?thesis by (simp add: pts(1))
  qed
  have len: "length ?c = Suc (length a)" using i by simp
  have "time_strict (?c @ q # b)" using write_points_strict [OF pts(2), of p] w by simp
  then have unseen: "q \<notin> set ?c" by (auto simp: time_strict_def sorted_wrt_append go_int)
  have "take (length ?c) (?c @ q # b) = ?c" by (rule append_eq_conv_conj [THEN iffD1, THEN conjunct1, symmetric]) simp
  then have "take (Suc (length a)) (take (length pts) (write_points p pts)) = ?c"
    unfolding len w by (simp add: pts(1) min_def del: take_append)
  then have "go_slice ?lo (Suc (length a)) (take (length pts) (write_points p pts)) = drop ?lo ?c"
    by (simp only: go_slice_def drop_take [symmetric])
  moreover have "\<not> Suc (length a) < ?lo" using ms.lb_mono [OF sorted rng(1)] hi by simp
  ultimately have "racing_Range p rng pts = Inr (drop ?lo ?c)" by (simp only: racing_Range_def Let_def hi if_False)
  moreover have "q \<notin> set (drop ?lo ?c)" using unseen by (meson in_set_dropD)
  ultimately show ?thesis by (simp add: w)
qed

theorem racing_read_misses_witness:
  "\<exists>out. racing_Range \<lparr>TS = 15, Value = 3, SeriesID = 7\<rparr> \<lparr>Start = 0, End = 60\<rparr>
        [\<lparr>TS = 10, Value = 1, SeriesID = 7\<rparr>, \<lparr>TS = 20, Value = 2, SeriesID = 7\<rparr>] = Inr out
    \<and> \<lparr>TS = 20, Value = 2, SeriesID = 7\<rparr> \<notin> set out"
  using racing_read_misses [of "[\<lparr>TS = 10, Value = 1, SeriesID = 7\<rparr>, \<lparr>TS = 20, Value = 2, SeriesID = 7\<rparr>]"
      "[\<lparr>TS = 10, Value = 1, SeriesID = 7\<rparr>]" "\<lparr>TS = 20, Value = 2, SeriesID = 7\<rparr>" "[]"
      "\<lparr>Start = 0, End = 60\<rparr>" "\<lparr>TS = 15, Value = 3, SeriesID = 7\<rparr>"]
  by (auto simp: time_strict_def in_range_def go_int)

section \<open>Properties\<close>

definition last_write :: "point list \<Rightarrow> uint64 \<Rightarrow> int64 \<Rightarrow> float64 option" where
  "last_write ps sid t = map_option Value (find (\<lambda>p. SeriesID p = sid \<and> TS p = t) (rev ps))"

lemma writes_value:
  "mem_inv (fold Write ps NewMem) \<and> mem_value (fold Write ps NewMem) sid t = last_write ps sid t"
proof (induction ps rule: rev_induct)
  case Nil
  have "series_of (byID (current NewMem)) sid = []" by (simp add: NewMem_def empty_snapshot_def)
  then show ?case by (simp add: NewMem_inv mem_value_def value_at_def last_write_def)
next
  case (snoc p ps)
  then show ?case using Write_inv [of "fold Write ps NewMem" p] Write_value [of "fold Write ps NewMem" p]
    by (auto simp: last_write_def)
qed

text \<open>
  C37. The memtable is a map that the last write wins: after any sequence of writes, in any
  order of time, a read returns the series' points of the range once per timestamp, in strictly
  rising time, each with the value written last, and leaves the memtable as it was.
\<close>

theorem writes_then_read:
  assumes "Start rng \<le>s End rng"
  shows "\<exists>out. Read sid rng (fold Write ps NewMem) = (Inr out, fold Write ps NewMem) \<and> time_strict out
    \<and> (\<forall>p. p \<in> set out \<longleftrightarrow> in_range rng p \<and> SeriesID p = sid \<and> last_write ps sid (TS p) = Some (Value p))"
proof -
  let ?m = "fold Write ps NewMem"
  let ?pts = "series_of (byID (current ?m)) sid"
  have inv: "mem_inv ?m" and val: "mem_value ?m sid t = last_write ps sid t" for t using writes_value by auto
  then have strict: "time_strict ?pts" by (intro series_ok_strict) (simp add: mem_inv_def)
  have "p \<in> set ?pts \<longleftrightarrow> SeriesID p = sid \<and> last_write ps sid (TS p) = Some (Value p)" for p
  proof
    assume p: "p \<in> set ?pts"
    then have "SeriesID p = sid" using inv series_ok_ids by (auto simp: mem_inv_def)
    with p mem_value_Some [OF inv, of sid "TS p" "Value p"] val
    show "SeriesID p = sid \<and> last_write ps sid (TS p) = Some (Value p)" by auto
  next
    assume r: "SeriesID p = sid \<and> last_write ps sid (TS p) = Some (Value p)"
    then obtain q where q: "q \<in> set ?pts" "TS q = TS p" "Value q = Value p"
      using mem_value_Some [OF inv, of sid "TS p" "Value p"] val by auto
    moreover have "SeriesID q = sid" using q(1) inv series_ok_ids by (auto simp: mem_inv_def)
    ultimately have "q = p" using r by simp
    with q(1) show "p \<in> set ?pts" by simp
  qed
  moreover have "fst (Read sid rng ?m) = Inr (filter (in_range rng) ?pts)" by (rule Read_range [OF inv assms])
  moreover have "time_strict (filter (in_range rng) ?pts)" using strict by (simp add: time_strict_def sorted_wrt_filter)
  ultimately show ?thesis using Read_state [of sid rng ?m] by (intro exI [of _ "filter (in_range rng) ?pts"]) (auto simp: prod_eq_iff)
qed

theorem writes_then_read_witness:
  "\<exists>out. Read 7 \<lparr>Start = 0, End = 60\<rparr> (fold Write
      [\<lparr>TS = 20, Value = 1, SeriesID = 7\<rparr>, \<lparr>TS = 5, Value = 2, SeriesID = 7\<rparr>, \<lparr>TS = 20, Value = 3, SeriesID = 7\<rparr>] NewMem)
      = (Inr out, fold Write
      [\<lparr>TS = 20, Value = 1, SeriesID = 7\<rparr>, \<lparr>TS = 5, Value = 2, SeriesID = 7\<rparr>, \<lparr>TS = 20, Value = 3, SeriesID = 7\<rparr>] NewMem)
    \<and> \<lparr>TS = 20, Value = 3, SeriesID = 7\<rparr> \<in> set out \<and> \<lparr>TS = 20, Value = 1, SeriesID = 7\<rparr> \<notin> set out"
  using writes_then_read [of "\<lparr>Start = 0, End = 60\<rparr>" 7
      "[\<lparr>TS = 20, Value = 1, SeriesID = 7\<rparr>, \<lparr>TS = 5, Value = 2, SeriesID = 7\<rparr>, \<lparr>TS = 20, Value = 3, SeriesID = 7\<rparr>]"]
  by (auto simp: last_write_def in_range_def go_int)

end
