(* ===== verification/Blocks.thy ===== *)
theory Blocks
  imports Model
begin

text \<open>
  A storage block, \<open>internal/storage/block.go\<close>: the points of one flush for one shard, a state,
  a count of readers and the archived flag that forbids new readers. \<open>Block_Range\<close> cuts a
  series' slice with the block's own binary search \<open>lowerBound\<close>, which meets the same
  interface as the memtable's.
\<close>

record block =
  bID :: block_id
  bState :: block_state
  bRefs :: nat
  bByID :: series_points
  bMin :: int64
  bMax :: int64
  bArchived :: bool

definition newBlock :: "block_id \<Rightarrow> series_points \<Rightarrow> int64 \<Rightarrow> int64 \<Rightarrow> block" where
  "newBlock bid m mn mx =
     \<lparr>bID = bid, bState = BlockMutable, bRefs = 0, bByID = m, bMin = mn, bMax = mx, bArchived = False\<rparr>"

definition Block_Acquire :: "block \<Rightarrow> err + block" where
  "Block_Acquire b =
     (if bArchived b then Inl (ErrBlockArchived (bID b)) else Inr (b\<lparr>bRefs := bRefs b + 1\<rparr>))"

definition Block_Release :: "block \<Rightarrow> block" where
  "Block_Release b = (if 0 < bRefs b then b\<lparr>bRefs := bRefs b - 1\<rparr> else b)"

definition Block_Seal :: "block \<Rightarrow> block" where
  "Block_Seal b = (if bState b = BlockMutable then b\<lparr>bState := BlockImmutable\<rparr> else b)"

definition MarkCompacting :: "block \<Rightarrow> block" where
  "MarkCompacting b = (if bState b = BlockImmutable then b\<lparr>bState := BlockCompacting\<rparr> else b)"

definition Block_MarkArchived :: "block \<Rightarrow> block" where
  "Block_MarkArchived b = b\<lparr>bArchived := True\<rparr>"

definition Reclaimable :: "block \<Rightarrow> bool" where
  "Reclaimable b \<longleftrightarrow> bArchived b \<and> bRefs b = 0"

definition Block_MinMax :: "block \<Rightarrow> int64 \<times> int64" where
  "Block_MinMax b = (bMin b, bMax b)"

definition Raw :: "block \<Rightarrow> series_points" where
  "Raw b = bByID b"

section \<open>lowerBound\<close>

function lower_bound_loop :: "point list \<Rightarrow> int64 \<Rightarrow> nat \<Rightarrow> nat \<Rightarrow> nat" where
  "lower_bound_loop pts ts lo hi =
     (if lo < hi
      then (let mid = (lo + hi) div 2
            in if TS (pts ! mid) <s ts then lower_bound_loop pts ts (mid + 1) hi
               else lower_bound_loop pts ts lo mid)
      else lo)"
  by pat_completeness auto
termination
  by (relation "measure (\<lambda>(pts, ts, lo, hi). hi - lo)") auto

declare lower_bound_loop.simps [simp del]

definition lowerBound :: "point list \<Rightarrow> int64 \<Rightarrow> nat" where
  "lowerBound pts ts = lower_bound_loop pts ts 0 (length pts)"

definition Block_Range :: "uint64 \<Rightarrow> query_range \<Rightarrow> block \<Rightarrow> err + point list" where
  "Block_Range sid rng b =
     (let pts = series_of (bByID b) sid;
          lo = lowerBound pts (Start rng);
          hi = lowerBound pts (End rng)
      in if hi < lo then Inl PanicMakeslice else Inr (go_slice lo hi pts))"

text \<open>The block's loop makes the same probes as \<open>sort.Search\<close> with the complementary test.\<close>

lemma lower_bound_loop_search:
  "lower_bound_loop pts ts lo hi = search_loop (\<lambda>i. \<not> TS (pts ! i) <s ts) lo hi"
proof (induction pts ts lo hi rule: lower_bound_loop.induct)
  case (1 pts ts lo hi)
  show ?case
  proof (cases "lo < hi")
    case True
    with 1 show ?thesis
      by (subst lower_bound_loop.simps) (simp add: Let_def search_loop_step [OF True])
  next
    case False
    then show ?thesis by (subst lower_bound_loop.simps) (simp add: search_loop_stop)
  qed
qed

lemma lowerBound_sort_search:
  "lowerBound pts ts = sort_search (length pts) (\<lambda>i. \<not> TS (pts ! i) <s ts)"
  by (simp add: lowerBound_def sort_search_def lower_bound_loop_search)

interpretation bs: time_search lowerBound
  by unfold_locales (simp add: lowerBound_sort_search sort_search_splits upclosed_time)

lemma Block_Range_sorted:
  assumes "time_sorted (series_of (bByID b) sid)" and "Start rng \<le>s End rng"
  shows "Block_Range sid rng b = Inr (filter (in_range rng) (series_of (bByID b) sid))"
  using bs.lb_mono [OF assms] bs.slice_range [OF assms(1)]
  by (simp add: Block_Range_def Let_def not_less)

lemma Block_Range_panic:
  assumes "time_sorted (series_of (bByID b) sid)" and "p \<in> set (series_of (bByID b) sid)"
    and "End rng \<le>s TS p" and "TS p <s Start rng"
  shows "Block_Range sid rng b = Inl PanicMakeslice"
  using bs.lb_strict_less [OF assms] by (simp add: Block_Range_def Let_def)

section \<open>What each operation leaves alone\<close>

lemmas block_op_defs = Block_Release_def Block_Seal_def MarkCompacting_def Block_MarkArchived_def

lemma block_data [simp]:
  "bByID (Block_Release b) = bByID b" "bByID (Block_Seal b) = bByID b"
  "bByID (MarkCompacting b) = bByID b" "bByID (Block_MarkArchived b) = bByID b"
  "bID (Block_Release b) = bID b" "bID (Block_Seal b) = bID b"
  "bID (MarkCompacting b) = bID b" "bID (Block_MarkArchived b) = bID b"
  "bMax (Block_Release b) = bMax b" "bMax (Block_Seal b) = bMax b"
  "bMax (MarkCompacting b) = bMax b" "bMax (Block_MarkArchived b) = bMax b"
  "bMin (Block_Release b) = bMin b" "bMin (Block_Seal b) = bMin b"
  "bMin (MarkCompacting b) = bMin b" "bMin (Block_MarkArchived b) = bMin b"
  by (simp_all add: block_op_defs)

lemma block_refs [simp]:
  "bRefs (Block_Seal b) = bRefs b" "bRefs (MarkCompacting b) = bRefs b"
  "bRefs (Block_MarkArchived b) = bRefs b" "bRefs (Block_Release b) = bRefs b - 1"
  by (simp_all add: block_op_defs)

lemma block_archived [simp]:
  "bArchived (Block_Seal b) = bArchived b" "bArchived (MarkCompacting b) = bArchived b"
  "bArchived (Block_MarkArchived b) = True" "bArchived (Block_Release b) = bArchived b"
  by (simp_all add: block_op_defs)

lemma Acquire_Release: "Block_Acquire b = Inr b' \<Longrightarrow> Block_Release b' = b"
  by (auto simp: Block_Acquire_def Block_Release_def split: if_splits)

section \<open>How long the search runs\<close>

text \<open>The loop with a bound on its passes; None is a loop still running.\<close>

fun lower_bound_within :: "nat \<Rightarrow> point list \<Rightarrow> int64 \<Rightarrow> nat \<Rightarrow> nat \<Rightarrow> nat option" where
  "lower_bound_within k pts ts lo hi =
     (if lo < hi
      then (case k of
              0 \<Rightarrow> None
            | Suc k' \<Rightarrow>
                (let mid = (lo + hi) div 2
                 in if TS (pts ! mid) <s ts then lower_bound_within k' pts ts (mid + 1) hi
                    else lower_bound_within k' pts ts lo mid))
      else Some lo)"

declare lower_bound_within.simps [simp del]

lemma lower_bound_within_enough:
  "hi - lo < 2 ^ k \<Longrightarrow> lower_bound_within k pts ts lo hi = Some (lower_bound_loop pts ts lo hi)"
proof (induction k arbitrary: lo hi)
  case 0
  then show ?case by (simp add: lower_bound_within.simps [of 0] lower_bound_loop.simps [of pts ts lo hi])
next
  case (Suc k)
  show ?case
  proof (cases "lo < hi")
    case True
    let ?mid = "(lo + hi) div 2"
    have "hi - (?mid + 1) < 2 ^ k" "?mid - lo < 2 ^ k" using Suc.prems True by auto
    with Suc.IH True show ?thesis
      by (simp add: lower_bound_within.simps [of "Suc k"] lower_bound_loop.simps [of pts ts lo hi] Let_def)
  next
    case False
    then show ?thesis by (simp add: lower_bound_within.simps [of "Suc k"] lower_bound_loop.simps [of pts ts lo hi])
  qed
qed

section \<open>Properties\<close>

text \<open>
  C40. The block's binary search ends, within \<open>k\<close> passes for fewer than \<open>2 ^ k\<close> points, and on a
  time-ordered series its result splits the points into those before the timestamp and the rest.
\<close>

theorem lowerBound_returns:
  assumes "length pts < 2 ^ k" and "time_sorted pts"
  shows "lower_bound_within k pts ts 0 (length pts) = Some (lowerBound pts ts)
    \<and> lowerBound pts ts \<le> length pts
    \<and> (\<forall>p \<in> set (take (lowerBound pts ts) pts). TS p <s ts)
    \<and> (\<forall>p \<in> set (drop (lowerBound pts ts) pts). ts \<le>s TS p)"
proof -
  note sp = bs.lb_splits [OF assms(2), of ts]
  then have le: "lowerBound pts ts \<le> length pts" by (simp add: splits_at_def)
  have "TS p <s ts" if "p \<in> set (take (lowerBound pts ts) pts)" for p
    using that sp le by (auto simp: splits_at_def in_set_conv_nth)
  moreover have "ts \<le>s TS p" if p: "p \<in> set (drop (lowerBound pts ts) pts)" for p
  proof -
    from p obtain i where "i < length pts - lowerBound pts ts" "p = pts ! (lowerBound pts ts + i)"
      using le by (auto simp: in_set_conv_nth)
    with sp have "\<not> TS p <s ts" by (auto simp: splits_at_def)
    then show ?thesis by (simp add: go_int)
  qed
  ultimately show ?thesis
    using le lower_bound_within_enough [of "length pts" 0 k pts ts] assms(1) by (simp add: lowerBound_def)
qed

theorem lowerBound_returns_witness:
  "lower_bound_within 2 [\<lparr>TS = 5, Value = 1, SeriesID = 7\<rparr>, \<lparr>TS = 20, Value = 2, SeriesID = 7\<rparr>] 9 0 2
    = Some (lowerBound [\<lparr>TS = 5, Value = 1, SeriesID = 7\<rparr>, \<lparr>TS = 20, Value = 2, SeriesID = 7\<rparr>] 9)"
  using lowerBound_returns [of "[\<lparr>TS = 5, Value = 1, SeriesID = 7\<rparr>, \<lparr>TS = 20, Value = 2, SeriesID = 7\<rparr>]" 2 9]
  by (simp add: time_sorted_def go_int numeral_2_eq_2)

end
