(* ===== verification/BlockStore.thy ===== *)
theory BlockStore
  imports Blocks "HOL-Library.Multiset"
begin

text \<open>
  The block store, \<open>internal/storage/store.go\<close>: the blocks by id, the id counter and the
  number of blocks removed. The code hands out pointers to blocks; a block is stored under its
  own id and ids are not reused, so a pointer is the id, and an operation through a pointer
  whose block the store no longer holds changes nothing the store can see.

  The last section is the reader protocol as a state machine: any number of readers opening
  and closing blocks, interleaved with creation, archiving and reclaim. Its invariant is that
  a block's reference count is the number of handles out on it, so no handle outlives its
  block.
\<close>

record store =
  blocks :: "(block_id, block) fmap"
  sNextID :: block_id
  removed :: nat

section \<open>Operations\<close>

definition NewStore :: store where
  "NewStore = \<lparr>blocks = fmempty, sNextID = 0, removed = 0\<rparr>"

definition on_block :: "block_id \<Rightarrow> (block \<Rightarrow> block) \<Rightarrow> store \<Rightarrow> store" where
  "on_block bid f s =
     (case fmlookup (blocks s) bid of
        None \<Rightarrow> s
      | Some b \<Rightarrow> s\<lparr>blocks := fmupd bid (f b) (blocks s)\<rparr>)"

definition Create :: "series_points \<Rightarrow> int64 \<Rightarrow> int64 \<Rightarrow> store \<Rightarrow> block_id \<times> store" where
  "Create m mn mx s =
     (let bid = sNextID s + 1;
          b = (newBlock bid m mn mx)\<lparr>bState := BlockImmutable\<rparr>
      in (bid, s\<lparr>sNextID := bid, blocks := fmupd bid b (blocks s)\<rparr>))"

definition Open :: "block_id \<Rightarrow> store \<Rightarrow> (err + block_id option) \<times> store" where
  "Open bid s =
     (case fmlookup (blocks s) bid of
        None \<Rightarrow> (Inr None, s)
      | Some b \<Rightarrow>
          (case Block_Acquire b of
             Inl e \<Rightarrow> (Inl e, s)
           | Inr b' \<Rightarrow> (Inr (Some bid), s\<lparr>blocks := fmupd bid b' (blocks s)\<rparr>)))"

definition Close :: "block_id \<Rightarrow> store \<Rightarrow> store" where
  "Close bid s = on_block bid Block_Release s"

definition MarkArchived :: "block_id \<Rightarrow> store \<Rightarrow> store" where
  "MarkArchived bid s =
     (case fmlookup (blocks s) bid of
        None \<Rightarrow> s
      | Some b \<Rightarrow> s\<lparr>blocks := fmupd bid (Block_MarkArchived b) (blocks s)\<rparr>)"

definition reclaim_one :: "block_id \<Rightarrow> nat \<times> store \<Rightarrow> nat \<times> store" where
  "reclaim_one bid = (\<lambda>(n, s).
     case fmlookup (blocks s) bid of
       None \<Rightarrow> (n, s)
     | Some b \<Rightarrow>
         if Reclaimable b
         then (n + 1, s\<lparr>blocks := fmdrop bid (blocks s), removed := removed s + 1\<rparr>)
         else (n, s))"

definition Reclaim :: "block_id list \<Rightarrow> store \<Rightarrow> nat \<times> store" where
  "Reclaim ks s = fold reclaim_one ks (0, s)"

definition store_Count :: "store \<Rightarrow> nat" where
  "store_Count s = fmsize (blocks s)"

definition store_List :: "block_id list \<Rightarrow> store \<Rightarrow> block_id list" where
  "store_List ks s = ks"

record store_stats =
  ss_blocks :: nat
  ss_removed :: nat

definition StoreStats :: "store \<Rightarrow> store_stats" where
  "StoreStats s = \<lparr>ss_blocks = fmsize (blocks s), ss_removed = removed s\<rparr>"

section \<open>Effects\<close>

lemma on_block_lookup:
  "fmlookup (blocks (on_block bid f s)) k =
     (if k = bid then map_option f (fmlookup (blocks s) k) else fmlookup (blocks s) k)"
  by (auto simp: on_block_def split: option.splits)

lemma on_block_frame [simp]:
  "sNextID (on_block bid f s) = sNextID s" "removed (on_block bid f s) = removed s"
  by (simp_all add: on_block_def split: option.splits)

lemma MarkArchived_on_block: "MarkArchived bid s = on_block bid Block_MarkArchived s"
  by (simp add: MarkArchived_def on_block_def)

lemma on_block_twice:
  "on_block bid f (on_block bid g s) = on_block bid (\<lambda>b. f (g b)) s"
  by (auto simp: on_block_def split: option.splits)

lemma on_block_id: "(\<And>b. fmlookup (blocks s) bid = Some b \<Longrightarrow> f b = b) \<Longrightarrow> on_block bid f s = s"
  by (auto simp: on_block_def split: option.splits intro!: store.equality fmap_ext)

lemma Open_cases:
  obtains (absent) "fmlookup (blocks s) bid = None" "Open bid s = (Inr None, s)"
  | (archived) b where "fmlookup (blocks s) bid = Some b" "bArchived b"
      "Open bid s = (Inl (ErrBlockArchived (bID b)), s)"
  | (opened) b where "fmlookup (blocks s) bid = Some b" "\<not> bArchived b"
      "Open bid s = (Inr (Some bid), on_block bid (\<lambda>b. b\<lparr>bRefs := bRefs b + 1\<rparr>) s)"
  by (cases "fmlookup (blocks s) bid"; cases "bArchived (the (fmlookup (blocks s) bid))")
     (auto simp: Open_def Block_Acquire_def on_block_def)

text \<open>Opening and closing with nothing in between restores the store.\<close>

lemma Open_Close:
  assumes "Open bid s = (Inr (Some h), s')"
  shows "h = bid \<and> Close bid s' = s"
  using assms
  by (cases rule: Open_cases [of s bid])
     (auto simp: Close_def on_block_twice Block_Release_def intro!: on_block_id)

definition garbage :: "store \<Rightarrow> block_id \<Rightarrow> bool" where
  "garbage s bid \<longleftrightarrow> (\<exists>b. fmlookup (blocks s) bid = Some b \<and> Reclaimable b)"

lemma reclaim_one_garbage:
  "garbage s bid \<Longrightarrow>
   reclaim_one bid (n, s) = (n + 1, s\<lparr>blocks := fmdrop bid (blocks s), removed := removed s + 1\<rparr>)"
  "\<not> garbage s bid \<Longrightarrow> reclaim_one bid (n, s) = (n, s)"
  by (auto simp: reclaim_one_def garbage_def split: option.splits)

lemma fold_reclaim:
  assumes "distinct ks"
  shows "fold reclaim_one ks (n, s) =
    (n + length (filter (garbage s) ks),
     s\<lparr>blocks := fmfilter (\<lambda>k. \<not> (k \<in> set ks \<and> garbage s k)) (blocks s),
       removed := removed s + length (filter (garbage s) ks)\<rparr>)"
  using assms
proof (induction ks arbitrary: n s)
  case Nil
  show ?case by (auto intro!: store.equality fmap_ext)
next
  case (Cons k ks)
  show ?case
  proof (cases "garbage s k")
    case False
    with Cons.IH [of n s] Cons.prems show ?thesis
      by (auto simp: reclaim_one_garbage intro!: store.equality fmap_ext)
  next
    case True
    let ?s = "s\<lparr>blocks := fmdrop k (blocks s), removed := removed s + 1\<rparr>"
    have "garbage ?s j = garbage s j" if "j \<in> set ks" for j
      using that Cons.prems by (auto simp: garbage_def)
    then have f: "filter (garbage ?s) ks = filter (garbage s) ks"
      by (intro filter_cong) simp_all
    have m: "fmfilter (\<lambda>x. \<not> (x \<in> set ks \<and> garbage ?s x)) (blocks ?s)
        = fmfilter (\<lambda>x. \<not> (x \<in> set (k # ks) \<and> garbage s x)) (blocks s)"
      using True Cons.prems by (auto simp: garbage_def intro!: fmap_ext)
    have "fold reclaim_one (k # ks) (n, s) = fold reclaim_one ks (n + 1, ?s)"
      using True by (simp add: reclaim_one_garbage)
    also have "\<dots> = (n + 1 + length (filter (garbage ?s) ks),
        ?s\<lparr>blocks := fmfilter (\<lambda>x. \<not> (x \<in> set ks \<and> garbage ?s x)) (blocks ?s),
           removed := removed ?s + length (filter (garbage ?s) ks)\<rparr>)"
      using Cons.prems by (intro Cons.IH) simp
    finally show ?thesis using True unfolding f m by simp
  qed
qed

lemma Reclaim_spec:
  assumes "visits ks (blocks s)"
  shows "Reclaim ks s =
    (length (filter (garbage s) ks),
     s\<lparr>blocks := fmfilter (\<lambda>k. \<not> garbage s k) (blocks s),
       removed := removed s + length (filter (garbage s) ks)\<rparr>)"
  unfolding Reclaim_def fold_reclaim [OF visits_distinct [OF assms]]
  using visits_mem [OF assms] by (auto simp: garbage_def intro!: store.equality fmap_ext)

section \<open>Invariant\<close>

definition store_inv :: "store \<Rightarrow> bool" where
  "store_inv s \<longleftrightarrow>
     fmpred (\<lambda>bid b. bID b = bid \<and> bid \<noteq> 0 \<and> bid \<le> sNextID s) (blocks s)"

lemma store_inv_at:
  assumes "store_inv s" and "fmlookup (blocks s) bid = Some b"
  shows "bID b = bid" and "bid \<noteq> 0" and "bid \<le> sNextID s"
  using assms by (auto simp: store_inv_def fmpred_iff)

lemma NewStore_inv: "store_inv NewStore"
  by (simp add: store_inv_def NewStore_def)

lemma on_block_inv:
  "store_inv s \<Longrightarrow> (\<And>b. bID (f b) = bID b) \<Longrightarrow> store_inv (on_block bid f s)"
  by (auto simp: store_inv_def fmpred_iff on_block_lookup split: if_splits)

lemma Create_fresh:
  assumes "store_inv s" and "sNextID s + 1 \<noteq> 0"
  shows "fmlookup (blocks s) (sNextID s + 1) = None"
proof (cases "fmlookup (blocks s) (sNextID s + 1)")
  case (Some b)
  from store_inv_at(3) [OF assms(1) Some] less_self_succ [OF assms(2)] show ?thesis by simp
qed simp

lemma Create_spec:
  "Create m mn mx s =
     (sNextID s + 1,
      s\<lparr>sNextID := sNextID s + 1,
        blocks := fmupd (sNextID s + 1)
          \<lparr>bID = sNextID s + 1, bState = BlockImmutable, bRefs = 0, bByID = m, bMin = mn, bMax = mx,
           bArchived = False\<rparr> (blocks s)\<rparr>)"
  by (simp add: Create_def newBlock_def Let_def)

lemma Create_inv:
  assumes "store_inv s" and "sNextID s + 1 \<noteq> 0"
  shows "store_inv (snd (Create m mn mx s))"
  using assms less_succ_iff [OF assms(2)]
  by (auto simp: store_inv_def fmpred_iff Create_spec order_less_imp_le)

lemma Reclaim_inv: "store_inv s \<Longrightarrow> visits ks (blocks s) \<Longrightarrow> store_inv (snd (Reclaim ks s))"
  by (auto simp: Reclaim_spec store_inv_def fmpred_iff)

lemma Open_inv: "store_inv s \<Longrightarrow> store_inv (snd (Open bid s))"
  by (cases rule: Open_cases [of s bid]) (auto intro: on_block_inv)

lemma Close_inv: "store_inv s \<Longrightarrow> store_inv (Close bid s)"
  by (simp add: Close_def on_block_inv)

lemma MarkArchived_inv: "store_inv s \<Longrightarrow> store_inv (MarkArchived bid s)"
  by (simp add: MarkArchived_on_block on_block_inv)

section \<open>The reader protocol\<close>

text \<open>
  \<open>handles\<close> is the multiset of blocks readers currently hold. A reader may open any id, close
  a handle it holds, and the owner of a handle may seal it or mark it compacting or archived;
  the store may create, archive and reclaim at any time.
\<close>

type_synonym reader_state = "store \<times> block_id multiset"

inductive reader_step :: "reader_state \<Rightarrow> reader_state \<Rightarrow> bool" where
  create: "sNextID s + 1 \<noteq> 0 \<Longrightarrow> reader_step (s, hs) (snd (Create m mn mx s), hs)"
| open_block: "Open bid s = (Inr (Some h), s') \<Longrightarrow> reader_step (s, hs) (s', add_mset h hs)"
| open_fails: "Open bid s = (r, s') \<Longrightarrow> (\<forall>h. r \<noteq> Inr (Some h)) \<Longrightarrow> reader_step (s, hs) (s', hs)"
| close_block: "h \<in># hs \<Longrightarrow> reader_step (s, hs) (Close h s, hs - {#h#})"
| archive_id: "reader_step (s, hs) (MarkArchived bid s, hs)"
| archive_handle: "h \<in># hs \<Longrightarrow> reader_step (s, hs) (on_block h Block_MarkArchived s, hs)"
| compacting: "h \<in># hs \<Longrightarrow> reader_step (s, hs) (on_block h MarkCompacting s, hs)"
| seal: "reader_step (s, hs) (on_block bid Block_Seal s, hs)"
| reclaim: "visits ks (blocks s) \<Longrightarrow> reader_step (s, hs) (snd (Reclaim ks s), hs)"

inductive reader_reachable :: "reader_state \<Rightarrow> bool" where
  start: "reader_reachable (NewStore, {#})"
| step: "reader_reachable x \<Longrightarrow> reader_step x y \<Longrightarrow> reader_reachable y"

definition reader_inv :: "reader_state \<Rightarrow> bool" where
  "reader_inv = (\<lambda>(s, hs). store_inv s
     \<and> fmpred (\<lambda>bid b. bRefs b = count hs bid) (blocks s)
     \<and> (\<forall>h. h \<in># hs \<longrightarrow> fmlookup (blocks s) h \<noteq> None))"

lemma reader_inv_on_block:
  assumes "reader_inv (s, hs)" and "\<And>b. bID (f b) = bID b" and "\<And>b. bRefs (f b) = bRefs b"
  shows "reader_inv (on_block bid f s, hs)"
  using assms on_block_inv [of s f bid]
  by (auto simp: reader_inv_def fmpred_iff on_block_lookup split: if_splits)

lemma reader_step_inv: "reader_step x y \<Longrightarrow> reader_inv x \<Longrightarrow> reader_inv y"
proof (induction rule: reader_step.induct)
  case (create s hs m mn mx)
  then have "store_inv s" by (simp add: reader_inv_def)
  note fresh = Create_fresh [OF this create.hyps] and inv = Create_inv [OF this create.hyps]
  have "sNextID s + 1 \<notin># hs" using create.prems fresh by (auto simp: reader_inv_def)
  with create inv show ?case
    by (auto simp: reader_inv_def fmpred_iff Create_spec not_in_iff)
next
  case (open_block bid s h s' hs)
  then obtain b where b: "h = bid" "fmlookup (blocks s) bid = Some b"
      "s' = on_block bid (\<lambda>b. b\<lparr>bRefs := bRefs b + 1\<rparr>) s"
    by (cases rule: Open_cases [of s bid]) auto
  with open_block.prems on_block_inv [of s "\<lambda>b. b\<lparr>bRefs := bRefs b + 1\<rparr>" bid] show ?case
    by (auto simp: reader_inv_def fmpred_iff on_block_lookup split: if_splits)
next
  case (open_fails bid s r s' hs)
  then have "s' = s" by (cases rule: Open_cases [of s bid]) auto
  with open_fails.prems show ?case by simp
next
  case (close_block h hs s)
  then show ?case
    using Close_inv [of s h]
    by (auto simp: reader_inv_def fmpred_iff Close_def on_block_lookup dest: in_diffD split: if_splits)
next
  case (reclaim ks s hs)
  have "\<not> garbage s h" if "h \<in># hs" for h
    using reclaim.prems that by (auto simp: garbage_def Reclaimable_def reader_inv_def fmpred_iff)
  with reclaim show ?case
    using Reclaim_inv [of s ks] by (auto simp: reader_inv_def fmpred_iff Reclaim_spec)
qed (auto simp: MarkArchived_on_block intro: reader_inv_on_block)

lemma reader_reachable_inv: "reader_reachable x \<Longrightarrow> reader_inv x"
proof (induction rule: reader_reachable.induct)
  case start
  show ?case by (simp add: reader_inv_def NewStore_inv) (simp add: NewStore_def)
qed (blast intro: reader_step_inv)

section \<open>Properties\<close>

text \<open>
  C39. In every interleaving of creations, opens, closes, marks and reclaims, a block that some
  reader still holds is in the store with exactly as many references as it has holders, and a
  reclaim leaves it there.
\<close>

theorem held_block_stays:
  assumes "reader_reachable (s, hs)" and "h \<in># hs" and "visits ks (blocks s)"
  shows "\<exists>b. fmlookup (blocks s) h = Some b \<and> bRefs b = count hs h
    \<and> fmlookup (blocks (snd (Reclaim ks s))) h = Some b"
proof -
  have inv: "fmpred (\<lambda>bid b. bRefs b = count hs bid) (blocks s)" "fmlookup (blocks s) h \<noteq> None"
    using reader_reachable_inv [OF assms(1)] assms(2) by (auto simp: reader_inv_def)
  then obtain b where b: "fmlookup (blocks s) h = Some b" "bRefs b = count hs h" by (auto simp: fmpred_iff)
  then have "\<not> garbage s h" using assms(2) by (simp add: garbage_def Reclaimable_def)
  with b show ?thesis by (simp add: Reclaim_spec [OF assms(3)])
qed

theorem held_block_stays_witness:
  "\<exists>s. reader_reachable (s, {#1#}) \<and> fmlookup (blocks (snd (Reclaim [1] s))) 1 \<noteq> None"
proof -
  let ?created = "snd (Create fmempty 0 0 NewStore)"
  let ?opened = "on_block 1 (\<lambda>b. b\<lparr>bRefs := bRefs b + 1\<rparr>) ?created"
  let ?marked = "MarkArchived 1 ?opened"
  have "reader_reachable (?created, {#})"
    by (rule reader_reachable.step [OF reader_reachable.start create]) (simp add: NewStore_def)
  moreover have "Open 1 ?created = (Inr (Some 1), ?opened)"
    by (rule Open_cases [of ?created 1]) (simp_all add: Create_spec NewStore_def)
  ultimately have "reader_reachable (?opened, {#1#})"
    using open_block reader_reachable.step by fastforce
  from reader_reachable.step [OF this archive_id] have r: "reader_reachable (?marked, {#1#})" .
  have "visits [1] (blocks ?marked)"
    by (simp add: visits_iff MarkArchived_on_block on_block_def Create_spec NewStore_def)
  from held_block_stays [OF r _ this] r show ?thesis by auto
qed

end
