(* ===== verification/Shards.thy ===== *)
theory Shards
  imports Model
begin

text \<open>
  Time shards and their manager, \<open>internal/shard\<close>. The manager's list of shards only grows at
  its end, so a pointer to a shard is its position in the list.

  \<open>mgr_inv\<close> is what every operation keeps: windows start at multiples of the window length,
  do not overlap and ascend; every shard but the last is sealed or archived and the last is
  active. \<open>Route\<close> then either finds the window of its timestamp at the end of the list,
  appends it, or rejects a timestamp before the active window.
\<close>

record shard =
  shID :: shard_id
  shStart :: int64
  shEnd :: int64
  shState :: shard_state
  shBlocks :: "block_id list"

record manager =
  window :: duration
  shards :: "shard list"
  mNextID :: shard_id

section \<open>One shard\<close>

definition Shard_Seal :: "shard \<Rightarrow> shard" where
  "Shard_Seal s =
     (let s1 = (if shState s = ShardActive then s\<lparr>shState := ShardSealing\<rparr> else s)
      in if shState s1 = ShardSealing then s1\<lparr>shState := ShardSealed\<rparr> else s1)"

definition Shard_Archive :: "shard \<Rightarrow> shard" where
  "Shard_Archive s = (if shState s = ShardSealed then s\<lparr>shState := ShardArchived\<rparr> else s)"

definition AddBlock :: "block_id \<Rightarrow> shard \<Rightarrow> shard" where
  "AddBlock bid s = s\<lparr>shBlocks := shBlocks s @ [bid]\<rparr>"

definition Shard_Blocks :: "shard \<Rightarrow> block_id list" where
  "Shard_Blocks s = shBlocks s"

section \<open>The manager\<close>

definition aligned :: "duration \<Rightarrow> int64 \<Rightarrow> int64" where
  "aligned w ts = bucket_start w ts"

definition shardID :: "manager \<Rightarrow> int64 \<Rightarrow> shard_id" where
  "shardID m ts = ucast (word_of_int (sint ts sdiv sint (window m)) + 1 :: int64)"

definition new_shard :: "shard_id \<Rightarrow> int64 \<Rightarrow> duration \<Rightarrow> shard" where
  "new_shard sid start w =
     \<lparr>shID = sid, shStart = start, shEnd = start + w, shState = ShardActive, shBlocks = []\<rparr>"

definition NewManager :: "duration \<Rightarrow> int64 \<Rightarrow> err + manager" where
  "NewManager w now =
     (if w \<le>s 0 then Inl ErrWindowNotPositive
      else Inr \<lparr>window = w, shards = [new_shard 1 (aligned w now) w], mNextID = 2\<rparr>)"

definition seal_before :: "int64 \<Rightarrow> shard \<Rightarrow> shard" where
  "seal_before start s = (if shEnd s \<le>s start then Shard_Seal s else s)"

definition Route :: "int64 \<Rightarrow> manager \<Rightarrow> (err + nat) \<times> manager" where
  "Route ts m =
     (let lst = last (shards m)
      in if shStart lst \<le>s ts \<and> ts <s shEnd lst then (Inr (length (shards m) - 1), m)
         else if ts <s shStart lst then (Inl (ErrBeforeActive ts (shStart lst)), m)
         else
           (let start = aligned (window m) ts;
                sh = new_shard (mNextID m) start (window m)
            in (Inr (length (shards m)),
                m\<lparr>mNextID := mNextID m + 1,
                  shards := map (seal_before start) (shards m) @ [sh]\<rparr>)))"

definition Active :: "manager \<Rightarrow> nat" where
  "Active m = length (shards m) - 1"

definition Snapshot :: "manager \<Rightarrow> nat list" where
  "Snapshot m = [0..<length (shards m)]"

definition ShardsCovering :: "query_range \<Rightarrow> manager \<Rightarrow> nat list" where
  "ShardsCovering rng m =
     filter (\<lambda>i. shStart (shards m ! i) <s End rng \<and> Start rng <s shEnd (shards m ! i))
       [0..<length (shards m)]"

definition archive_pred :: "int64 \<Rightarrow> shard \<Rightarrow> bool" where
  "archive_pred ts s \<longleftrightarrow> shEnd s \<le>s ts \<and> shState s = ShardSealed"

definition archive_step :: "int64 \<Rightarrow> shard \<Rightarrow> shard" where
  "archive_step ts s = (if archive_pred ts s then Shard_Archive s else s)"

definition ArchiveOlderThan :: "int64 \<Rightarrow> manager \<Rightarrow> nat \<times> manager" where
  "ArchiveOlderThan ts m =
     (length (filter (archive_pred ts) (shards m)),
      m\<lparr>shards := map (archive_step ts) (shards m)\<rparr>)"

definition shard_Count :: "manager \<Rightarrow> nat" where
  "shard_Count m = length (shards m)"

definition ForceRotate :: "manager \<Rightarrow> nat \<times> manager" where
  "ForceRotate m =
     (let i = length (shards m) - 1;
          sealed = (shards m)[i := Shard_Seal (shards m ! i)];
          start = shEnd (last (shards m));
          sh = new_shard (mNextID m) start (window m)
      in (length (shards m), m\<lparr>mNextID := mNextID m + 1, shards := sealed @ [sh]\<rparr>))"

definition on_shard :: "nat \<Rightarrow> (shard \<Rightarrow> shard) \<Rightarrow> manager \<Rightarrow> manager" where
  "on_shard i f m = m\<lparr>shards := (shards m)[i := f (shards m ! i)]\<rparr>"

record shard_stats =
  stShards :: nat
  stActive :: nat
  stSealed :: nat
  stArchived :: nat

fun count_state :: "shard_stats \<Rightarrow> shard \<Rightarrow> shard_stats" where
  "count_state st s =
     (case shState s of
        ShardActive \<Rightarrow> st\<lparr>stActive := stActive st + 1\<rparr>
      | ShardSealed \<Rightarrow> st\<lparr>stSealed := stSealed st + 1\<rparr>
      | ShardArchived \<Rightarrow> st\<lparr>stArchived := stArchived st + 1\<rparr>
      | ShardSealing \<Rightarrow> st)"

definition ShardStats :: "manager \<Rightarrow> shard_stats" where
  "ShardStats m =
     foldl count_state \<lparr>stShards = length (shards m), stActive = 0, stSealed = 0, stArchived = 0\<rparr> (shards m)"

section \<open>Invariant\<close>

definition covers :: "shard \<Rightarrow> int64 \<Rightarrow> bool" where
  "covers s ts \<longleftrightarrow> shStart s \<le>s ts \<and> ts <s shEnd s"

definition window_ok :: "duration \<Rightarrow> shard \<Rightarrow> bool" where
  "window_ok w s \<longleftrightarrow> sint w dvd sint (shStart s) \<and> sint (shEnd s) = sint (shStart s) + sint w"

definition closed_shard :: "shard \<Rightarrow> bool" where
  "closed_shard s \<longleftrightarrow> shState s = ShardSealed \<or> shState s = ShardArchived"

definition ascending :: "shard list \<Rightarrow> bool" where
  "ascending ss \<longleftrightarrow> sorted_wrt (\<lambda>a b. shEnd a \<le>s shStart b) ss"

definition mgr_inv :: "manager \<Rightarrow> bool" where
  "mgr_inv m \<longleftrightarrow> 0 <s window m \<and> shards m \<noteq> [] \<and> list_all (window_ok (window m)) (shards m)
     \<and> ascending (shards m) \<and> list_all closed_shard (butlast (shards m))
     \<and> shState (last (shards m)) = ShardActive"

definition fits :: "manager \<Rightarrow> int64 \<Rightarrow> bool" where
  "fits m ts \<longleftrightarrow> 0 \<le>s ts \<and> sint ts + sint (window m) < 2 ^ 63"

lemma Shard_Seal_frame [simp]:
  "shStart (Shard_Seal s) = shStart s" "shEnd (Shard_Seal s) = shEnd s"
  "shBlocks (Shard_Seal s) = shBlocks s" "shID (Shard_Seal s) = shID s"
  by (simp_all add: Shard_Seal_def Let_def)

lemma Shard_Archive_frame [simp]:
  "shStart (Shard_Archive s) = shStart s" "shEnd (Shard_Archive s) = shEnd s"
  "shBlocks (Shard_Archive s) = shBlocks s" "shID (Shard_Archive s) = shID s"
  by (simp_all add: Shard_Archive_def)

lemma seal_before_frame [simp]:
  "shStart (seal_before t s) = shStart s" "shEnd (seal_before t s) = shEnd s"
  "shBlocks (seal_before t s) = shBlocks s" "shID (seal_before t s) = shID s"
  by (simp_all add: seal_before_def)

lemma AddBlock_frame [simp]:
  "shStart (AddBlock b s) = shStart s" "shEnd (AddBlock b s) = shEnd s"
  "shState (AddBlock b s) = shState s" "shID (AddBlock b s) = shID s"
  by (simp_all add: AddBlock_def)

lemma Shard_Seal_closed: "closed_shard (Shard_Seal s)"
  by (cases "shState s") (simp_all add: Shard_Seal_def closed_shard_def Let_def)

lemma window_ok_frame:
  "shStart s' = shStart s \<Longrightarrow> shEnd s' = shEnd s \<Longrightarrow> window_ok w s' = window_ok w s"
  by (simp add: window_ok_def)

lemma ascending_map:
  "(\<And>s. shStart (f s) = shStart s) \<Longrightarrow> (\<And>s. shEnd (f s) = shEnd s) \<Longrightarrow> ascending (map f ss) = ascending ss"
  by (simp add: ascending_def sorted_wrt_map)

lemma ascending_append:
  "ascending (ss @ [s]) \<longleftrightarrow> ascending ss \<and> (\<forall>a \<in> set ss. shEnd a \<le>s shStart s)"
  by (auto simp: ascending_def sorted_wrt_append)

lemma ascending_ends:
  assumes "mgr_inv m" and "a \<in> set (shards m)"
  shows "shEnd a \<le>s shEnd (last (shards m))"
proof -
  have ss: "shards m = butlast (shards m) @ [last (shards m)]"
    using assms(1) by (simp add: mgr_inv_def)
  show ?thesis
  proof (cases "a = last (shards m)")
    case False
    with assms(2) have "a \<in> set (butlast (shards m))" by (metis in_set_butlast_appendI ss set_ConsD Un_iff set_append list.set(1) empty_iff)
    moreover have "ascending (butlast (shards m) @ [last (shards m)])"
      using assms(1) ss by (simp add: mgr_inv_def)
    ultimately have "shEnd a \<le>s shStart (last (shards m))"
      by (simp add: ascending_append)
    moreover have "window_ok (window m) (last (shards m))" "0 <s window m"
      using assms(1) by (auto simp: mgr_inv_def list_all_iff)
    ultimately show ?thesis by (simp add: window_ok_def go_int)
  qed (simp add: go_int)
qed

lemma NewManager_inv:
  assumes "NewManager w now = Inr m" and "sint now + sint w < 2 ^ 63" and "0 \<le>s now"
  shows "mgr_inv m" and "covers (last (shards m)) now"
proof -
  have w: "0 < sint w" and m: "m = \<lparr>window = w, shards = [new_shard 1 (aligned w now) w], mNextID = 2\<rparr>"
    using assms(1) by (auto simp: NewManager_def go_int split: if_splits)
  have now: "0 \<le> sint now" using assms(3) by (simp add: go_int)
  note b = bucket_start_nonneg [OF w now]
  have e: "sint (aligned w now + w) = sint (aligned w now) + sint w"
    using b assms(2) w unfolding aligned_def by (intro sint_add_no_overflow) linarith+
  have d: "sint w dvd sint (aligned w now)"
    using w by (simp add: aligned_def sint_bucket_start trunc_int_dvd)
  show "mgr_inv m"
    using w e d by (simp add: m mgr_inv_def new_shard_def window_ok_def ascending_def go_int)
  show "covers (last (shards m)) now"
    using b e by (simp add: m new_shard_def covers_def aligned_def go_int)
qed

section \<open>Route\<close>

lemma Route_hit:
  "covers (last (shards m)) ts \<Longrightarrow> Route ts m = (Inr (length (shards m) - 1), m)"
  by (simp add: Route_def covers_def Let_def)

lemma Route_early:
  "ts <s shStart (last (shards m)) \<Longrightarrow>
   Route ts m = (Inl (ErrBeforeActive ts (shStart (last (shards m)))), m)"
  by (simp add: Route_def Let_def go_int)

lemma Route_late:
  assumes "shEnd (last (shards m)) \<le>s ts" and "shStart (last (shards m)) \<le>s ts"
  shows "Route ts m =
    (Inr (length (shards m)),
     m\<lparr>mNextID := mNextID m + 1,
       shards := map (seal_before (aligned (window m) ts)) (shards m)
         @ [new_shard (mNextID m) (aligned (window m) ts) (window m)]\<rparr>)"
  using assms by (simp add: Route_def Let_def go_int)

lemma Route_cases:
  assumes "mgr_inv m"
  obtains (hit) "covers (last (shards m)) ts" "Route ts m = (Inr (length (shards m) - 1), m)"
  | (early) "ts <s shStart (last (shards m))"
      "Route ts m = (Inl (ErrBeforeActive ts (shStart (last (shards m)))), m)"
  | (late) "shEnd (last (shards m)) \<le>s ts"
      "Route ts m =
        (Inr (length (shards m)),
         m\<lparr>mNextID := mNextID m + 1,
           shards := map (seal_before (aligned (window m) ts)) (shards m)
             @ [new_shard (mNextID m) (aligned (window m) ts) (window m)]\<rparr>)"
proof -
  have "window_ok (window m) (last (shards m))" "0 <s window m"
    using assms by (auto simp: mgr_inv_def list_all_iff)
  then have "shEnd (last (shards m)) \<le>s ts \<Longrightarrow> shStart (last (shards m)) \<le>s ts"
    by (simp add: window_ok_def go_int)
  then show ?thesis
    using hit Route_hit early Route_early late Route_late
    by (auto simp: covers_def go_int not_less) (metis covers_def linorder_not_less slt_iff sle_iff)+
qed

lemma new_window:
  assumes "0 < sint w" and "0 \<le> sint ts" and "sint ts + sint w < 2 ^ 63"
  shows "window_ok w (new_shard sid (aligned w ts) w)" and "covers (new_shard sid (aligned w ts) w) ts"
proof -
  note b = bucket_start_nonneg [OF assms(1,2)]
  have e: "sint (aligned w ts + w) = sint (aligned w ts) + sint w"
    using b assms unfolding aligned_def by (intro sint_add_no_overflow) linarith+
  have "sint w dvd sint (aligned w ts)"
    using assms(1) by (simp add: aligned_def sint_bucket_start trunc_int_dvd)
  with e show "window_ok w (new_shard sid (aligned w ts) w)"
    by (simp add: new_shard_def window_ok_def)
  show "covers (new_shard sid (aligned w ts) w) ts"
    using b e by (simp add: new_shard_def covers_def aligned_def go_int)
qed

text \<open>The window a late timestamp opens starts no earlier than the end of the last one.\<close>

lemma late_start:
  assumes "mgr_inv m" and "shEnd (last (shards m)) \<le>s ts" and "a \<in> set (shards m)"
  shows "shEnd a \<le>s aligned (window m) ts"
proof -
  let ?w = "sint (window m)" and ?e = "sint (shEnd (last (shards m)))"
  have w: "0 < ?w" and ok: "window_ok (window m) (last (shards m))"
    using assms(1) by (auto simp: mgr_inv_def list_all_iff go_int)
  from ok obtain q where q: "?e = ?w * q"
    unfolding window_ok_def by (metis dvd_add dvd_refl dvd_def)
  have "trunc_int ?w ?e = ?e"
    using w by (cases "0 \<le> q") (auto simp: q trunc_int_cases zero_le_mult_iff mult_less_0_iff)
  moreover have "trunc_int ?w ?e \<le> trunc_int ?w (sint ts)"
    using w assms(2) by (intro trunc_int_mono) (simp_all add: go_int)
  ultimately have "?e \<le> sint (aligned (window m) ts)"
    using w by (simp add: aligned_def sint_bucket_start)
  with ascending_ends [OF assms(1,3)] show ?thesis by (simp add: go_int)
qed

lemma Route_late_inv:
  assumes inv: "mgr_inv m" and late: "shEnd (last (shards m)) \<le>s ts" and fits: "fits m ts"
    and m': "snd (Route ts m) = m'"
    and r: "Route ts m =
        (Inr (length (shards m)),
         m\<lparr>mNextID := mNextID m + 1,
           shards := map (seal_before (aligned (window m) ts)) (shards m)
             @ [new_shard (mNextID m) (aligned (window m) ts) (window m)]\<rparr>)"
  shows "mgr_inv m'" and "covers (last (shards m')) ts"
proof -
  let ?sh = "new_shard (mNextID m) (aligned (window m) ts) (window m)"
  let ?old = "map (seal_before (aligned (window m) ts)) (shards m)"
  have shards': "shards m' = ?old @ [?sh]" and window': "window m' = window m"
    using m' r by auto
  have w: "0 < sint (window m)" and ok: "list_all (window_ok (window m)) (shards m)"
    and asc: "ascending (shards m)"
    using inv by (auto simp: mgr_inv_def go_int)
  note new = new_window [OF w, of ts "mNextID m"]
  have before: "shEnd a \<le>s aligned (window m) ts" if "a \<in> set (shards m)" for a
    using late_start [OF inv late that] .
  have "list_all (window_ok (window m)) ?old"
    using ok by (simp add: list_all_iff window_ok_def)
  moreover have "ascending (?old @ [?sh])"
    using asc before by (auto simp: ascending_append ascending_map new_shard_def)
  moreover have "list_all closed_shard ?old"
    using before by (auto simp: list_all_iff seal_before_def Shard_Seal_closed)
  ultimately show "mgr_inv m'"
    using w new(1) fits by (simp add: mgr_inv_def shards' window' go_int fits_def) (simp add: new_shard_def)
  show "covers (last (shards m')) ts"
    using new(2) fits by (simp add: shards' fits_def go_int)
qed

lemma Route_inv:
  assumes "mgr_inv m" and "fits m ts"
  shows "mgr_inv (snd (Route ts m))"
  by (rule Route_cases [OF assms(1), of ts])
     (use assms Route_late_inv(1) [OF assms(1) _ assms(2) refl] in auto)

lemma Route_covers:
  assumes "mgr_inv m" and "fits m ts" and "Route ts m = (Inr i, m')"
  shows "i = length (shards m') - 1 \<and> covers (shards m' ! i) ts \<and> i < length (shards m')"
proof (rule Route_cases [OF assms(1), of ts])
  assume "covers (last (shards m)) ts" "Route ts m = (Inr (length (shards m) - 1), m)"
  moreover have "shards m \<noteq> []" using assms(1) by (simp add: mgr_inv_def)
  ultimately show ?thesis using assms(3) by (auto simp: last_conv_nth)
next
  assume "ts <s shStart (last (shards m))"
    "Route ts m = (Inl (ErrBeforeActive ts (shStart (last (shards m)))), m)"
  with assms(3) show ?thesis by simp
next
  assume late: "shEnd (last (shards m)) \<le>s ts"
    and r: "Route ts m =
        (Inr (length (shards m)),
         m\<lparr>mNextID := mNextID m + 1,
           shards := map (seal_before (aligned (window m) ts)) (shards m)
             @ [new_shard (mNextID m) (aligned (window m) ts) (window m)]\<rparr>)"
  have "covers (last (shards m')) ts"
    by (rule Route_late_inv(2) [OF assms(1) late assms(2) _ r]) (simp add: assms(3))
  with r assms(3) show ?thesis by (auto simp: last_conv_nth nth_append)
qed

text \<open>Routing the same timestamp again finds the same shard and changes nothing.\<close>

lemma Route_again:
  assumes "mgr_inv m" and "fits m ts" and "Route ts m = (Inr i, m')"
  shows "Route ts m' = (Inr i, m')"
proof -
  have c: "i = length (shards m') - 1" "covers (shards m' ! i) ts" "shards m' \<noteq> []"
    using Route_covers [OF assms] by auto
  then have "covers (last (shards m')) ts" by (simp add: last_conv_nth)
  with c(1) show ?thesis by (simp add: Route_hit)
qed

lemma Route_error_state: "Route ts m = (Inl e, m') \<Longrightarrow> m' = m"
  by (auto simp: Route_def Let_def split: if_splits)

section \<open>At most one window holds a timestamp\<close>

lemma covers_unique:
  assumes inv: "mgr_inv m" and i: "i < length (shards m)" "covers (shards m ! i) ts"
    and j: "j < length (shards m)" "covers (shards m ! j) ts"
  shows "i = j"
proof (rule ccontr)
  have asc: "shEnd (shards m ! a) \<le>s shStart (shards m ! b)" if "a < b" "b < length (shards m)" for a b
    using inv that by (auto simp: mgr_inv_def ascending_def sorted_wrt_iff_nth_less)
  assume "i \<noteq> j"
  then consider "i < j" | "j < i" by linarith
  then show False
    by cases (use asc i j in \<open>force simp: covers_def go_int\<close>)+
qed

lemma ShardsCovering_mem:
  "i \<in> set (ShardsCovering rng m) \<longleftrightarrow>
     i < length (shards m) \<and> shStart (shards m ! i) <s End rng \<and> Start rng <s shEnd (shards m ! i)"
  by (auto simp: ShardsCovering_def)

lemma ShardsCovering_complete:
  assumes "i < length (shards m)" and "covers (shards m ! i) ts" and "Start rng \<le>s ts" and "ts <s End rng"
  shows "i \<in> set (ShardsCovering rng m)"
  using assms by (auto simp: ShardsCovering_mem covers_def go_int)

section \<open>ForceRotate, archiving, and the shard states\<close>

lemma ForceRotate_early:
  assumes "mgr_inv m" and "ts <s shEnd (last (shards m))"
  shows "fst (Route ts (snd (ForceRotate m))) = Inl (ErrBeforeActive ts (shEnd (last (shards m))))"
  using assms by (simp add: Route_def ForceRotate_def new_shard_def Let_def go_int)

lemma butlast_last_update: "xs \<noteq> [] \<Longrightarrow> xs[length xs - Suc 0 := x] = butlast xs @ [x]"
  by (induction xs rule: rev_induct) simp_all

lemma nth_update_frame:
  "(\<And>s. g (f s) = g s) \<Longrightarrow> g (xs[i := f (xs ! i)] ! j) = g (xs ! j)"
  by (cases "i < length xs") (simp_all add: nth_list_update list_update_beyond)

lemma ascending_append2:
  "ascending (ss @ [a, b]) \<longleftrightarrow> ascending (ss @ [a]) \<and> (\<forall>c \<in> set (ss @ [a]). shEnd c \<le>s shStart b)"
  using ascending_append [of "ss @ [a]" b] by simp

lemma ForceRotate_inv:
  assumes inv: "mgr_inv m" and fits: "sint (shEnd (last (shards m))) + sint (window m) < 2 ^ 63"
    and pos: "0 \<le>s shEnd (last (shards m))"
  shows "mgr_inv (snd (ForceRotate m))"
proof -
  let ?l = "last (shards m)"
  have ne: "shards m \<noteq> []" and w: "0 < sint (window m)" and okl: "window_ok (window m) ?l"
    and asc: "ascending (butlast (shards m) @ [?l])"
    using inv by (auto simp: mgr_inv_def list_all_iff go_int)
  have shards': "shards (snd (ForceRotate m)) =
      butlast (shards m) @ [Shard_Seal ?l, new_shard (mNextID m) (shEnd ?l) (window m)]"
    using ne by (simp add: ForceRotate_def Let_def butlast_last_update last_conv_nth)
  have e: "sint (shEnd ?l + window m) = sint (shEnd ?l) + sint (window m)"
    using fits pos w by (intro sint_add_no_overflow) (simp_all add: go_int)
  have new: "window_ok (window m) (new_shard (mNextID m) (shEnd ?l) (window m))"
    using okl e by (simp add: window_ok_def new_shard_def)
  have "ascending (butlast (shards m) @ [Shard_Seal ?l])"
    using asc unfolding ascending_append by simp
  then have "ascending (butlast (shards m) @ [Shard_Seal ?l, new_shard (mNextID m) (shEnd ?l) (window m)])"
    using ascending_ends [OF inv] ne
    unfolding ascending_append2 by (auto simp: new_shard_def go_int dest: in_set_butlastD)
  moreover have "list_all (window_ok (window m)) (butlast (shards m))"
    using inv by (auto simp: mgr_inv_def list_all_iff dest: in_set_butlastD)
  ultimately show ?thesis
    using inv new okl Shard_Seal_closed [of ?l]
    by (simp add: mgr_inv_def shards' window_ok_def butlast_append)
       (simp add: ForceRotate_def Let_def new_shard_def)
qed

lemma archive_step_frame [simp]:
  "shStart (archive_step t s) = shStart s" "shEnd (archive_step t s) = shEnd s"
  "shBlocks (archive_step t s) = shBlocks s" "shID (archive_step t s) = shID s"
  by (simp_all add: archive_step_def)

lemma ArchiveOlderThan_inv:
  assumes "mgr_inv m"
  shows "mgr_inv (snd (ArchiveOlderThan ts m))"
proof -
  have ss: "shards (snd (ArchiveOlderThan ts m)) = map (archive_step ts) (shards m)"
    "window (snd (ArchiveOlderThan ts m)) = window m"
    by (simp_all add: ArchiveOlderThan_def)
  have "closed_shard s \<Longrightarrow> closed_shard (archive_step ts s)" for s
    by (auto simp: closed_shard_def archive_step_def Shard_Archive_def)
  then have "list_all closed_shard (butlast (map (archive_step ts) (shards m)))"
    using assms by (simp add: mgr_inv_def list_all_iff map_butlast [symmetric])
  moreover have "shState (last (map (archive_step ts) (shards m))) = ShardActive"
    using assms by (simp add: mgr_inv_def last_map archive_step_def archive_pred_def)
  moreover have "list_all (window_ok (window m)) (map (archive_step ts) (shards m))"
    using assms by (auto simp: mgr_inv_def list_all_iff window_ok_def)
  moreover have "ascending (map (archive_step ts) (shards m))"
    using assms by (subst ascending_map) (simp_all add: mgr_inv_def)
  ultimately show ?thesis
    using assms unfolding mgr_inv_def ss by simp
qed

text \<open>
  The shard states only move forward, whichever operation runs, and a shard keeps its
  identity, its window and its blocks.
\<close>

definition state_rank :: "shard_state \<Rightarrow> nat" where
  "state_rank st = (case st of ShardActive \<Rightarrow> 0 | ShardSealing \<Rightarrow> 1 | ShardSealed \<Rightarrow> 2 | ShardArchived \<Rightarrow> 3)"

definition moves_on :: "shard \<Rightarrow> shard \<Rightarrow> bool" where
  "moves_on s s' \<longleftrightarrow> shID s' = shID s \<and> shStart s' = shStart s \<and> shEnd s' = shEnd s
     \<and> take (length (shBlocks s)) (shBlocks s') = shBlocks s
     \<and> state_rank (shState s) \<le> state_rank (shState s')"

definition advances :: "manager \<Rightarrow> manager \<Rightarrow> bool" where
  "advances m m' \<longleftrightarrow> window m' = window m \<and> length (shards m) \<le> length (shards m')
     \<and> list_all2 moves_on (shards m) (take (length (shards m)) (shards m'))"

lemma moves_on_ops:
  "moves_on s s" "moves_on s (Shard_Seal s)" "moves_on s (Shard_Archive s)" "moves_on s (AddBlock b s)"
  "moves_on s (seal_before t s)" "moves_on s (archive_step t s)"
  by (auto simp: moves_on_def archive_step_def Shard_Seal_def Shard_Archive_def AddBlock_def seal_before_def
      state_rank_def Let_def split: shard_state.splits)

lemma advances_map:
  "(\<And>s. moves_on s (f s)) \<Longrightarrow> window m' = window m \<Longrightarrow> shards m' = map f (shards m) @ ss \<Longrightarrow> advances m m'"
  by (simp add: advances_def list_all2_conv_all_nth)

lemma advances_refl: "advances m m"
  by (rule advances_map [where f = "\<lambda>s. s" and ss = "[]"]) (simp_all add: moves_on_ops)

lemma Route_advances: "advances m (snd (Route ts m))"
proof (cases "covers (last (shards m)) ts \<or> ts <s shStart (last (shards m))")
  case True
  then show ?thesis by (auto simp: Route_hit Route_early advances_refl)
next
  case False
  then have "shEnd (last (shards m)) \<le>s ts" "shStart (last (shards m)) \<le>s ts"
    by (auto simp: covers_def go_int)
  from Route_late [OF this] show ?thesis
    by (intro advances_map [where f = "seal_before (aligned (window m) ts)"]) (simp_all add: moves_on_ops)
qed

lemma advances_on_shard:
  assumes "\<And>s. moves_on s (f s)"
  shows "advances m (on_shard i f m)"
  using assms moves_on_ops(1)
  by (cases "i < length (shards m)")
     (auto simp: advances_def on_shard_def list_all2_conv_all_nth nth_list_update list_update_beyond)

lemma ForceRotate_advances: "advances m (snd (ForceRotate m))"
  by (auto simp: advances_def ForceRotate_def Let_def list_all2_conv_all_nth nth_append nth_list_update
      moves_on_ops)

lemma ArchiveOlderThan_advances: "advances m (snd (ArchiveOlderThan ts m))"
  by (rule advances_map [where f = "archive_step ts" and ss = "[]"])
     (simp_all add: ArchiveOlderThan_def moves_on_ops)

lemma on_shard_inv:
  assumes "mgr_inv m" and "\<And>s. shStart (f s) = shStart s" "\<And>s. shEnd (f s) = shEnd s"
    "\<And>s. shState (f s) = shState s"
  shows "mgr_inv (on_shard i f m)"
proof (cases "i < length (shards m)")
  case True
  have "ascending ((shards m)[i := f (shards m ! i)])"
    using assms by (simp add: mgr_inv_def ascending_def sorted_wrt_iff_nth_less nth_update_frame)
  moreover have "list_all closed_shard (butlast ((shards m)[i := f (shards m ! i)]))"
    using assms(1,4) True
    by (auto simp: mgr_inv_def list_all_length nth_butlast nth_list_update closed_shard_def)
  ultimately show ?thesis
    using assms True
    by (auto simp: mgr_inv_def on_shard_def list_all_length nth_list_update window_ok_def last_conv_nth)
next
  case False
  with assms(1) show ?thesis by (simp add: on_shard_def list_update_beyond)
qed

section \<open>Properties\<close>

text \<open>
  C38. A timestamp that leaves the length of a window below \<open>2 ^ 63\<close> (\<open>fits\<close>) is either refused,
  when it lies before the active window, with the windows unchanged, or routed to the one
  window that covers it, which is then the active one; routing it again gives the same window
  and changes nothing more. The windows stay well formed. Nothing is claimed
  beyond the bound, where the end of the window wraps around.
\<close>

theorem Route_window:
  assumes "mgr_inv m" and "fits m ts"
  shows "case Route ts m of
      (Inl e, m') \<Rightarrow> m' = m \<and> ts <s shStart (last (shards m)) \<and> e = ErrBeforeActive ts (shStart (last (shards m)))
    | (Inr i, m') \<Rightarrow> mgr_inv m' \<and> i = length (shards m') - 1
        \<and> (\<forall>j < length (shards m'). covers (shards m' ! j) ts = (j = i)) \<and> Route ts m' = (Inr i, m')"
proof -
  obtain r m' where rm: "Route ts m = (r, m')" by (rule prod.exhaust)
  show ?thesis
  proof (cases r)
    case (Inl e)
    show ?thesis by (rule Route_cases [OF assms(1), of ts]) (use rm Inl in simp_all)
  next
    case (Inr i)
    with rm have r: "Route ts m = (Inr i, m')" by simp
    have inv: "mgr_inv m'" using Route_inv [OF assms] r by simp
    note c = Route_covers [OF assms r]
    then have "covers (shards m' ! j) ts = (j = i)" if "j < length (shards m')" for j
      using covers_unique [OF inv that, of ts i] by blast
    with inv c r Route_again [OF assms r] show ?thesis by simp
  qed
qed

theorem Route_window_witness:
  "\<exists>m m'. NewManager 3600 100 = Inr m \<and> Route 4000 m = (Inr 1, m') \<and> covers (shards m' ! 1) 4000
    \<and> Route 4000 m' = (Inr 1, m')"
proof -
  obtain m where m: "NewManager 3600 100 = Inr m" by (simp add: NewManager_def go_int)
  have inv: "mgr_inv m" by (rule NewManager_inv [OF m]) (simp_all add: go_int)
  have md: "window m = 3600" "shards m = [new_shard 1 0 3600]"
    using m by (auto simp: NewManager_def go_int aligned_def bucket_start_def go_rem_def signed_modulo_int_def)
  have "fits m 4000" by (simp add: fits_def md go_int)
  note r = Route_window [OF inv this]
  have "fst (Route 4000 m) = Inr 1" by (simp add: Route_def md new_shard_def go_int Let_def)
  then obtain m' where "Route 4000 m = (Inr 1, m')" by (metis prod.collapse)
  with r m show ?thesis by auto
qed

end
