(* ===== verification/Decimal.thy ===== *)
theory Decimal
  imports Prelude
begin

text \<open>
  Decimal numerals: the digits \<open>fmt.Sprintf\<close> and \<open>strconv.FormatUint\<close> write, and the
  digit loop of \<open>strconv.Atoi\<close>, \<open>ParseInt\<close> and \<open>ParseUint\<close>, which accept leading zeros.
\<close>

definition digit_char :: "nat \<Rightarrow> char" where
  "digit_char d = char_of (48 + d)"

fun show_nat :: "nat \<Rightarrow> string" where
  "show_nat n = (if n < 10 then [digit_char n] else show_nat (n div 10) @ [digit_char (n mod 10)])"

declare show_nat.simps [simp del]

definition digit_value :: "char \<Rightarrow> nat option" where
  "digit_value c = (let k = of_char c :: nat in if 48 \<le> k \<and> k \<le> 57 then Some (k - 48) else None)"

fun digits_loop :: "nat \<Rightarrow> string \<Rightarrow> nat option" where
  "digits_loop acc [] = Some acc"
| "digits_loop acc (c # cs) =
     (case digit_value c of None \<Rightarrow> None | Some d \<Rightarrow> digits_loop (10 * acc + d) cs)"

definition parse_digits :: "string \<Rightarrow> nat option" where
  "parse_digits s = (if s = [] then None else digits_loop 0 s)"

definition show_int :: "int \<Rightarrow> string" where
  "show_int k = (if k < 0 then CHR ''-'' # show_nat (nat (- k)) else show_nat (nat k))"

definition pad_left :: "nat \<Rightarrow> string \<Rightarrow> string" where
  "pad_left n s = replicate (n - length s) (CHR ''0'') @ s"

definition parse_int :: "string \<Rightarrow> int option" where
  "parse_int s =
     (let (neg, ds) =
        (case s of
           [] \<Rightarrow> (False, s)
         | c # cs \<Rightarrow> if c = CHR ''-'' then (True, cs) else if c = CHR ''+'' then (False, cs) else (False, s))
      in case parse_digits ds of
           None \<Rightarrow> None
         | Some n \<Rightarrow>
             if neg then (if n \<le> 2 ^ 63 then Some (- int n) else None)
             else (if n < 2 ^ 63 then Some (int n) else None))"

definition parse_uint64 :: "string \<Rightarrow> uint64 option" where
  "parse_uint64 s =
     (case parse_digits s of
        None \<Rightarrow> None
      | Some n \<Rightarrow> if n < 2 ^ 64 then Some (word_of_nat n) else None)"

lemma digit_value_char [simp]: "d < 10 \<Longrightarrow> digit_value (digit_char d) = Some d"
  by (simp add: digit_value_def digit_char_def Let_def)

lemma digits_loop_append:
  "digits_loop acc (xs @ ys) =
     (case digits_loop acc xs of None \<Rightarrow> None | Some a \<Rightarrow> digits_loop a ys)"
  by (induction xs arbitrary: acc) (simp_all split: option.splits)

lemma show_nat_nonempty [simp]: "show_nat n \<noteq> []"
  by (subst show_nat.simps) simp

lemma digits_loop_show: "digits_loop 0 (show_nat n) = Some n"
proof (induction n rule: show_nat.induct)
  case (1 n)
  then show ?case
    by (subst show_nat.simps) (simp add: digits_loop_append)
qed

lemma parse_show_nat [simp]: "parse_digits (show_nat n) = Some n"
  by (simp add: parse_digits_def digits_loop_show)

lemma digits_loop_zeros: "digits_loop 0 (replicate k (CHR ''0'') @ s) = digits_loop 0 s"
  by (induction k) (simp_all add: digit_value_def Let_def)

lemma parse_pad_left [simp]: "parse_digits (pad_left k (show_nat n)) = Some n"
  by (simp add: parse_digits_def pad_left_def digits_loop_zeros digits_loop_show)

lemma show_nat_inject [simp]: "show_nat m = show_nat n \<longleftrightarrow> m = n"
  by (metis option.inject parse_show_nat)

lemma show_nat_digits: "c \<in> set (show_nat n) \<Longrightarrow> digit_value c \<noteq> None"
proof (induction n rule: show_nat.induct)
  case (1 n)
  then show ?case
    by (subst (asm) (2) show_nat.simps) (auto split: if_splits)
qed

lemma pad_left_digits: "c \<in> set (pad_left k (show_nat n)) \<Longrightarrow> digit_value c \<noteq> None"
  by (auto simp: pad_left_def digit_value_def Let_def dest!: show_nat_digits split: if_splits)

lemma parse_uint64_show [simp]: "parse_uint64 (show_nat (unat w)) = Some w" for w :: uint64
  using unsigned_less [of w] by (simp add: parse_uint64_def)

lemma parse_int_digits:
  assumes "\<forall>c \<in> set s. digit_value c \<noteq> None" and "parse_digits s = Some n" and "n < 2 ^ 63"
  shows "parse_int s = Some (int n)"
proof (cases s)
  case (Cons c cs)
  with assms(1) have "c \<noteq> CHR ''-''" "c \<noteq> CHR ''+''" by (auto simp: digit_value_def Let_def)
  with Cons assms(2,3) show ?thesis by (simp add: parse_int_def)
qed (use assms(2) in \<open>simp add: parse_digits_def\<close>)

lemma parse_int_pad: "n < 2 ^ 63 \<Longrightarrow> parse_int (pad_left k (show_nat n)) = Some (int n)"
  by (rule parse_int_digits) (auto dest: pad_left_digits)

end
