(* ===== verification/Metrics.thy ===== *)
theory Metrics
  imports Model Decimal "HOL-Library.Multiset"
begin

text \<open>
  The metric registry, \<open>internal/metric/metric.go\<close>: counters and gauges by name, created on
  first use, and the text rendering of all of them in name order. The pointer the code gets
  from \<open>Counter(name)\<close> is used at once, so a use is one operation on the registry.
\<close>

record registry =
  counters :: "(string, int64) fmap"
  gauges :: "(string, int64) fmap"

definition NewRegistry :: registry where
  "NewRegistry = \<lparr>counters = fmempty, gauges = fmempty\<rparr>"

definition counter_value :: "string \<Rightarrow> registry \<Rightarrow> int64" where
  "counter_value name r = (case fmlookup (counters r) name of Some v \<Rightarrow> v | None \<Rightarrow> 0)"

definition gauge_value :: "string \<Rightarrow> registry \<Rightarrow> int64" where
  "gauge_value name r = (case fmlookup (gauges r) name of Some v \<Rightarrow> v | None \<Rightarrow> 0)"

definition Inc :: "string \<Rightarrow> int64 \<Rightarrow> registry \<Rightarrow> registry" where
  "Inc name delta r = r\<lparr>counters := fmupd name (counter_value name r + delta) (counters r)\<rparr>"

definition Gauge_Set :: "string \<Rightarrow> int64 \<Rightarrow> registry \<Rightarrow> registry" where
  "Gauge_Set name v r = r\<lparr>gauges := fmupd name v (gauges r)\<rparr>"

definition Gauge_Add :: "string \<Rightarrow> int64 \<Rightarrow> registry \<Rightarrow> registry" where
  "Gauge_Add name delta r = r\<lparr>gauges := fmupd name (gauge_value name r + delta) (gauges r)\<rparr>"

definition metric_line :: "string \<Rightarrow> int64 \<Rightarrow> string" where
  "metric_line name v = name @ '' '' @ show_int (sint v) @ [CHR 0x0A]"

definition render_metric :: "registry \<Rightarrow> string \<Rightarrow> string" where
  "render_metric r name =
     (case fmlookup (counters r) name of Some v \<Rightarrow> metric_line name v | None \<Rightarrow> [])
     @ (case fmlookup (gauges r) name of Some v \<Rightarrow> metric_line name v | None \<Rightarrow> [])"

definition Registry_Snapshot :: "string list \<Rightarrow> string list \<Rightarrow> registry \<Rightarrow> string" where
  "Registry_Snapshot cs gs r = concat (map (render_metric r) (sort (cs @ gs)))"

lemma counter_value_Inc:
  "counter_value n (Inc name delta r) = (if n = name then counter_value n r + delta else counter_value n r)"
  by (simp add: counter_value_def Inc_def)

lemma gauge_value_Add:
  "gauge_value n (Gauge_Add name delta r) = (if n = name then gauge_value n r + delta else gauge_value n r)"
  by (simp add: gauge_value_def Gauge_Add_def)

lemma gauge_value_Set:
  "gauge_value n (Gauge_Set name v r) = (if n = name then v else gauge_value n r)"
  by (simp add: gauge_value_def Gauge_Set_def)

lemma registry_frame [simp]:
  "gauge_value n (Inc name delta r) = gauge_value n r"
  "counter_value n (Gauge_Add name delta r) = counter_value n r"
  "counter_value n (Gauge_Set name v r) = counter_value n r"
  by (simp_all add: gauge_value_def counter_value_def Inc_def Gauge_Add_def Gauge_Set_def)

lemma Registry_Snapshot_order:
  assumes "visits cs (counters r)" "visits cs' (counters r)" "visits gs (gauges r)" "visits gs' (gauges r)"
  shows "Registry_Snapshot cs gs r = Registry_Snapshot cs' gs' r"
proof -
  have "mset cs = mset cs'" "mset gs = mset gs'"
    using assms by (simp_all add: visits_iff set_eq_iff_mset_eq_distinct [symmetric])
  then have "sort (cs @ gs) = sort (cs' @ gs')"
    by (intro properties_for_sort) simp_all
  then show ?thesis by (simp add: Registry_Snapshot_def)
qed

end
