(* ===== verification/Database.thy ===== *)
theory Database
  imports BlockStore Shards Metrics
begin

text \<open>
  The objects the background jobs and the write path share: the block store, the shard manager
  and the metric registry (the pointers that \<open>cmd/metricstore/main.go\<close> hands to each
  constructor). Operations take and return one record of them.
\<close>

record database =
  dbStore :: store
  dbShards :: manager
  dbReg :: registry

definition db_inv :: "database \<Rightarrow> bool" where
  "db_inv db \<longleftrightarrow> store_inv (dbStore db) \<and> mgr_inv (dbShards db)"

text \<open>What a reader can see of the store: the points of every block that still opens.\<close>

definition readable :: "store \<Rightarrow> block_id \<Rightarrow> series_points option" where
  "readable s bid =
     (case fmlookup (blocks s) bid of
        None \<Rightarrow> None
      | Some b \<Rightarrow> if bArchived b then None else Some (bByID b))"

lemma readable_Some:
  "readable s bid = Some m \<longleftrightarrow> (\<exists>b. fmlookup (blocks s) bid = Some b \<and> \<not> bArchived b \<and> bByID b = m)"
  by (auto simp: readable_def split: option.splits)

lemma readable_on_block:
  assumes "\<And>b. bArchived (f b) = bArchived b" and "\<And>b. bByID (f b) = bByID b"
  shows "readable (on_block bid f s) k = readable s k"
  using assms by (cases "fmlookup (blocks s) bid") (simp_all add: readable_def on_block_lookup)

lemma readable_mark:
  "readable (on_block bid Block_MarkArchived s) k = (if k = bid then None else readable s k)"
  by (auto simp: readable_def on_block_lookup option.case_eq_if)

lemma readable_Reclaim:
  assumes "visits ks (blocks s)"
  shows "readable (snd (Reclaim ks s)) k = readable s k"
  by (auto simp: readable_def Reclaim_spec [OF assms] garbage_def Reclaimable_def split: option.splits)

lemma readable_Create:
  "readable (snd (Create m mn mx s)) k = (if k = sNextID s + 1 then Some m else readable s k)"
  by (simp add: readable_def Create_spec)

section \<open>A small database\<close>

text \<open>One block with three points of series 7, in the first window of an hour-like length.\<close>

definition three_points :: "point list" where
  "three_points =
     [\<lparr>TS = 5, Value = 0x3FF0000000000000, SeriesID = 7\<rparr>,
      \<lparr>TS = 20, Value = 0x4008000000000000, SeriesID = 7\<rparr>,
      \<lparr>TS = 65, Value = 0x4045000000000000, SeriesID = 7\<rparr>]"

lemma three_points_sorted: "time_sorted three_points" "time_strict three_points" "three_points \<noteq> []"
  by (simp_all add: time_sorted_def time_strict_def three_points_def go_int)

definition demo_store :: store where
  "demo_store = snd (Create (fmupd 7 three_points fmempty) 5 65 NewStore)"

definition demo_block :: block where
  "demo_block = \<lparr>bID = 1, bState = BlockImmutable, bRefs = 0, bByID = fmupd 7 three_points fmempty,
     bMin = 5, bMax = 65, bArchived = False\<rparr>"

definition demo_manager :: manager where
  "demo_manager = \<lparr>window = 3600, shards = [new_shard 1 0 3600], mNextID = 2\<rparr>"

definition demo_db :: database where
  "demo_db = \<lparr>dbStore = demo_store, dbShards = demo_manager, dbReg = NewRegistry\<rparr>"

text \<open>A manager whose active window is later than the demo block.\<close>

definition late_manager :: manager where
  "late_manager = \<lparr>window = 3600, shards = [new_shard 1 7200 3600], mNextID = 2\<rparr>"

lemma demo_facts:
  "dbStore demo_db = demo_store" "dbShards demo_db = demo_manager"
  "store_inv demo_store" "sNextID demo_store = 1" "fmlookup (blocks demo_store) 1 = Some demo_block"
  "k \<noteq> 1 \<Longrightarrow> fmlookup (blocks demo_store) k = None"
  "Route 5 demo_manager = (Inr 0, demo_manager)"
  by (simp_all add: demo_db_def demo_store_def demo_block_def Create_spec NewStore_def store_inv_def fmpred_iff
      demo_manager_def Route_def new_shard_def go_int)

lemma demo_reading:
  "readable demo_store 1 = Some (fmupd 7 three_points fmempty)"
  "readable demo_store 2 = None"
  by (simp_all add: readable_def demo_facts) (simp add: demo_block_def)

end
