(* ===== verification/LabelRules.thy ===== *)
theory LabelRules
  imports Model "HOL-Library.Sublist"
begin

text \<open>
  Validation and normalisation of names and labels, \<open>internal/series/labels.go\<close>.

  The code ranges over runes and accepts ASCII ones only. A byte of a non-ASCII or malformed
  sequence decodes to a rune outside every accepted range, so the check of all runes is the
  check of all bytes.

  \<open>strings.TrimSpace\<close> strips Unicode white space from both ends. \<open>space_seqs\<close> lists the UTF-8
  encodings of the white-space runes; a string starts (ends) with such a rune exactly when it
  has that encoding as a prefix (suffix).
\<close>

section \<open>Metric names\<close>

definition alnum :: "char \<Rightarrow> bool" where
  "alnum r \<longleftrightarrow> CHR ''a'' \<le> r \<and> r \<le> CHR ''z'' \<or> CHR ''A'' \<le> r \<and> r \<le> CHR ''Z''
     \<or> CHR ''0'' \<le> r \<and> r \<le> CHR ''9''"

definition name_char :: "char \<Rightarrow> bool" where
  "name_char r \<longleftrightarrow> alnum r \<or> r = CHR ''_'' \<or> r = CHR ''.'' \<or> r = CHR ''-''"

definition label_char :: "char \<Rightarrow> bool" where
  "label_char r \<longleftrightarrow> alnum r \<or> r = CHR ''_'' \<or> r = CHR ''.''"

definition ValidName :: "string \<Rightarrow> bool" where
  "ValidName name = (if name = [] \<or> 128 < length name then False else list_all name_char name)"

section \<open>strings.TrimSpace\<close>

definition space_seqs :: "string list" where
  "space_seqs =
     map (\<lambda>c. [c]) [CHR 0x09, CHR 0x0A, CHR 0x0B, CHR 0x0C, CHR 0x0D, CHR '' '']
     @ [[CHR 0xC2, CHR 0x85], [CHR 0xC2, CHR 0xA0], [CHR 0xE1, CHR 0x9A, CHR 0x80]]
     @ map (\<lambda>c. [CHR 0xE2, CHR 0x80, c])
         [CHR 0x80, CHR 0x81, CHR 0x82, CHR 0x83, CHR 0x84, CHR 0x85, CHR 0x86, CHR 0x87,
          CHR 0x88, CHR 0x89, CHR 0x8A, CHR 0xA8, CHR 0xA9, CHR 0xAF]
     @ [[CHR 0xE2, CHR 0x81, CHR 0x9F], [CHR 0xE3, CHR 0x80, CHR 0x80]]"

function trim_front :: "string list \<Rightarrow> string \<Rightarrow> string" where
  "trim_front qs s =
     (case find (\<lambda>q. q \<noteq> [] \<and> prefix q s) qs of
        None \<Rightarrow> s
      | Some q \<Rightarrow> trim_front qs (drop (length q) s))"
  by pat_completeness auto
termination
  by (relation "measure (\<lambda>(qs, s). length s)") (auto simp: find_Some_iff prefix_def)

declare trim_front.simps [simp del]

definition trim_left :: "string \<Rightarrow> string" where
  "trim_left s = trim_front space_seqs s"

definition trim_right :: "string \<Rightarrow> string" where
  "trim_right s = rev (trim_front (map rev space_seqs) (rev s))"

definition TrimSpace :: "string \<Rightarrow> string" where
  "TrimSpace s = trim_right (trim_left s)"

section \<open>Label sets\<close>

definition valid_label_key :: "string \<Rightarrow> bool" where
  "valid_label_key k \<longleftrightarrow> \<not> (k = [] \<or> 64 < length k) \<and> list_all label_char k"

fun sanitize_loop ::
  "(string, string) fmap \<Rightarrow> string list \<Rightarrow> (string, string) fmap \<Rightarrow> err + (string, string) fmap"
where
  "sanitize_loop labels [] out = Inr out"
| "sanitize_loop labels (k # ks) out =
     (if k = [] \<or> 64 < length k then Inl ErrInvalidLabel
      else if \<not> list_all label_char k then Inl ErrInvalidLabel
      else sanitize_loop labels ks
        (fmupd k (TrimSpace (case fmlookup labels k of Some v \<Rightarrow> v | None \<Rightarrow> [])) out))"

definition SanitizeLabels ::
  "string list \<Rightarrow> (string, string) fmap \<Rightarrow> err + (string, string) fmap" where
  "SanitizeLabels ks labels = sanitize_loop labels ks fmempty"

section \<open>Trimming: what is left, and idempotence\<close>

definition no_front :: "string list \<Rightarrow> string \<Rightarrow> bool" where
  "no_front qs s \<longleftrightarrow> (\<forall>q \<in> set qs. q \<noteq> [] \<longrightarrow> \<not> prefix q s)"

lemma trim_front_stop: "no_front qs s \<Longrightarrow> trim_front qs s = s"
proof -
  assume "no_front qs s"
  then have "find (\<lambda>q. q \<noteq> [] \<and> prefix q s) qs = None"
    by (auto simp: find_None_iff no_front_def)
  then show ?thesis by (subst trim_front.simps) simp
qed

lemma trim_front_no_front: "no_front qs (trim_front qs s)"
proof (induction qs s rule: trim_front.induct)
  case (1 qs s)
  show ?case
  proof (cases "find (\<lambda>q. q \<noteq> [] \<and> prefix q s) qs")
    case None
    then have nf: "no_front qs s" by (auto simp: find_None_iff no_front_def)
    then show ?thesis by (simp add: trim_front_stop)
  next
    case (Some q)
    with 1 show ?thesis by (subst trim_front.simps) simp
  qed
qed

lemma trim_front_suffix: "suffix (trim_front qs s) s"
proof (induction qs s rule: trim_front.induct)
  case (1 qs s)
  show ?case
  proof (cases "find (\<lambda>q. q \<noteq> [] \<and> prefix q s) qs")
    case None
    then show ?thesis by (subst trim_front.simps) simp
  next
    case (Some q)
    with 1 have "suffix (trim_front qs (drop (length q) s)) (drop (length q) s)" by simp
    with Some show ?thesis
      by (subst trim_front.simps) (simp add: suffix_order.trans [OF _ suffix_drop])
  qed
qed

lemma no_front_prefix: "no_front qs s \<Longrightarrow> prefix t s \<Longrightarrow> no_front qs t"
  unfolding no_front_def by (meson prefix_order.trans)

lemma trim_right_prefix: "prefix (trim_right s) s"
  using trim_front_suffix [of "map rev space_seqs" "rev s"]
  by (simp add: trim_right_def suffix_to_prefix)

lemma TrimSpace_no_front: "no_front space_seqs (TrimSpace s)"
  unfolding TrimSpace_def trim_left_def
  by (rule no_front_prefix [OF trim_front_no_front trim_right_prefix])

lemma TrimSpace_no_back: "no_front (map rev space_seqs) (rev (TrimSpace s))"
  by (simp add: TrimSpace_def trim_right_def trim_front_no_front)

lemma TrimSpace_idem [simp]: "TrimSpace (TrimSpace s) = TrimSpace s"
proof -
  have "trim_left (TrimSpace s) = TrimSpace s"
    unfolding trim_left_def by (rule trim_front_stop [OF TrimSpace_no_front])
  moreover have "trim_right (TrimSpace s) = TrimSpace s"
    unfolding trim_right_def by (simp add: trim_front_stop [OF TrimSpace_no_back])
  ultimately show ?thesis by (metis TrimSpace_def)
qed

lemma TrimSpace_set: "set (TrimSpace s) \<subseteq> set s"
proof -
  have "set (TrimSpace s) \<subseteq> set (trim_left s)"
    unfolding TrimSpace_def by (rule set_mono_prefix [OF trim_right_prefix])
  also have "\<dots> \<subseteq> set s"
    unfolding trim_left_def by (rule set_mono_suffix [OF trim_front_suffix])
  finally show ?thesis .
qed

section \<open>The sanitised label set\<close>

lemma sanitize_loop_spec:
  assumes "distinct ks" and "\<And>k. k \<in> set ks \<Longrightarrow> k |\<in>| fmdom labels"
  shows "sanitize_loop labels ks out =
    (if list_all valid_label_key ks
     then Inr (out ++\<^sub>f fmfilter (\<lambda>k. k \<in> set ks) (fmmap TrimSpace labels))
     else Inl ErrInvalidLabel)"
  using assms
proof (induction ks arbitrary: out)
  case Nil
  show ?case by (auto intro: fmap_ext)
next
  case (Cons k ks)
  then have "k |\<in>| fmdom labels" by simp
  then obtain v where v: "fmlookup labels k = Some v" by (rule fmdomE)
  have "fmupd k (TrimSpace v) out ++\<^sub>f fmfilter (\<lambda>x. x \<in> set ks) (fmmap TrimSpace labels)
      = out ++\<^sub>f fmfilter (\<lambda>x. x \<in> set (k # ks)) (fmmap TrimSpace labels)"
    using v Cons.prems(1) fmdomI [OF v] by (auto intro!: fmap_ext)
  with v Cons show ?case by (simp add: valid_label_key_def)
qed

lemma SanitizeLabels_spec:
  assumes "visits ks labels"
  shows "SanitizeLabels ks labels =
    (if fmpred (\<lambda>k _. valid_label_key k) labels then Inr (fmmap TrimSpace labels)
     else Inl ErrInvalidLabel)"
proof -
  have "fmpred (\<lambda>k _. valid_label_key k) labels \<longleftrightarrow> list_all valid_label_key ks"
    using visits_mem [OF assms] by (auto simp: fmpred_iff list_all_iff)
  moreover have "fmempty ++\<^sub>f fmfilter (\<lambda>k. k \<in> set ks) (fmmap TrimSpace labels) = fmmap TrimSpace labels"
    using visits_mem [OF assms] by (auto intro!: fmap_ext)
  ultimately show ?thesis
    using sanitize_loop_spec [of ks labels fmempty] assms visits_mem [OF assms]
    by (auto simp: SanitizeLabels_def fmlookup_dom_iff visits_distinct)
qed

end
