(* ===== verification/Bytes.thy ===== *)
theory Bytes
  imports Prelude
begin

text \<open>
  Little-endian byte order, \<open>encoding/binary.LittleEndian\<close>, for any word width: \<open>put_le n w\<close>
  are the \<open>n\<close> low bytes of \<open>w\<close>, least significant first, and \<open>get_le\<close> reads a byte list
  back. The write-ahead log writes its records with them and the hash reads its input with
  them. Bytes of a string are \<open>bytes_of\<close>.
\<close>

unbundle bit_operations_syntax

fun put_le :: "nat \<Rightarrow> 'a::len word \<Rightarrow> byte list" where
  "put_le 0 w = []"
| "put_le (Suc n) w = ucast w # put_le n (drop_bit 8 w)"

fun get_le :: "byte list \<Rightarrow> 'a::len word" where
  "get_le [] = 0"
| "get_le (b # bs) = ucast b OR push_bit 8 (get_le bs)"

definition bytes_of :: "string \<Rightarrow> byte list" where
  "bytes_of s = map of_char s"

definition chars_of :: "byte list \<Rightarrow> string" where
  "chars_of bs = map (\<lambda>b. char_of (unat b)) bs"

lemma chars_of_bytes_of [simp]: "chars_of (bytes_of s) = s"
proof -
  have "unat (of_char c :: byte) = of_char c" for c
    using of_char_eq_iff by (cases c) (auto simp: of_char_def unat_word_ariths)
  then show ?thesis by (simp add: chars_of_def bytes_of_def comp_def)
qed

lemma length_put_le [simp]: "length (put_le n w) = n"
  by (induction n arbitrary: w) simp_all

lemma bit_get_le_beyond: "8 * length bs \<le> n \<Longrightarrow> \<not> bit (get_le bs :: 'a::len word) n"
proof (induction bs arbitrary: n)
  case (Cons b bs)
  then have "\<not> bit (get_le bs :: 'a word) (n - 8)" by simp
  with Cons.prems show ?case by (auto simp: bit_simps dest: bit_imp_le_length)
qed simp

lemma get_put_le:
  "get_le (put_le n w) = take_bit (8 * n) w" for w :: "'a::len word"
proof (induction n arbitrary: w)
  case (Suc n)
  show ?case
    by (rule bit_word_eqI) (auto simp: Suc bit_simps dest: bit_imp_le_length)
qed simp

lemma get_put_le_full:
  "LENGTH('a) \<le> 8 * n \<Longrightarrow> get_le (put_le n w) = w" for w :: "'a::len word"
  by (simp add: get_put_le take_bit_word_eq_self)

lemma drop_bit_get_le_Cons:
  assumes "8 * length (b # bs) \<le> LENGTH('a)"
  shows "drop_bit 8 (get_le (b # bs) :: 'a::len word) = get_le bs"
proof (rule bit_word_eqI)
  fix n assume "n < LENGTH('a)"
  have low: "bit (get_le bs :: 'a word) n \<Longrightarrow> 8 + n < LENGTH('a)"
    using assms bit_get_le_beyond [of bs n, where 'a = 'a] by (cases "8 * length bs \<le> n") auto
  then show "bit (drop_bit 8 (get_le (b # bs) :: 'a word)) n = bit (get_le bs :: 'a word) n"
    by (auto simp: bit_simps dest: bit_imp_le_length)
qed

lemma ucast_get_le_Cons:
  assumes "8 \<le> LENGTH('a)"
  shows "ucast (get_le (b # bs) :: 'a::len word) = b"
  using assms by (intro bit_word_eqI) (auto simp: bit_simps dest: bit_imp_le_length)

lemma put_get_le:
  "8 * length bs \<le> LENGTH('a) \<Longrightarrow> put_le (length bs) (get_le bs :: 'a::len word) = bs"
proof (induction bs)
  case (Cons b bs)
  then have "8 \<le> LENGTH('a)" by simp
  with Cons drop_bit_get_le_Cons [OF Cons.prems] ucast_get_le_Cons [where 'a = 'a, of b bs]
  show ?case by (simp del: get_le.simps)
qed simp

lemma get_le64_inject:
  "length xs = 8 \<Longrightarrow> length ys = 8 \<Longrightarrow> (get_le xs :: uint64) = get_le ys \<Longrightarrow> xs = ys"
  using put_get_le [of xs, where 'a = 64] put_get_le [of ys, where 'a = 64] by simp

end
