(* ===== verification/XXHash.thy ===== *)
theory XXHash
  imports Bytes
begin

text \<open>
  The hash the series index places its keys with: \<open>Sum64\<close> of the vendored xxhash package,
  from its portable implementation (\<open>xxhash_other.go\<close>; the assembly files compute the same
  function), on the bytes of the key. Each loop that consumes the input slice is a function
  of the accumulators and the remaining bytes.
\<close>

definition prime1 :: uint64 where "prime1 = 11400714785074694791"
definition prime2 :: uint64 where "prime2 = 14029467366897019727"
definition prime3 :: uint64 where "prime3 = 1609587929392839161"
definition prime4 :: uint64 where "prime4 = 9650029242287828579"
definition prime5 :: uint64 where "prime5 = 2870177450012600261"

definition xx_round :: "uint64 \<Rightarrow> uint64 \<Rightarrow> uint64" where
  "xx_round acc input = word_rotl 31 (acc + input * prime2) * prime1"

definition mergeRound :: "uint64 \<Rightarrow> uint64 \<Rightarrow> uint64" where
  "mergeRound acc val = (acc XOR xx_round 0 val) * prime1 + prime4"

type_synonym lanes = "uint64 \<times> uint64 \<times> uint64 \<times> uint64"

definition stripe :: "lanes \<Rightarrow> byte list \<Rightarrow> lanes" where
  "stripe = (\<lambda>(v1, v2, v3, v4) b.
     (xx_round v1 (get_le (take 8 b)),
      xx_round v2 (get_le (take 8 (drop 8 b))),
      xx_round v3 (get_le (take 8 (drop 16 b))),
      xx_round v4 (get_le (take 8 (drop 24 b)))))"

fun stripes :: "lanes \<Rightarrow> byte list \<Rightarrow> lanes \<times> byte list" where
  "stripes v b = (if 32 \<le> length b then stripes (stripe v b) (drop 32 b) else (v, b))"

fun tail8 :: "uint64 \<Rightarrow> byte list \<Rightarrow> uint64 \<times> byte list" where
  "tail8 h b =
     (if 8 \<le> length b
      then tail8 (word_rotl 27 (h XOR xx_round 0 (get_le (take 8 b))) * prime1 + prime4) (drop 8 b)
      else (h, b))"

definition tail4 :: "uint64 \<Rightarrow> byte list \<Rightarrow> uint64 \<times> byte list" where
  "tail4 h b =
     (if 4 \<le> length b
      then (word_rotl 23 (h XOR ucast (get_le (take 4 b) :: uint32) * prime1) * prime2 + prime3, drop 4 b)
      else (h, b))"

fun tail1 :: "uint64 \<Rightarrow> byte list \<Rightarrow> uint64" where
  "tail1 h [] = h"
| "tail1 h (c # b) = tail1 (word_rotl 11 (h XOR ucast c * prime5) * prime1) b"

declare stripes.simps [simp del] tail8.simps [simp del]

definition avalanche :: "uint64 \<Rightarrow> uint64" where
  "avalanche h0 =
     (let h1 = (h0 XOR drop_bit 33 h0) * prime2;
          h2 = (h1 XOR drop_bit 29 h1) * prime3
      in h2 XOR drop_bit 32 h2)"

definition init_lanes :: lanes where
  "init_lanes = (prime1 + prime2, prime2, 0, - prime1)"

definition merge_lanes :: "lanes \<Rightarrow> uint64" where
  "merge_lanes = (\<lambda>(v1, v2, v3, v4).
     mergeRound (mergeRound (mergeRound (mergeRound
       (word_rotl 1 v1 + word_rotl 7 v2 + word_rotl 12 v3 + word_rotl 18 v4) v1) v2) v3) v4)"

definition finish :: "uint64 \<Rightarrow> byte list \<Rightarrow> uint64" where
  "finish h b =
     (case tail8 h b of (h8, b8) \<Rightarrow> case tail4 h8 b8 of (h4, b4) \<Rightarrow> avalanche (tail1 h4 b4))"

definition Sum64 :: "byte list \<Rightarrow> uint64" where
  "Sum64 b =
     (if 32 \<le> length b
      then (case stripes init_lanes b of (v, r) \<Rightarrow> finish (merge_lanes v + of_nat (length b)) r)
      else finish (prime5 + of_nat (length b)) b)"

definition Sum64String :: "string \<Rightarrow> uint64" where
  "Sum64String s = Sum64 (bytes_of s)"

end
