(* ===== verification/SeriesIndex.thy ===== *)
theory SeriesIndex
  imports LabelRules XXHash
begin

text \<open>
  The series index, \<open>internal/series/index.go\<close>: a slice of buckets, each a map from label key
  to series metadata, a key living in the bucket its hash selects. The metadata records are
  never changed once stored, so they are held by value.

  \<open>entry ix key\<close> is what the index maps a key to. \<open>index_inv\<close> says that every stored key is in
  its own bucket under the key of its metadata, and that ids are below the next id and
  distinct; the operations keep it, and \<open>Expand\<close> changes no entry. The locale
  \<open>series_directory\<close> is what the write path relies on.
\<close>

record index =
  buckets :: "(string, series_meta) fmap list"
  ixNextID :: uint64

section \<open>Operations\<close>

definition NewIndex :: "int \<Rightarrow> index" where
  "NewIndex initialBuckets =
     (let n = (if initialBuckets < 1 then 1 else initialBuckets)
      in \<lparr>buckets = replicate (nat n) fmempty, ixNextID = 1\<rparr>)"

definition hash_slot :: "nat \<Rightarrow> string \<Rightarrow> nat" where
  "hash_slot n key = unat (Sum64String key) mod n"

definition bucket :: "index \<Rightarrow> string \<Rightarrow> nat" where
  "bucket ix key = hash_slot (length (buckets ix)) key"

definition Register :: "series_meta \<Rightarrow> index \<Rightarrow> (series_meta \<times> bool) \<times> index" where
  "Register meta ix =
     (let key = LabelsKey meta; b = bucket ix key
      in case fmlookup (buckets ix ! b) key of
           Some existing \<Rightarrow> ((existing, False), ix)
         | None \<Rightarrow>
             (let meta' = meta\<lparr>ID := ixNextID ix\<rparr>
              in ((meta', True),
                  ix\<lparr>ixNextID := ixNextID ix + 1,
                     buckets := (buckets ix)[b := fmupd key meta' (buckets ix ! b)]\<rparr>)))"

definition Lookup :: "index \<Rightarrow> string \<Rightarrow> (string, string) fmap \<Rightarrow> series_meta \<times> bool" where
  "Lookup ix name labels =
     (let key = LabelsKey \<lparr>ID = 0, Name = name, Labels = labels\<rparr>
      in case fmlookup (buckets ix ! bucket ix key) key of
           None \<Rightarrow> (zero_meta, False)
         | Some meta \<Rightarrow> (meta, True))"

definition index_Len :: "index \<Rightarrow> nat" where
  "index_Len ix = sum_list (map fmsize (buckets ix))"

text \<open>
  \<open>Expand\<close> visits every old bucket in slice order and its entries in map order \<open>ks\<close>, one list
  per bucket.
\<close>

definition place :: "(string, series_meta) fmap \<Rightarrow> string \<Rightarrow>
    (string, series_meta) fmap list \<Rightarrow> (string, series_meta) fmap list" where
  "place b key next =
     (case fmlookup b key of
        None \<Rightarrow> next
      | Some meta \<Rightarrow>
          (let slot = hash_slot (length next) key in next[slot := fmupd key meta (next ! slot)]))"

definition move_bucket :: "(string, series_meta) fmap \<times> string list \<Rightarrow>
    (string, series_meta) fmap list \<Rightarrow> (string, series_meta) fmap list" where
  "move_bucket = (\<lambda>(b, ks) next. fold (place b) ks next)"

definition Expand :: "string list list \<Rightarrow> int \<Rightarrow> index \<Rightarrow> err + index" where
  "Expand orders newBuckets ix =
     (if newBuckets \<le> int (length (buckets ix)) then Inl (ErrExpand (length (buckets ix)))
      else Inr (ix\<lparr>buckets :=
             fold move_bucket (zip (buckets ix) orders) (replicate (nat newBuckets) fmempty)\<rparr>))"

definition BucketCount :: "index \<Rightarrow> nat" where
  "BucketCount ix = length (buckets ix)"

text \<open>\<open>MetaByID\<close> scans bucket by bucket, each in map order, and stops at the first match.\<close>

fun scan_bucket :: "(string, series_meta) fmap \<Rightarrow> string list \<Rightarrow> uint64 \<Rightarrow> series_meta option" where
  "scan_bucket b [] sid = None"
| "scan_bucket b (k # ks) sid =
     (case fmlookup b k of
        Some meta \<Rightarrow> (if ID meta = sid then Some meta else scan_bucket b ks sid)
      | None \<Rightarrow> scan_bucket b ks sid)"

fun scan_buckets :: "((string, series_meta) fmap \<times> string list) list \<Rightarrow> uint64 \<Rightarrow> series_meta option"
where
  "scan_buckets [] sid = None"
| "scan_buckets ((b, ks) # bs) sid =
     (case scan_bucket b ks sid of Some meta \<Rightarrow> Some meta | None \<Rightarrow> scan_buckets bs sid)"

definition MetaByID :: "string list list \<Rightarrow> index \<Rightarrow> uint64 \<Rightarrow> series_meta \<times> bool" where
  "MetaByID orders ix sid =
     (case scan_buckets (zip (buckets ix) orders) sid of
        Some meta \<Rightarrow> (meta, True)
      | None \<Rightarrow> (zero_meta, False))"

section \<open>Abstraction and invariant\<close>

definition table_entry :: "(string, series_meta) fmap list \<Rightarrow> string \<Rightarrow> series_meta option" where
  "table_entry bs key = fmlookup (bs ! hash_slot (length bs) key) key"

definition entry :: "index \<Rightarrow> string \<Rightarrow> series_meta option" where
  "entry ix = table_entry (buckets ix)"

definition table_inv :: "(string, series_meta) fmap list \<Rightarrow> bool" where
  "table_inv bs \<longleftrightarrow> bs \<noteq> []
     \<and> (\<forall>i < length bs. fmpred (\<lambda>key _. hash_slot (length bs) key = i) (bs ! i))"

definition index_inv :: "index \<Rightarrow> bool" where
  "index_inv ix \<longleftrightarrow> table_inv (buckets ix)
     \<and> (\<forall>key m. entry ix key = Some m \<longrightarrow> LabelsKey m = key \<and> 0 < ID m \<and> ID m < ixNextID ix)
     \<and> (\<forall>key key' m m'. entry ix key = Some m \<longrightarrow> entry ix key' = Some m' \<longrightarrow> ID m = ID m' \<longrightarrow> key = key')
     \<and> 0 < ixNextID ix"

definition visits_all :: "string list list \<Rightarrow> index \<Rightarrow> bool" where
  "visits_all orders ix \<longleftrightarrow> list_all2 visits orders (buckets ix)"

lemma hash_slot_less [simp]: "0 < n \<Longrightarrow> hash_slot n key < n"
  by (simp add: hash_slot_def)

lemma table_inv_at:
  assumes "table_inv bs" and "i < length bs" and "fmlookup (bs ! i) key = Some m"
  shows "hash_slot (length bs) key = i" and "table_entry bs key = Some m"
proof -
  show "hash_slot (length bs) key = i" using assms by (auto simp: table_inv_def fmpred_iff)
  with assms(3) show "table_entry bs key = Some m" by (simp add: table_entry_def)
qed

lemma index_inv_entry:
  assumes "index_inv ix" and "entry ix key = Some m"
  shows "LabelsKey m = key" and "0 < ID m" and "ID m < ixNextID ix"
  using assms by (auto simp: index_inv_def)

lemma index_inv_ids:
  "index_inv ix \<Longrightarrow> entry ix key = Some m \<Longrightarrow> entry ix key' = Some m' \<Longrightarrow> ID m = ID m' \<Longrightarrow> key = key'"
  by (auto simp: index_inv_def)

lemma table_update:
  assumes "table_inv bs"
  defines "bs' key m \<equiv> bs[hash_slot (length bs) key := fmupd key m (bs ! hash_slot (length bs) key)]"
  shows "table_inv (bs' key m)" and "table_entry (bs' key m) = (table_entry bs)(key \<mapsto> m)"
proof -
  have "0 < length bs" using assms by (simp add: table_inv_def)
  then show "table_inv (bs' key m)"
    using assms(1) by (auto simp: table_inv_def bs'_def nth_list_update)
  show "table_entry (bs' key m) = (table_entry bs)(key \<mapsto> m)"
    using \<open>0 < length bs\<close> by (auto simp: table_entry_def bs'_def nth_list_update fun_eq_iff)
qed

lemma table_empty:
  "0 < n \<Longrightarrow> table_inv (replicate n fmempty)"
  "0 < n \<Longrightarrow> table_entry (replicate n fmempty) = (\<lambda>_. None)"
  by (auto simp: table_inv_def table_entry_def)

lemma NewIndex_inv: "index_inv (NewIndex n)" and NewIndex_entry: "entry (NewIndex n) = (\<lambda>_. None)"
  using table_empty [of "nat (if n < 1 then 1 else n)"]
  by (auto simp: NewIndex_def Let_def index_inv_def entry_def)

section \<open>Register and Lookup\<close>

lemma Register_present:
  "entry ix (LabelsKey m) = Some e \<Longrightarrow> Register m ix = ((e, False), ix)"
  by (simp add: Register_def Let_def bucket_def entry_def table_entry_def)

lemma Register_absent:
  assumes "index_inv ix" and "entry ix (LabelsKey m) = None"
  shows "\<exists>ix'. Register m ix = ((m\<lparr>ID := ixNextID ix\<rparr>, True), ix')
    \<and> entry ix' = (entry ix)(LabelsKey m \<mapsto> m\<lparr>ID := ixNextID ix\<rparr>)
    \<and> table_inv (buckets ix') \<and> ixNextID ix' = ixNextID ix + 1
    \<and> length (buckets ix') = length (buckets ix)"
  using assms table_update [of "buckets ix" "LabelsKey m" "m\<lparr>ID := ixNextID ix\<rparr>"]
  by (auto simp: Register_def Let_def bucket_def entry_def table_entry_def index_inv_def)

lemma LabelsKey_ID [simp]: "LabelsKey (m\<lparr>ID := i\<rparr>) = LabelsKey m"
  by (rule LabelsKey_cong) simp_all

lemma entry_below_next:
  assumes "index_inv ix" and "entry ix key = Some m"
  shows "ID m \<noteq> ixNextID ix"
  using index_inv_entry(3) [OF assms] by simp

lemma Register_inv:
  assumes inv: "index_inv ix" and room: "ixNextID ix + 1 \<noteq> 0"
  shows "index_inv (snd (Register m ix))"
proof (cases "entry ix (LabelsKey m)")
  case (Some e)
  with inv show ?thesis by (simp add: Register_present)
next
  case None
  then obtain ix' where ix': "Register m ix = ((m\<lparr>ID := ixNextID ix\<rparr>, True), ix')"
      "entry ix' = (entry ix)(LabelsKey m \<mapsto> m\<lparr>ID := ixNextID ix\<rparr>)"
      "table_inv (buckets ix')" "ixNextID ix' = ixNextID ix + 1"
    using Register_absent [OF inv] by blast
  have "0 < ixNextID ix" using inv by (simp add: index_inv_def)
  moreover have "ID e < ixNextID ix + 1" if "entry ix k = Some e" for k e
    using index_inv_entry(3) [OF inv that] room by (simp add: less_succ_iff)
  moreover have "0 < ixNextID ix + 1" using room by (simp add: word_gt_0)
  ultimately have "index_inv ix'"
    using ix'(3) room inv entry_below_next [OF inv] index_inv_ids [OF inv]
    unfolding index_inv_def ix'(2,4)
    by (auto simp: less_self_succ index_inv_entry dest: sym)
  then show ?thesis by (simp add: ix'(1))
qed

lemma Lookup_entry:
  "Lookup ix name labels =
     (case entry ix (LabelsKey \<lparr>ID = 0, Name = name, Labels = labels\<rparr>) of
        None \<Rightarrow> (zero_meta, False) | Some m \<Rightarrow> (m, True))"
  by (simp add: Lookup_def Let_def bucket_def entry_def table_entry_def)

lemma LabelsKey_lookup:
  "LabelsKey \<lparr>ID = i, Name = Name m, Labels = Labels m\<rparr> = LabelsKey m"
  by (rule LabelsKey_cong) simp_all

section \<open>Expand\<close>

lemma length_place [simp]: "length (place b key next) = length next"
  by (simp add: place_def Let_def split: option.splits)

lemma place_spec:
  assumes "table_inv bs"
  shows "table_inv (place b key bs)"
    and "table_entry (place b key bs) =
      (table_entry bs)(key := (case fmlookup b key of None \<Rightarrow> table_entry bs key | Some m \<Rightarrow> Some m))"
  using table_update [OF assms] assms
  by (auto simp: place_def Let_def fun_eq_iff split: option.splits)

lemma fold_place_spec:
  assumes "table_inv bs"
  shows "table_inv (fold (place b) ks bs)
    \<and> table_entry (fold (place b) ks bs) =
      (\<lambda>key. if key \<in> set ks \<and> fmlookup b key \<noteq> None then fmlookup b key else table_entry bs key)"
  using assms
proof (induction ks arbitrary: bs)
  case (Cons k ks)
  show ?case
    using Cons.IH [OF place_spec(1) [OF Cons.prems]] place_spec(2) [OF Cons.prems, of b k]
    by (auto simp: fun_eq_iff split: option.splits)
qed simp

lemma move_bucket_spec:
  assumes "table_inv bs" and "visits ks b"
  shows "table_inv (move_bucket (b, ks) bs)
    \<and> table_entry (move_bucket (b, ks) bs) =
      (\<lambda>key. case fmlookup b key of Some m \<Rightarrow> Some m | None \<Rightarrow> table_entry bs key)"
  using fold_place_spec [OF assms(1), of b ks] visits_mem [OF assms(2)]
  by (auto simp: move_bucket_def fun_eq_iff split: option.splits)

definition found_later :: "string \<Rightarrow> (string, series_meta) fmap \<Rightarrow> series_meta option \<Rightarrow> series_meta option" where
  "found_later key b acc = (case fmlookup b key of Some m \<Rightarrow> Some m | None \<Rightarrow> acc)"

lemma fold_move_spec:
  assumes "list_all2 visits orders old" and "table_inv bs"
  shows "table_inv (fold move_bucket (zip old orders) bs)
    \<and> table_entry (fold move_bucket (zip old orders) bs) key
      = fold (found_later key) old (table_entry bs key)"
  using assms
proof (induction orders old arbitrary: bs rule: list_all2_induct)
  case (Cons ks orders b old)
  then show ?case
    using move_bucket_spec [OF Cons.prems Cons.hyps(1)]
    by (simp add: found_later_def)
qed simp

lemma fold_found_later_none:
  "\<forall>b \<in> set bs. fmlookup b key = None \<Longrightarrow> fold (found_later key) bs acc = acc"
  by (induction bs arbitrary: acc) (simp_all add: found_later_def)

lemma fold_found_later_table:
  assumes "table_inv bs"
  shows "fold (found_later key) bs None = table_entry bs key"
proof -
  let ?s = "hash_slot (length bs) key"
  have s: "?s < length bs" using assms by (simp add: table_inv_def)
  have other: "fmlookup (bs ! i) key = None" if "i < length bs" "i \<noteq> ?s" for i
    using table_inv_at(1) [OF assms that(1)] that(2) by (cases "fmlookup (bs ! i) key") auto
  have "\<forall>b \<in> set (take ?s bs). fmlookup b key = None"
    using other by (auto simp: in_set_conv_nth)
  moreover have "\<forall>b \<in> set (drop (Suc ?s) bs). fmlookup b key = None"
    using other by (auto simp: in_set_conv_nth)
  ultimately have "fold (found_later key) (take ?s bs @ bs ! ?s # drop (Suc ?s) bs) None = table_entry bs key"
    by (simp add: fold_found_later_none found_later_def table_entry_def split: option.splits)
  then show ?thesis using s by (simp add: id_take_nth_drop [symmetric])
qed

lemma Expand_spec:
  assumes "index_inv ix" and "visits_all orders ix" and "int (length (buckets ix)) < n"
  shows "\<exists>ix'. Expand orders n ix = Inr ix' \<and> entry ix' = entry ix \<and> index_inv ix'
    \<and> ixNextID ix' = ixNextID ix \<and> length (buckets ix') = nat n"
proof -
  let ?next = "fold move_bucket (zip (buckets ix) orders) (replicate (nat n) fmempty)"
  have pos: "0 < nat n" using assms(3) by simp
  have "table_inv ?next \<and> table_entry ?next key = table_entry (buckets ix) key" for key
    using fold_move_spec [OF _ table_empty(1) [OF pos], of orders "buckets ix" key] assms(1,2)
      table_empty(2) [OF pos] fold_found_later_table [of "buckets ix" key]
    by (simp add: visits_all_def index_inv_def)
  then have tab: "table_inv ?next" "table_entry ?next = table_entry (buckets ix)" by auto
  have len: "length (fold move_bucket zs nx) = length nx" for zs nx
  proof (induction zs arbitrary: nx)
    case (Cons z zs)
    have "length (fold (place b) ks nx) = length nx" for b ks
      by (induction ks arbitrary: nx) simp_all
    with Cons show ?case by (cases z) (simp add: move_bucket_def)
  qed simp
  show ?thesis
    using assms(1,3) tab len by (simp add: Expand_def index_inv_def entry_def)
qed

section \<open>Len and MetaByID\<close>

lemma scan_bucket_Some:
  "scan_bucket b ks sid = Some m \<Longrightarrow> \<exists>k \<in> set ks. fmlookup b k = Some m \<and> ID m = sid"
  by (induction ks) (auto split: option.splits if_splits)

lemma scan_bucket_None:
  "scan_bucket b ks sid = None \<Longrightarrow> k \<in> set ks \<Longrightarrow> fmlookup b k = Some m \<Longrightarrow> ID m \<noteq> sid"
  by (induction ks) (auto split: option.splits if_splits)

lemma scan_buckets_Some:
  assumes "scan_buckets (zip bs orders) sid = Some m" and "list_all2 visits orders bs"
  shows "\<exists>i < length bs. \<exists>k. fmlookup (bs ! i) k = Some m \<and> ID m = sid"
  using assms(2,1)
proof (induction orders bs rule: list_all2_induct)
  case (Cons ks orders b bs)
  show ?case
  proof (cases "scan_bucket b ks sid")
    case None
    with Cons obtain i k where "i < length bs" "fmlookup (bs ! i) k = Some m" "ID m = sid"
      by auto
    then show ?thesis by (intro exI [of _ "Suc i"]) auto
  next
    case (Some m')
    with Cons.prems have "scan_bucket b ks sid = Some m" by simp
    from scan_bucket_Some [OF this] show ?thesis by (intro exI [of _ 0]) auto
  qed
qed simp

lemma scan_buckets_None:
  assumes "scan_buckets (zip bs orders) sid = None" and "list_all2 visits orders bs"
    and "i < length bs" and "fmlookup (bs ! i) k = Some m"
  shows "ID m \<noteq> sid"
  using assms(2,1,3,4)
proof (induction orders bs arbitrary: i rule: list_all2_induct)
  case (Cons ks orders b bs)
  then have none: "scan_bucket b ks sid = None" "scan_buckets (zip bs orders) sid = None"
    by (auto split: option.splits)
  show ?case
  proof (cases i)
    case 0
    with Cons.prems have "fmlookup b k = Some m" by simp
    with visits_mem [OF Cons.hyps(1)] scan_bucket_None [OF none(1)] show ?thesis by blast
  next
    case (Suc j)
    with Cons.prems none(2) Cons.IH [of j] show ?thesis by simp
  qed
qed simp

lemma MetaByID_entry:
  assumes "index_inv ix" and "visits_all orders ix" and "entry ix key = Some m"
  shows "MetaByID orders ix (ID m) = (m, True)"
proof -
  let ?bs = "buckets ix"
  have tab: "table_inv ?bs" using assms(1) by (simp add: index_inv_def)
  let ?s = "hash_slot (length ?bs) key"
  have at: "?s < length ?bs" "fmlookup (?bs ! ?s) key = Some m"
    using tab assms(3) by (simp_all add: table_inv_def entry_def table_entry_def)
  obtain m' where m': "scan_buckets (zip ?bs orders) (ID m) = Some m'"
    using scan_buckets_None [of ?bs orders "ID m" ?s key m] at assms(2)
    by (cases "scan_buckets (zip ?bs orders) (ID m)") (auto simp: visits_all_def)
  then obtain i k where i: "i < length ?bs" "fmlookup (?bs ! i) k = Some m'" "ID m' = ID m"
    using scan_buckets_Some [of ?bs orders "ID m" m'] assms(2) by (auto simp: visits_all_def)
  then have "entry ix k = Some m'" using table_inv_at(2) [OF tab] by (simp add: entry_def)
  then have "m' = m"
    using index_inv_ids [OF assms(1) _ assms(3)] i(3) assms(3) by fastforce
  with m' show ?thesis by (simp add: MetaByID_def)
qed

lemma MetaByID_unknown:
  assumes "index_inv ix" and "visits_all orders ix" and "\<forall>key m. entry ix key = Some m \<longrightarrow> ID m \<noteq> sid"
  shows "MetaByID orders ix sid = (zero_meta, False)"
proof (cases "scan_buckets (zip (buckets ix) orders) sid")
  case (Some m)
  then obtain i k where "i < length (buckets ix)" "fmlookup (buckets ix ! i) k = Some m" "ID m = sid"
    using scan_buckets_Some [of "buckets ix" orders sid m] assms(2) by (auto simp: visits_all_def)
  with assms(1,3) show ?thesis
    using table_inv_at(2) [of "buckets ix" i k m] by (auto simp: index_inv_def entry_def)
qed (simp add: MetaByID_def)

lemma dom_entry_buckets:
  assumes "table_inv bs"
  shows "dom (table_entry bs) = (\<Union>i < length bs. fmdom' (bs ! i))"
proof -
  have "key \<in> dom (table_entry bs) \<longleftrightarrow> (\<exists>i < length bs. key \<in> fmdom' (bs ! i))" for key
  proof
    assume "key \<in> dom (table_entry bs)"
    then show "\<exists>i < length bs. key \<in> fmdom' (bs ! i)"
      using assms by (auto simp: table_entry_def table_inv_def fmlookup_dom'_iff
          intro!: exI [of _ "hash_slot (length bs) key"])
  next
    assume "\<exists>i < length bs. key \<in> fmdom' (bs ! i)"
    then show "key \<in> dom (table_entry bs)"
      using table_inv_at(2) [OF assms] by (auto simp: fmlookup_dom'_iff)
  qed
  then show ?thesis by blast
qed

lemma index_Len_card:
  assumes "index_inv ix"
  shows "index_Len ix = card (dom (entry ix))"
proof -
  let ?bs = "buckets ix"
  have tab: "table_inv ?bs" using assms by (simp add: index_inv_def)
  have "index_Len ix = (\<Sum>i < length ?bs. card (fmdom' (?bs ! i)))"
    by (simp add: index_Len_def sum_list_sum_nth fmsize_def fcard.rep_eq fmdom'_alt_def
        atLeast0LessThan)
  also have "\<dots> = card (\<Union>i < length ?bs. fmdom' (?bs ! i))"
  proof (rule card_UN_disjoint [symmetric])
    have "i = j" if "i < length ?bs" "j < length ?bs" "k \<in> fmdom' (?bs ! i)" "k \<in> fmdom' (?bs ! j)" for i j k
      using that table_inv_at(1) [OF tab] by (metis fmlookup_dom'_iff)
    then show "\<forall>i \<in> {..<length ?bs}. \<forall>j \<in> {..<length ?bs}. i \<noteq> j \<longrightarrow>
        fmdom' (?bs ! i) \<inter> fmdom' (?bs ! j) = {}"
      by blast
  qed simp_all
  finally show ?thesis by (simp add: dom_entry_buckets [OF tab] entry_def)
qed

section \<open>The interface of the index\<close>

locale series_directory =
  fixes dir_entry :: "'i \<Rightarrow> string \<Rightarrow> series_meta option"
    and dir_register :: "series_meta \<Rightarrow> 'i \<Rightarrow> (series_meta \<times> bool) \<times> 'i"
    and dir_inv :: "'i \<Rightarrow> bool"
    and dir_room :: "'i \<Rightarrow> bool"
  assumes register_hit:
      "dir_inv ix \<Longrightarrow> dir_entry ix (LabelsKey m) = Some e \<Longrightarrow> dir_register m ix = ((e, False), ix)"
    and register_miss:
      "dir_inv ix \<Longrightarrow> dir_room ix \<Longrightarrow> dir_entry ix (LabelsKey m) = None \<Longrightarrow>
       \<exists>i ix'. dir_register m ix = ((m\<lparr>ID := i\<rparr>, True), ix') \<and> dir_inv ix'
         \<and> dir_entry ix' = (dir_entry ix)(LabelsKey m \<mapsto> m\<lparr>ID := i\<rparr>)"
    and entry_ids:
      "dir_inv ix \<Longrightarrow> dir_entry ix k = Some e \<Longrightarrow> dir_entry ix k' = Some e' \<Longrightarrow> ID e = ID e' \<Longrightarrow> k = k'"
begin

lemma register_cases:
  assumes "dir_inv ix" "dir_room ix" "dir_register m ix = ((e, c), ix')"
  obtains "dir_entry ix (LabelsKey m) = Some e" "ix' = ix" "\<not> c"
  | "dir_entry ix (LabelsKey m) = None" "c" "dir_inv ix'" "dir_entry ix' = (dir_entry ix)(LabelsKey m \<mapsto> e)"
proof (cases "dir_entry ix (LabelsKey m)")
  case None
  then obtain i jx where jx: "dir_register m ix = ((m\<lparr>ID := i\<rparr>, True), jx)" "dir_inv jx"
      "dir_entry jx = (dir_entry ix)(LabelsKey m \<mapsto> m\<lparr>ID := i\<rparr>)"
    using register_miss [OF assms(1,2)] by blast
  from jx(1) assms(3) have "e = m\<lparr>ID := i\<rparr>" "c" "ix' = jx" by simp_all
  with jx(2,3) None show ?thesis by (intro that(2)) simp_all
next
  case (Some e0)
  then have "dir_register m ix = ((e0, False), ix)" by (rule register_hit [OF assms(1)])
  with assms(3) have "e0 = e" "ix' = ix" "\<not> c" by simp_all
  with Some show ?thesis by (intro that(1)) simp_all
qed

lemma register_stored:
  assumes "dir_inv ix" "dir_room ix" "dir_register m ix = ((e, c), ix')"
  shows "dir_entry ix' (LabelsKey m) = Some e \<and> dir_inv ix'"
  by (rule register_cases [OF assms]) (use assms(1) in simp_all)

lemma register_keeps:
  assumes "dir_inv ix" "dir_room ix" "dir_register m ix = ((e, c), ix')" "dir_entry ix k = Some e0"
  shows "dir_entry ix' k = Some e0"
  by (rule register_cases [OF assms(1-3)]) (use assms(4) in auto)

lemma register_twice:
  assumes "dir_inv ix" "dir_room ix" "dir_register m ix = ((e, c), ix')"
  shows "dir_register m ix' = ((e, False), ix')"
  using register_stored [OF assms] register_hit by blast

lemma register_same_id:
  assumes "dir_inv ix" "dir_room ix" "dir_register m ix = ((e, c), ix')"
    and "dir_room ix'" "dir_register m' ix' = ((e', c'), ix'')"
  shows "ID e = ID e' \<longleftrightarrow> LabelsKey m = LabelsKey m'"
proof -
  note st = register_stored [OF assms(1-3)]
  note st' = register_stored [OF _ assms(4,5)]
  have "dir_inv ix'" using st by blast
  then have in'': "dir_inv ix''" "dir_entry ix'' (LabelsKey m') = Some e'" using st' by blast+
  have "dir_entry ix'' (LabelsKey m) = Some e"
    using register_keeps [OF _ assms(4,5)] st by blast
  with in'' show ?thesis using entry_ids [OF in''(1)] by fastforce
qed

end

interpretation ix: series_directory entry Register index_inv "\<lambda>ix. ixNextID ix + 1 \<noteq> 0"
proof unfold_locales
  fix ix m e
  assume "entry ix (LabelsKey m) = Some e"
  then show "Register m ix = ((e, False), ix)" by (rule Register_present)
next
  fix ix :: index and m
  assume inv: "index_inv ix" and room: "ixNextID ix + 1 \<noteq> 0" and "entry ix (LabelsKey m) = None"
  then obtain ix' where "Register m ix = ((m\<lparr>ID := ixNextID ix\<rparr>, True), ix')"
      "entry ix' = (entry ix)(LabelsKey m \<mapsto> m\<lparr>ID := ixNextID ix\<rparr>)"
    using Register_absent by blast
  moreover from this have "index_inv ix'" using Register_inv [OF inv room, of m] by simp
  ultimately show "\<exists>i ix'. Register m ix = ((m\<lparr>ID := i\<rparr>, True), ix') \<and> index_inv ix'
      \<and> entry ix' = (entry ix)(LabelsKey m \<mapsto> m\<lparr>ID := i\<rparr>)"
    by blast
next
  fix ix k e k' e'
  assume "index_inv ix" "entry ix k = Some e" "entry ix k' = Some e'" "ID e = ID e'"
  then show "k = k'" by (rule index_inv_ids)
qed

section \<open>Properties\<close>

text \<open>
  C35. Two registrations with an expansion of the table between them get the same id exactly
  when the names and the label sets are equal. It holds for names and labels without zero
  bytes, and without equals signs in label names: otherwise two label sets can share a key.
\<close>

theorem series_identity:
  assumes "index_inv ix" and "ixNextID ix + 1 \<noteq> 0" and "Register m ix = ((e, c), ix1)"
    and x: "visits_all orders ix1" "Expand orders n ix1 = Inr ix2"
    and "ixNextID ix2 + 1 \<noteq> 0" and r2: "Register m' ix2 = ((e', c'), ix3)"
    and safe: "key_safe m" "key_safe m'"
  shows "ID e = ID e' \<longleftrightarrow> Name m = Name m' \<and> Labels m = Labels m'"
proof -
  note st = ix.register_stored [OF assms(1-3)]
  then have inv1: "index_inv ix1" by blast
  have "int (length (buckets ix1)) < n" using x(2) by (auto simp: Expand_def split: if_splits)
  from Expand_spec [OF inv1 x(1) this] x(2) have ix2: "entry ix2 = entry ix1" "index_inv ix2" by auto
  have "Register m ix2 = ((e, False), ix2)" using st ix2 by (intro Register_present) simp
  from ix.register_same_id [OF ix2(2) assms(6) this assms(6) r2]
  show ?thesis using LabelsKey_inject [OF safe] LabelsKey_cong [of m m'] by blast
qed

theorem series_identity_witness:
  "\<exists>e c ix1 ix2 e' c' ix3. Register \<lparr>ID = 0, Name = ''cpu'', Labels = fmempty\<rparr> (NewIndex 1) = ((e, c), ix1)
    \<and> Expand (map key_order (buckets ix1)) 8 ix1 = Inr ix2
    \<and> Register \<lparr>ID = 0, Name = ''mem'', Labels = fmempty\<rparr> ix2 = ((e', c'), ix3) \<and> ID e \<noteq> ID e'"
proof -
  let ?m = "\<lparr>ID = 0, Name = ''cpu'', Labels = fmempty\<rparr> :: series_meta"
  let ?m' = "\<lparr>ID = 0, Name = ''mem'', Labels = fmempty\<rparr> :: series_meta"
  obtain ix1 where r: "Register ?m (NewIndex 1) = ((?m\<lparr>ID := 1\<rparr>, True), ix1)"
      "ixNextID ix1 = 2" "length (buckets ix1) = 1"
    using Register_absent [OF NewIndex_inv, of 1 ?m] by (auto simp: NewIndex_entry) (simp add: NewIndex_def)
  have inv1: "index_inv ix1" using Register_inv [OF NewIndex_inv, of 1 ?m] r(1) by (simp add: NewIndex_def)
  have v: "visits_all (map key_order (buckets ix1)) ix1"
    by (simp add: visits_all_def list_all2_conv_all_nth iterates_visits [OF iterates_key_order])
  obtain ix2 where x: "Expand (map key_order (buckets ix1)) 8 ix1 = Inr ix2" "ixNextID ix2 = 2"
    using Expand_spec [OF inv1 v, of 8] r(2,3) by auto
  obtain e' c' ix3 where r2: "Register ?m' ix2 = ((e', c'), ix3)" by (metis prod.collapse)
  have safe: "key_safe ?m" "key_safe ?m'" by (simp_all add: key_safe_def)
  have "ixNextID (NewIndex 1) + 1 \<noteq> 0" by (simp add: NewIndex_def)
  from series_identity [OF NewIndex_inv this r(1) v x(1) _ r2 safe] x(2) r(1) x(1) r2 show ?thesis by auto
qed

end
