(* ===== verification/QueryEngine.thy ===== *)
theory QueryEngine
  imports Windows Memtable Database SeriesIndex "HOL-Library.Product_Lexorder"
begin

text \<open>
  The query engine, \<open>internal/query\<close>: collect the points of a series from the memtable and
  from the blocks of the shards that overlap the range, sort them, and aggregate per bucket.

  \<open>sort.Slice\<close> is not stable, so the order it gives equal points is open: the engine takes
  the sort as an argument and the theorems assume its contract \<open>slice_sort\<close>, a permutation
  ordered by the code's comparison. A block is opened and closed around each read; when the
  read panics the handle stays open, which is why the store is part of the result.
\<close>

datatype agg_func = AggAvg | AggSum | AggMin | AggMax | AggCount | AggDelta

record result =
  resTS :: int64
  resValue :: float64
  resSeriesID :: uint64
  resCount :: nat

section \<open>Collecting\<close>

definition point_less :: "point \<Rightarrow> point \<Rightarrow> bool" where
  "point_less p q =
     (if TS p \<noteq> TS q then TS p <s TS q else SeriesID p < SeriesID q)"

definition slice_sort :: "(point list \<Rightarrow> point list) \<Rightarrow> bool" where
  "slice_sort srt \<longleftrightarrow>
     (\<forall>ps. mset (srt ps) = mset ps \<and> sorted_wrt (\<lambda>p q. \<not> point_less q p) (srt ps))"

fun collect_blocks ::
  "uint64 \<Rightarrow> query_range \<Rightarrow> block_id list \<Rightarrow> store \<Rightarrow> (err + point list) \<times> store" where
  "collect_blocks sid rng [] s = (Inr [], s)"
| "collect_blocks sid rng (bid # bids) s =
     (case Open bid s of
        (Inl e, s1) \<Rightarrow> collect_blocks sid rng bids s1
      | (Inr None, s1) \<Rightarrow> collect_blocks sid rng bids s1
      | (Inr (Some h), s1) \<Rightarrow>
          (case fmlookup (blocks s1) h of
             None \<Rightarrow> collect_blocks sid rng bids s1
           | Some b \<Rightarrow>
               (case Block_Range sid rng b of
                  Inl e \<Rightarrow> (Inl e, s1)
                | Inr pts \<Rightarrow>
                    (case collect_blocks sid rng bids (Close h s1) of
                       (Inl e, s2) \<Rightarrow> (Inl e, s2)
                     | (Inr rest, s2) \<Rightarrow> (Inr (pts @ rest), s2)))))"

definition covering_blocks :: "query_range \<Rightarrow> manager \<Rightarrow> block_id list" where
  "covering_blocks rng mgr = concat (map (\<lambda>i. Shard_Blocks (shards mgr ! i)) (ShardsCovering rng mgr))"

definition query_collect ::
  "(point list \<Rightarrow> point list) \<Rightarrow> uint64 \<Rightarrow> query_range \<Rightarrow> memtable \<Rightarrow> manager \<Rightarrow> store
    \<Rightarrow> (err + point list) \<times> store" where
  "query_collect srt sid rng mem mgr s =
     (case fst (Read sid rng mem) of
        Inl e \<Rightarrow> (Inl e, s)
      | Inr pts \<Rightarrow>
          (case collect_blocks sid rng (covering_blocks rng mgr) s of
             (Inl e, s1) \<Rightarrow> (Inl e, s1)
           | (Inr rest, s1) \<Rightarrow> (Inr (srt (pts @ rest)), s1)))"

section \<open>Aggregating\<close>

record qacc =
  qts :: int64
  qsum :: float64
  qmin :: float64
  qmax :: float64
  qcount :: nat

definition qinit :: "int64 \<Rightarrow> point \<Rightarrow> qacc" where
  "qinit start p = \<lparr>qts = start, qsum = Value p, qmin = Value p, qmax = Value p, qcount = 1\<rparr>"

definition qupd :: "qacc \<Rightarrow> point \<Rightarrow> qacc" where
  "qupd a p =
     (let a1 = a\<lparr>qsum := fadd (qsum a) (Value p)\<rparr>;
          a2 = (if flt (Value p) (qmin a1) then a1\<lparr>qmin := Value p\<rparr> else a1);
          a3 = (if flt (qmax a2) (Value p) then a2\<lparr>qmax := Value p\<rparr> else a2)
      in a3\<lparr>qcount := qcount a3 + 1\<rparr>)"

definition agg_step :: "int64 \<Rightarrow> qacc list \<Rightarrow> point \<Rightarrow> qacc list" where
  "agg_step step ws p =
     (let start = bucket_start step (TS p)
      in if ws = [] \<or> qts (last ws) \<noteq> start then ws @ [qinit start p]
         else butlast ws @ [qupd (last ws) p])"

definition window_value :: "agg_func \<Rightarrow> qacc \<Rightarrow> float64" where
  "window_value agg w =
     (case agg of
        AggSum \<Rightarrow> qsum w
      | AggMin \<Rightarrow> qmin w
      | AggMax \<Rightarrow> qmax w
      | AggCount \<Rightarrow> f_of_nat (qcount w)
      | _ \<Rightarrow> fdiv (qsum w) (f_of_nat (qcount w)))"

definition window_result :: "agg_func \<Rightarrow> qacc \<Rightarrow> result" where
  "window_result agg w =
     \<lparr>resTS = qts w, resValue = window_value agg w, resSeriesID = 0, resCount = qcount w\<rparr>"

definition deltaOf :: "float64 list \<Rightarrow> float64 list" where
  "deltaOf values =
     (case values of
        [] \<Rightarrow> []
      | v # _ \<Rightarrow> v # map (\<lambda>i. fsub (values ! i) (values ! (i - 1))) [1..<length values])"

definition aggregate :: "point list \<Rightarrow> agg_func \<Rightarrow> int64 \<Rightarrow> result list" where
  "aggregate pts agg step0 =
     (let step = effective_step step0;
          windows = foldl (agg_step step) [] pts;
          out = map (window_result agg) windows
      in if agg = AggDelta
         then map2 (\<lambda>r d. r\<lparr>resValue := d\<rparr>) out (deltaOf (map resValue out))
         else out)"

section \<open>Queries\<close>

definition QueryRange ::
  "(point list \<Rightarrow> point list) \<Rightarrow> uint64 \<Rightarrow> query_range \<Rightarrow> agg_func \<Rightarrow> int64
    \<Rightarrow> memtable \<Rightarrow> manager \<Rightarrow> store \<Rightarrow> (err + result list) \<times> store" where
  "QueryRange srt sid rng agg step mem mgr s =
     (case query_collect srt sid rng mem mgr s of
        (Inl e, s1) \<Rightarrow> (Inl e, s1)
      | (Inr pts, s1) \<Rightarrow> (Inr (aggregate pts agg step), s1))"

definition query_SeriesID :: "index \<Rightarrow> string \<Rightarrow> (string, string) fmap \<Rightarrow> err + uint64" where
  "query_SeriesID ix name labels =
     (case Lookup ix name labels of
        (m, ok) \<Rightarrow> if \<not> ok then Inl (ErrUnknownSeries name) else Inr (ID m))"

record multi_result =
  mrSeriesID :: uint64
  mrName :: string
  mrResults :: "result list"

fun collect_all ::
  "(point list \<Rightarrow> point list) \<Rightarrow> query_range \<Rightarrow> memtable \<Rightarrow> manager \<Rightarrow> uint64 list
    \<Rightarrow> (uint64, point list) fmap \<Rightarrow> store \<Rightarrow> (err + (uint64, point list) fmap) \<times> store" where
  "collect_all srt rng mem mgr [] acc s = (Inr acc, s)"
| "collect_all srt rng mem mgr (sid # sids) acc s =
     (case query_collect srt sid rng mem mgr s of
        (Inl e, s1) \<Rightarrow> (Inl e, s1)
      | (Inr pts, s1) \<Rightarrow> collect_all srt rng mem mgr sids (fmupd sid pts acc) s1)"

definition QueryMulti ::
  "(point list \<Rightarrow> point list) \<Rightarrow> string list list \<Rightarrow> index \<Rightarrow> uint64 list \<Rightarrow> query_range \<Rightarrow> agg_func
    \<Rightarrow> int64 \<Rightarrow> memtable \<Rightarrow> manager \<Rightarrow> store \<Rightarrow> (err + multi_result list) \<times> store" where
  "QueryMulti srt orders ix sids rng agg step mem mgr s =
     (case collect_all srt rng mem mgr sids fmempty s of
        (Inl e, s1) \<Rightarrow> (Inl e, s1)
      | (Inr by_series, s1) \<Rightarrow>
          (Inr (map (\<lambda>sid.
             \<lparr>mrSeriesID = sid,
              mrName = (case MetaByID orders ix sid of (m, ok) \<Rightarrow> if ok then Name m else []),
              mrResults = aggregate (series_of by_series sid) agg step\<rparr>) sids), s1))"

record engine_stats =
  es_shards :: nat
  es_blocks :: nat
  es_series :: nat
  es_buffer :: nat

definition EngineStats :: "manager \<Rightarrow> store \<Rightarrow> index \<Rightarrow> memtable \<Rightarrow> engine_stats" where
  "EngineStats mgr s ix mem =
     \<lparr>es_shards = shard_Count mgr, es_blocks = store_Count s, es_series = index_Len ix, es_buffer = Len mem\<rparr>"

section \<open>The aggregation loop\<close>

interpretation qw: window_fold qinit qupd qts agg_step
  by unfold_locales (simp_all add: qinit_def qupd_def agg_step_def Let_def)

definition run_result :: "agg_func \<Rightarrow> int64 \<Rightarrow> point list \<Rightarrow> result" where
  "run_result agg step g = window_result agg (qw.run_acc step g)"

lemma foldl_qupd:
  "qts (foldl qupd a ps) = qts a"
  "qsum (foldl qupd a ps) = foldl fadd (qsum a) (map Value ps)"
  "qcount (foldl qupd a ps) = qcount a + length ps"
  by (induction ps arbitrary: a) (simp_all add: qupd_def Let_def)

lemma run_acc_fields:
  "g \<noteq> [] \<Longrightarrow> qts (qw.run_acc step g) = run_bucket step g"
  "g \<noteq> [] \<Longrightarrow> qsum (qw.run_acc step g) = foldl fadd (Value (hd g)) (map Value (tl g))"
  "g \<noteq> [] \<Longrightarrow> qcount (qw.run_acc step g) = length g"
  by (cases g; simp add: qw.run_acc_def foldl_qupd qinit_def)+

text \<open>The minimum and maximum of a run: one of its values, with no value beyond it.\<close>

lemma fold_min:
  assumes "\<forall>p \<in> set ps. \<not> is_nan (Value p)" and "\<not> is_nan (qmin a)"
  shows "qmin (foldl qupd a ps) \<in> insert (qmin a) (Value ` set ps)
    \<and> (\<forall>v \<in> insert (qmin a) (Value ` set ps). \<not> flt v (qmin (foldl qupd a ps)))"
  using assms
proof (induction ps arbitrary: a)
  case (Cons p ps)
  let ?a = "qupd a p"
  have m: "qmin ?a = (if flt (Value p) (qmin a) then Value p else qmin a)"
    by (simp add: qupd_def Let_def)
  have ih: "qmin (foldl qupd ?a ps) \<in> insert (qmin ?a) (Value ` set ps)"
    "\<forall>v \<in> insert (qmin ?a) (Value ` set ps). \<not> flt v (qmin (foldl qupd ?a ps))"
    using Cons.IH [of ?a] Cons.prems m by auto
  have "\<not> flt v (qmin (foldl qupd ?a ps))" if "v = qmin a \<or> v = Value p" for v
  proof
    assume lt: "flt v (qmin (foldl qupd ?a ps))"
    have "v \<noteq> qmin ?a" using ih(2) lt by auto
    then have "\<not> flt v (qmin ?a)" "\<not> is_nan v" "\<not> is_nan (qmin ?a)"
      using that m Cons.prems flt_trans [of "Value p" "qmin a" "Value p"] by (auto split: if_splits)
    with flt_not_lt_trans [OF _ _ _ lt] ih(2) show False by blast
  qed
  with ih m show ?case by (auto split: if_splits)
qed simp

lemma fold_max:
  assumes "\<forall>p \<in> set ps. \<not> is_nan (Value p)" and "\<not> is_nan (qmax a)"
  shows "qmax (foldl qupd a ps) \<in> insert (qmax a) (Value ` set ps)
    \<and> (\<forall>v \<in> insert (qmax a) (Value ` set ps). \<not> flt (qmax (foldl qupd a ps)) v)"
  using assms
proof (induction ps arbitrary: a)
  case (Cons p ps)
  let ?a = "qupd a p"
  have m: "qmax ?a = (if flt (qmax a) (Value p) then Value p else qmax a)"
    by (simp add: qupd_def Let_def)
  have ih: "qmax (foldl qupd ?a ps) \<in> insert (qmax ?a) (Value ` set ps)"
    "\<forall>v \<in> insert (qmax ?a) (Value ` set ps). \<not> flt (qmax (foldl qupd ?a ps)) v"
    using Cons.IH [of ?a] Cons.prems m by auto
  have "\<not> flt (qmax (foldl qupd ?a ps)) v" if "v = qmax a \<or> v = Value p" for v
  proof
    assume lt: "flt (qmax (foldl qupd ?a ps)) v"
    have "v \<noteq> qmax ?a" using ih(2) lt by auto
    with that m consider "v = Value p" "qmax ?a = qmax a" "\<not> flt (qmax a) (Value p)"
      | "v = qmax a" "qmax ?a = Value p" "flt (qmax a) (Value p)"
      by (auto split: if_splits)
    then have "flt (qmax (foldl qupd ?a ps)) (qmax ?a)"
      by cases (use lt flt_le_trans flt_trans Cons.prems(2) in \<open>metis\<close>)+
    with ih(2) show False by blast
  qed
  with ih m show ?case by (auto split: if_splits)
qed simp

lemma run_min_max:
  assumes "g \<noteq> []" and "\<forall>p \<in> set g. \<not> is_nan (Value p)"
  shows "qmin (qw.run_acc step g) \<in> Value ` set g
      \<and> (\<forall>p \<in> set g. \<not> flt (Value p) (qmin (qw.run_acc step g)))"
    and "qmax (qw.run_acc step g) \<in> Value ` set g
      \<and> (\<forall>p \<in> set g. \<not> flt (qmax (qw.run_acc step g)) (Value p))"
proof -
  obtain p ps where g: "g = p # ps" using assms(1) by (cases g) auto
  have init: "qmin (qinit b p) = Value p" "qmax (qinit b p) = Value p" for b by (simp_all add: qinit_def)
  show "qmin (qw.run_acc step g) \<in> Value ` set g
      \<and> (\<forall>p \<in> set g. \<not> flt (Value p) (qmin (qw.run_acc step g)))"
    using fold_min [of ps "qinit (run_bucket step g) p"] assms(2) by (simp add: qw.run_acc_def g init)
  show "qmax (qw.run_acc step g) \<in> Value ` set g
      \<and> (\<forall>p \<in> set g. \<not> flt (qmax (qw.run_acc step g)) (Value p))"
    using fold_max [of ps "qinit (run_bucket step g) p"] assms(2) by (simp add: qw.run_acc_def g init)
qed

lemma aggregate_plain:
  "agg \<noteq> AggDelta \<Longrightarrow>
   aggregate pts agg step = map (run_result agg (effective_step step)) (runs (effective_step step) pts)"
  by (simp add: aggregate_def qw.fold_runs run_result_def [abs_def] comp_def Let_def)

lemma length_deltaOf [simp]: "length (deltaOf vs) = length vs"
  by (cases vs) (auto simp: deltaOf_def Suc_le_eq)

lemma nth_deltaOf:
  "i < length vs \<Longrightarrow> deltaOf vs ! i = (if i = 0 then vs ! 0 else fsub (vs ! i) (vs ! (i - 1)))"
  by (cases vs; cases i) (auto simp: deltaOf_def simp del: upt_Suc)

lemma aggregate_delta:
  "aggregate pts AggDelta step =
     map2 (\<lambda>r d. r\<lparr>resValue := d\<rparr>) (aggregate pts AggAvg step)
       (deltaOf (map resValue (aggregate pts AggAvg step)))"
proof -
  have r: "window_result AggDelta w = window_result AggAvg w" for w
    by (simp add: window_result_def window_value_def)
  show ?thesis
    by (simp add: aggregate_plain) (simp add: aggregate_def qw.fold_runs run_result_def [abs_def] comp_def Let_def r)
qed

lemma run_result_fields:
  assumes "g \<noteq> []"
  shows "resTS (run_result agg step g) = run_bucket step g"
    and "resCount (run_result agg step g) = length g"
  by (simp_all add: run_result_def window_result_def run_acc_fields [OF assms])

lemma aggregate_frame:
  "map resTS (aggregate pts agg step) = map (run_bucket (effective_step step)) (runs (effective_step step) pts)"
  "map resCount (aggregate pts agg step) = map length (runs (effective_step step) pts)"
proof -
  let ?s = "effective_step step"
  have plain: "map resTS (aggregate pts a step) = map (run_bucket ?s) (runs ?s pts)"
    "map resCount (aggregate pts a step) = map length (runs ?s pts)" if "a \<noteq> AggDelta" for a
    using runs_nonempty by (auto simp: aggregate_plain [OF that] run_result_fields)
  have zip: "map resTS (map2 (\<lambda>r d. r\<lparr>resValue := d\<rparr>) rs ds) = map resTS rs"
    "map resCount (map2 (\<lambda>r d. r\<lparr>resValue := d\<rparr>) rs ds) = map resCount rs"
    if "length rs = length ds" for rs :: "result list" and ds
    using that by (induction rs ds rule: list_induct2) simp_all
  show "map resTS (aggregate pts agg step) = map (run_bucket ?s) (runs ?s pts)"
    "map resCount (aggregate pts agg step) = map length (runs ?s pts)"
    using plain zip by (cases "agg = AggDelta"; simp add: aggregate_delta)+
qed

section \<open>The points a query collects\<close>

definition blocks_sorted :: "store \<Rightarrow> bool" where
  "blocks_sorted s \<longleftrightarrow> fmpred (\<lambda>_ b. fmpred (\<lambda>_ pts. time_sorted pts) (bByID b)) (blocks s)"

definition block_points :: "uint64 \<Rightarrow> query_range \<Rightarrow> store \<Rightarrow> block_id \<Rightarrow> point list" where
  "block_points sid rng s bid =
     (case readable s bid of None \<Rightarrow> [] | Some m \<Rightarrow> filter (in_range rng) (series_of m sid))"

lemma blocks_sorted_at:
  "blocks_sorted s \<Longrightarrow> fmlookup (blocks s) bid = Some b \<Longrightarrow> time_sorted (series_of (bByID b) sid)"
  by (cases "fmlookup (bByID b) sid")
     (auto simp: blocks_sorted_def fmpred_iff series_of_def time_sorted_def)

lemma collect_blocks_spec:
  assumes "blocks_sorted s" and "Start rng \<le>s End rng"
  shows "collect_blocks sid rng bids s = (Inr (concat (map (block_points sid rng s) bids)), s)"
proof (induction bids)
  case (Cons bid bids)
  show ?case
  proof (cases rule: Open_cases [of s bid])
    case (opened b)
    let ?s1 = "on_block bid (\<lambda>b. b\<lparr>bRefs := bRefs b + 1\<rparr>) s"
    have at: "fmlookup (blocks ?s1) bid = Some (b\<lparr>bRefs := bRefs b + 1\<rparr>)"
      using opened(1) by (simp add: on_block_lookup)
    have cl: "Close bid ?s1 = s" using Open_Close [OF opened(3)] by simp
    have "Block_Range sid rng (b\<lparr>bRefs := bRefs b + 1\<rparr>) = Inr (filter (in_range rng) (series_of (bByID b) sid))"
      using Block_Range_sorted [of "b\<lparr>bRefs := bRefs b + 1\<rparr>" sid rng] blocks_sorted_at [OF assms(1) opened(1)] assms(2)
      by simp
    then show ?thesis
      using opened at cl Cons by (simp add: block_points_def readable_def)
  qed (use Cons in \<open>simp_all add: block_points_def readable_def\<close>)
qed simp

definition matching_points :: "uint64 \<Rightarrow> query_range \<Rightarrow> memtable \<Rightarrow> manager \<Rightarrow> store \<Rightarrow> point list" where
  "matching_points sid rng mem mgr s =
     filter (in_range rng) (series_of (byID (current mem)) sid)
     @ concat (map (block_points sid rng s) (covering_blocks rng mgr))"

lemma query_collect_spec:
  assumes "mem_inv mem" and "blocks_sorted s" and "Start rng \<le>s End rng"
  shows "query_collect srt sid rng mem mgr s = (Inr (srt (matching_points sid rng mem mgr s)), s)"
  by (simp add: query_collect_def Read_range [OF assms(1,3)] collect_blocks_spec [OF assms(2,3)]
      matching_points_def)

lemma QueryRange_value:
  assumes "mem_inv mem" and "blocks_sorted s" and "Start rng \<le>s End rng"
  shows "QueryRange srt sid rng agg step mem mgr s =
    (Inr (aggregate (srt (matching_points sid rng mem mgr s)) agg step), s)"
  by (simp add: QueryRange_def query_collect_spec [OF assms])

lemma slice_sort_time_sorted:
  assumes "slice_sort srt"
  shows "time_sorted (srt ps)"
proof -
  have "sorted_wrt (\<lambda>p q. \<not> point_less q p) (srt ps)" using assms by (simp add: slice_sort_def)
  then show ?thesis
    unfolding time_sorted_def
    by (rule sorted_wrt_mono_rel [rotated]) (auto simp: point_less_def go_int split: if_splits)
qed

lemma collect_blocks_panic:
  assumes "fmlookup (blocks s) bid = Some b" and "\<not> bArchived b"
    and "time_sorted (series_of (bByID b) sid)" and "p \<in> set (series_of (bByID b) sid)"
    and "End rng \<le>s TS p" and "TS p <s Start rng"
  shows "collect_blocks sid rng (bid # bids) s =
    (Inl PanicMakeslice, on_block bid (\<lambda>b. b\<lparr>bRefs := bRefs b + 1\<rparr>) s)"
proof (cases rule: Open_cases [of s bid])
  case (opened b')
  moreover have "Block_Range sid rng (b\<lparr>bRefs := bRefs b + 1\<rparr>) = Inl PanicMakeslice"
    by (rule Block_Range_panic) (use assms in simp_all)
  ultimately show ?thesis using assms(1) by (simp add: on_block_lookup)
qed (use assms in simp_all)

lemma collect_all_spec:
  assumes "mem_inv mem" and "blocks_sorted s" and "Start rng \<le>s End rng"
  shows "\<exists>acc'. collect_all srt rng mem mgr sids acc s = (Inr acc', s)
    \<and> (\<forall>sid. fmlookup acc' sid =
        (if sid \<in> set sids then Some (srt (matching_points sid rng mem mgr s)) else fmlookup acc sid))"
proof (induction sids arbitrary: acc)
  case (Cons sid sids)
  from Cons [of "fmupd sid (srt (matching_points sid rng mem mgr s)) acc"] show ?case
    by (auto simp: query_collect_spec [OF assms])
qed simp

section \<open>An admissible sort and a query to evaluate\<close>

definition point_sort :: "point list \<Rightarrow> point list" where
  "point_sort = sort_key (\<lambda>p. (sint (TS p), uint (SeriesID p)))"

lemma slice_sort_point_sort: "slice_sort point_sort"
proof -
  let ?f = "\<lambda>p. (sint (TS p), uint (SeriesID p))"
  have "sorted_wrt (\<lambda>p q. ?f p \<le> ?f q) (point_sort ps)" for ps
    using sorted_sort_key [of ?f ps] by (simp add: point_sort_def sorted_wrt_map)
  then have "sorted_wrt (\<lambda>p q. \<not> point_less q p) (point_sort ps)" for ps
    by (rule sorted_wrt_mono_rel [rotated])
       (auto simp: point_less_def go_int less_eq_prod_def word_less_def sint64_inject [symmetric])
  then show ?thesis by (simp add: slice_sort_def point_sort_def)
qed

definition demo_shards :: manager where
  "demo_shards = on_shard 0 (AddBlock 1) demo_manager"

lemma demo_query_facts:
  "mem_inv NewMem" "blocks_sorted demo_store" "fst (Read 7 rng NewMem) = Inr []"
  "covering_blocks \<lparr>Start = 60, End = 10\<rparr> demo_shards = [1]"
  "covering_blocks \<lparr>Start = 0, End = 60\<rparr> demo_shards = [1]"
proof -
  have only: "b = demo_block" if "fmlookup (blocks demo_store) k = Some b" for k b
    using that demo_facts(5) demo_facts(6) [of k] by (cases "k = 1") auto
  have "fmpred (\<lambda>_ pts. time_sorted pts) (bByID demo_block)"
    by (auto simp: demo_block_def fmpred_iff three_points_sorted split: if_splits)
  with only show "blocks_sorted demo_store" unfolding blocks_sorted_def fmpred_iff by blast
  show "mem_inv NewMem" by (rule NewMem_inv)
qed (simp_all add: Read_def Latest_def NewMem_def empty_snapshot_def mem_lb_def Let_def
    sort_search_def search_loop_stop go_slice_def covering_blocks_def demo_shards_def demo_manager_def new_shard_def on_shard_def AddBlock_def
    ShardsCovering_def Shard_Blocks_def go_int)

lemma demo_runs: "runs (effective_step 60) three_points = [take 2 three_points, drop 2 three_points]"
proof -
  have "bucket_start 60 5 = 0" "bucket_start 60 20 = 0" "bucket_start 60 65 = 60"
    by (simp_all add: bucket_start_def go_rem_def signed_modulo_int_def)
  moreover have "effective_step 60 = 60" by (simp add: effective_step_def go_int)
  ultimately show ?thesis by (simp add: three_points_def)
qed

section \<open>Properties\<close>

text \<open>
  C19. For a range that does not run backwards, \<open>QueryRange\<close> aggregates exactly the points of
  the series in the range that the memtable holds and that the readable blocks of the
  overlapping shards hold, and leaves every block's reader count as it was.
\<close>

theorem QueryRange_result:
  assumes "mem_inv mem" and "blocks_sorted s" and "Start rng \<le>s End rng"
  shows "QueryRange srt sid rng agg step mem mgr s =
    (Inr (aggregate (srt (matching_points sid rng mem mgr s)) agg step), s)"
  by (rule QueryRange_value [OF assms])

theorem QueryRange_result_witness:
  "QueryRange point_sort 7 \<lparr>Start = 0, End = 60\<rparr> AggSum 10 NewMem demo_shards demo_store =
    (Inr (aggregate (point_sort (matching_points 7 \<lparr>Start = 0, End = 60\<rparr> NewMem demo_shards demo_store)) AggSum 10),
     demo_store)
   \<and> matching_points 7 \<lparr>Start = 0, End = 60\<rparr> NewMem demo_shards demo_store = take 2 three_points"
proof -
  have "series_of (byID (current NewMem)) 7 = []" by (simp add: NewMem_def empty_snapshot_def)
  then have "matching_points 7 \<lparr>Start = 0, End = 60\<rparr> NewMem demo_shards demo_store = take 2 three_points"
    by (simp add: matching_points_def demo_query_facts block_points_def demo_reading)
       (simp add: three_points_def in_range_def go_int)
  then show ?thesis
    using QueryRange_result [of NewMem demo_store "\<lparr>Start = 0, End = 60\<rparr>" point_sort 7 AggSum 10 demo_shards]
    by (simp add: demo_query_facts go_int)
qed

text \<open>
  \<open>QueryMulti\<close> answers every series as \<open>QueryRange\<close> would, in the order asked, with the
  name the index knows it by.
\<close>

theorem QueryMulti_result:
  assumes "mem_inv mem" and "blocks_sorted s" and "Start rng \<le>s End rng"
  shows "QueryMulti srt orders ix sids rng agg step mem mgr s =
    (Inr (map (\<lambda>sid. \<lparr>mrSeriesID = sid,
        mrName = (case MetaByID orders ix sid of (m, ok) \<Rightarrow> if ok then Name m else []),
        mrResults = aggregate (srt (matching_points sid rng mem mgr s)) agg step\<rparr>) sids), s)"
proof -
  obtain acc where "collect_all srt rng mem mgr sids fmempty s = (Inr acc, s)"
    "\<forall>sid \<in> set sids. series_of acc sid = srt (matching_points sid rng mem mgr s)"
    using collect_all_spec [OF assms, of srt mgr sids fmempty] by (auto simp: series_of_def)
  then show ?thesis by (simp add: QueryMulti_def)
qed

theorem QueryMulti_result_witness:
  "\<exists>rs. QueryMulti point_sort [] (NewIndex 0) [7, 9] \<lparr>Start = 0, End = 60\<rparr> AggSum 10 NewMem demo_shards demo_store
     = (Inr rs, demo_store) \<and> map mrSeriesID rs = [7, 9]"
  using QueryMulti_result [of NewMem demo_store "\<lparr>Start = 0, End = 60\<rparr>" point_sort "[]" "NewIndex 0" "[7, 9]"
      AggSum 10 demo_shards]
  by (simp add: demo_query_facts go_int)

text \<open>
  The aggregation has one result per window that holds a point, in ascending order of
  window start, and the counts add up to the number of points: no point is dropped or counted
  twice, whatever the aggregation function.
\<close>

theorem aggregate_windows:
  assumes "slice_sort srt"
  shows "sorted_wrt (\<lambda>a b. a <s b) (map resTS (aggregate (srt pts) agg step))
    \<and> set (map resTS (aggregate (srt pts) agg step))
        = (\<lambda>p. bucket_start (effective_step step) (TS p)) ` set pts
    \<and> sum_list (map resCount (aggregate (srt pts) agg step)) = length pts"
proof -
  have m: "mset (srt pts) = mset pts" using assms by (simp add: slice_sort_def)
  have "sorted_wrt (\<lambda>a b. a <s b) (map (run_bucket (effective_step step)) (runs (effective_step step) (srt pts)))"
    using runs_ascending [OF effective_step_pos slice_sort_time_sorted [OF assms], of step pts]
    by (simp add: sorted_wrt_map go_int)
  then show ?thesis
    using mset_eq_length [OF m] mset_eq_setD [OF m]
    by (simp only: aggregate_frame fold_points_length set_map set_runs_buckets)
qed

theorem aggregate_windows_witness:
  "sum_list (map resCount (aggregate (point_sort three_points) AggMax 60)) = 3"
  using aggregate_windows [OF slice_sort_point_sort, of three_points AggMax 60]
  by (simp add: three_points_def)

text \<open>
  C20. Over values that are not NaN, each window's minimum is one of its values and no value is
  below it, and its maximum is one of its values and none is above it.
\<close>

theorem aggregate_min_max:
  assumes "list_all (\<lambda>p. \<not> is_nan (Value p)) pts" and "i < length (runs (effective_step step) pts)"
    and "g = runs (effective_step step) pts ! i"
  shows "resValue (aggregate pts AggMin step ! i) \<in> Value ` set g
    \<and> list_all (\<lambda>p. \<not> flt (Value p) (resValue (aggregate pts AggMin step ! i))) g
    \<and> resValue (aggregate pts AggMax step ! i) \<in> Value ` set g
    \<and> list_all (\<lambda>p. \<not> flt (resValue (aggregate pts AggMax step ! i)) (Value p)) g"
proof -
  have g: "g \<in> set (runs (effective_step step) pts)" using assms(2,3) by simp
  then have "set g \<subseteq> set pts" using concat_runs [of "effective_step step" pts] by (metis UN_upper set_concat)
  then have "\<forall>p \<in> set g. \<not> is_nan (Value p)" using assms(1) by (auto simp: list_all_iff)
  from run_min_max [OF runs_nonempty [OF g] this, of "effective_step step"] assms(2,3) show ?thesis
    by (simp add: aggregate_plain run_result_def window_result_def window_value_def list_all_iff)
qed

theorem aggregate_min_max_witness:
  "resValue (aggregate three_points AggMin 60 ! 0) \<in> {0x3FF0000000000000, 0x4008000000000000}"
proof -
  have "list_all (\<lambda>p. \<not> is_nan (Value p)) three_points"
    by (simp add: three_points_def is_nan_def fmag_def inf_mag_def)
  then have "resValue (aggregate three_points AggMin 60 ! 0) \<in> Value ` set (take 2 three_points)"
    by (rule aggregate_min_max [THEN conjunct1]) (simp_all add: demo_runs)
  also have "Value ` set (take 2 three_points) = {0x3FF0000000000000, 0x4008000000000000}"
    by (simp add: three_points_def)
  finally show ?thesis .
qed

text \<open>
  C21. \<open>AggDelta\<close> gives the first window its mean and every later window its mean minus the one
  before it; \<open>AggSum\<close> and \<open>AggCount\<close> are the sum in time order and the count of the window.
\<close>

theorem aggregate_values:
  assumes "i < length (runs (effective_step step) pts)" and "g = runs (effective_step step) pts ! i"
  shows "resValue (aggregate pts AggSum step ! i) = foldl fadd (Value (hd g)) (map Value (tl g))
    \<and> resValue (aggregate pts AggCount step ! i) = f_of_nat (length g)
    \<and> resValue (aggregate pts AggAvg step ! i) =
        fdiv (foldl fadd (Value (hd g)) (map Value (tl g))) (f_of_nat (length g))
    \<and> resValue (aggregate pts AggDelta step ! i) =
        (if i = 0 then resValue (aggregate pts AggAvg step ! 0)
         else fsub (resValue (aggregate pts AggAvg step ! i)) (resValue (aggregate pts AggAvg step ! (i - 1))))"
proof -
  have "g \<noteq> []" using assms runs_nonempty by (metis nth_mem)
  note f = run_acc_fields [OF this, of "effective_step step"]
  have len: "length (aggregate pts AggAvg step) = length (runs (effective_step step) pts)"
    by (simp add: aggregate_plain)
  show ?thesis
    using assms f len
    by (simp add: aggregate_delta nth_deltaOf)
       (auto simp: aggregate_plain run_result_def window_result_def window_value_def)
qed

theorem aggregate_values_witness:
  "resValue (aggregate three_points AggDelta 60 ! 1) =
    fsub (resValue (aggregate three_points AggAvg 60 ! 1)) (resValue (aggregate three_points AggAvg 60 ! 0))"
proof -
  have "1 < length (runs (effective_step 60) three_points)"
    "drop 2 three_points = runs (effective_step 60) three_points ! 1"
    by (simp_all add: demo_runs)
  from aggregate_values [OF this] show ?thesis by (simp only: one_neq_zero if_False diff_self_eq_0)
qed

text \<open>
  C22. A backwards range that has a stored point between its ends makes the block's \<open>Range\<close>
  panic, and the panic leaves the handle open: the block's reader count stays one higher.
\<close>

theorem query_backwards_leaks:
  assumes "fst (Read sid rng mem) = Inr pts" and "covering_blocks rng mgr = bid # bids"
    and "fmlookup (blocks s) bid = Some b" and "\<not> bArchived b"
    and "time_sorted (series_of (bByID b) sid)" and "p \<in> set (series_of (bByID b) sid)"
    and "End rng \<le>s TS p" and "TS p <s Start rng"
  shows "QueryRange srt sid rng agg step mem mgr s =
    (Inl PanicMakeslice, on_block bid (\<lambda>b. b\<lparr>bRefs := bRefs b + 1\<rparr>) s)"
  by (simp add: QueryRange_def query_collect_def assms(1,2) collect_blocks_panic [OF assms(3-8)]
      del: collect_blocks.simps)

theorem query_backwards_leaks_witness:
  "QueryRange point_sort 7 \<lparr>Start = 60, End = 10\<rparr> AggSum 10 NewMem demo_shards demo_store =
    (Inl PanicMakeslice, on_block 1 (\<lambda>b. b\<lparr>bRefs := bRefs b + 1\<rparr>) demo_store)"
  by (rule query_backwards_leaks [where pts = "[]" and bids = "[]" and b = demo_block
        and p = "\<lparr>TS = 20, Value = 0x4008000000000000, SeriesID = 7\<rparr>"])
     (simp_all add: demo_query_facts demo_facts,
      simp_all add: demo_block_def three_points_sorted, simp_all add: three_points_def go_int)

end
