(* ===== verification/WalCodec.thy ===== *)
theory WalCodec
  imports Bytes Model
begin

text \<open>
  The records of the write-ahead log on disk, \<open>internal/wal/crc.go\<close> and the codec part of
  \<open>internal/wal/wal.go\<close>. A record is 32 bytes of little-endian fields, a 4-byte CRC-32C and a
  newline. Files are read back with a line scanner (\<open>bufio.Scanner\<close> with \<open>ScanLines\<close> and a
  token limit of one MiB): a line is cut at every newline byte, loses one trailing carriage
  return, and an over-long line ends the scan with an error.

  The framing is textual but the fields are binary, so a record whose 36 bytes contain a
  newline, or end in a carriage return, is cut or shortened and skipped by the reader.
  \<open>frame_safe\<close> names the others; the locale \<open>line_codec\<close> shows that a scan returns exactly
  those.
\<close>

unbundle bit_operations_syntax

section \<open>CRC-32C\<close>

definition crc_poly :: uint32 where
  "crc_poly = 0x82F63B78"

definition crc_bit :: "uint32 \<Rightarrow> uint32" where
  "crc_bit c = (if bit c 0 then drop_bit 1 c XOR crc_poly else drop_bit 1 c)"

definition crc_byte :: "byte \<Rightarrow> uint32 \<Rightarrow> uint32" where
  "crc_byte b c = (crc_bit ^^ 8) (c XOR ucast b)"

definition checksum :: "byte list \<Rightarrow> uint32" where
  "checksum payload = NOT (fold crc_byte payload 0xFFFFFFFF)"

section \<open>Records\<close>

record wal_record =
  rSeq :: uint64
  rSeriesID :: uint64
  rTS :: int64
  rValue :: float64

definition recordSize :: nat where "recordSize = 32"
definition crcSize :: nat where "crcSize = 4"

definition appendChecksum :: "byte list \<Rightarrow> byte list" where
  "appendChecksum payload = payload @ put_le crcSize (checksum payload)"

definition verifyChecksum :: "byte list \<Rightarrow> bool" where
  "verifyChecksum record =
     (if length record < recordSize + crcSize then False
      else checksum (take recordSize record) = get_le (take crcSize (drop recordSize record)))"

definition payload :: "wal_record \<Rightarrow> byte list" where
  "payload rec = put_le 8 (rSeq rec) @ put_le 8 (rSeriesID rec) @ put_le 8 (rTS rec) @ put_le 8 (rValue rec)"

definition encodeRecord :: "wal_record \<Rightarrow> byte list" where
  "encodeRecord rec = appendChecksum (payload rec) @ [0x0A]"

definition decode_line :: "byte list \<Rightarrow> wal_record" where
  "decode_line line =
     \<lparr>rSeq = get_le (take 8 line),
      rSeriesID = get_le (take 8 (drop 8 line)),
      rTS = get_le (take 8 (drop 16 line)),
      rValue = get_le (take 8 (drop 24 line))\<rparr>"

section \<open>The line scanner\<close>

definition max_token :: nat where
  "max_token = 1024 * 1024"

definition drop_cr :: "byte list \<Rightarrow> byte list" where
  "drop_cr line = (if line \<noteq> [] \<and> last line = 0x0D then butlast line else line)"

function scan_lines :: "byte list \<Rightarrow> byte list list \<times> bool" where
  "scan_lines bs =
     (if bs = [] then ([], False)
      else (let line = takeWhile (\<lambda>b. b \<noteq> 0x0A) bs; rest = dropWhile (\<lambda>b. b \<noteq> 0x0A) bs
            in if max_token \<le> length line then ([], True)
               else if rest = [] then ([drop_cr line], False)
               else (case scan_lines (tl rest) of (ls, e) \<Rightarrow> (drop_cr line # ls, e))))"
  by pat_completeness auto
termination
proof (relation "measure length", simp, simp, goal_cases)
  case (1 bs)
  then show ?case
    using length_dropWhile_le [of "\<lambda>b. b \<noteq> 0x0A" bs]
    by (cases "dropWhile (\<lambda>b. b \<noteq> 0x0A) bs") auto
qed

declare scan_lines.simps [simp del]

text \<open>
  \<open>scanRecords\<close> hands every intact record with a sequence number from \<open>from\<close> on to the callback,
  which threads a state and may stop the scan with an error.
\<close>

fun scan_loop ::
  "uint64 \<Rightarrow> (wal_record \<Rightarrow> 's \<Rightarrow> err option \<times> 's) \<Rightarrow> byte list list \<Rightarrow> 's \<Rightarrow> err option \<times> 's"
where
  "scan_loop from fn [] s = (None, s)"
| "scan_loop from fn (line # ls) s =
     (if length line < recordSize + crcSize then scan_loop from fn ls s
      else if \<not> verifyChecksum line then scan_loop from fn ls s
      else (let rec = decode_line line
            in if rSeq rec < from then scan_loop from fn ls s
               else (case fn rec s of
                       (Some e, s') \<Rightarrow> (Some e, s')
                     | (None, s') \<Rightarrow> scan_loop from fn ls s')))"

definition scanRecords ::
  "byte list \<Rightarrow> uint64 \<Rightarrow> (wal_record \<Rightarrow> 's \<Rightarrow> err option \<times> 's) \<Rightarrow> 's \<Rightarrow> err option \<times> 's" where
  "scanRecords bs from fn s =
     (case scan_lines bs of (ls, too_long) \<Rightarrow>
        case scan_loop from fn ls s of
          (Some e, s') \<Rightarrow> (Some e, s')
        | (None, s') \<Rightarrow> (if too_long then Some ErrTooLong else None, s'))"

section \<open>Codec round trip\<close>

lemma length_payload [simp]: "length (payload rec) = 32"
  by (simp add: payload_def)

lemma decode_payload: "decode_line (payload rec @ xs) = rec"
  by (simp add: decode_line_def payload_def get_put_le_full)

lemma verify_append: "verifyChecksum (appendChecksum (payload rec))"
  by (simp add: verifyChecksum_def appendChecksum_def recordSize_def crcSize_def get_put_le_full)

lemma length_body [simp]: "length (appendChecksum (payload rec)) = 36"
  by (simp add: appendChecksum_def crcSize_def)

lemma length_encodeRecord [simp]: "length (encodeRecord rec) = 37"
  by (simp add: encodeRecord_def)

lemma decode_body: "decode_line (appendChecksum (payload rec)) = rec"
  by (simp add: appendChecksum_def decode_payload)

section \<open>Lines\<close>

definition newline_free :: "byte list \<Rightarrow> bool" where
  "newline_free l \<longleftrightarrow> 0x0A \<notin> set l"

lemma scan_lines_newline:
  assumes "newline_free l" and "length l < max_token"
  shows "scan_lines (l @ 0x0A # rest) =
    (drop_cr l # fst (scan_lines rest), snd (scan_lines rest))"
proof -
  have "takeWhile (\<lambda>b. b \<noteq> 0x0A) (l @ 0x0A # rest) = l"
    "dropWhile (\<lambda>b. b \<noteq> 0x0A) (l @ 0x0A # rest) = 0x0A # rest"
    using assms(1) by (induction l) (auto simp: newline_free_def)
  with assms(2) show ?thesis
    by (subst scan_lines.simps) (simp add: split_beta)
qed

lemma length_drop_cr: "length (drop_cr l) \<le> length l"
  by (simp add: drop_cr_def)

text \<open>
  A block of bytes followed by a newline contributes its own line when it holds no newline,
  and otherwise only lines shorter than itself; the rest is scanned as before.
\<close>

lemma scan_lines_block:
  assumes "length b < max_token"
  shows "\<exists>ls. scan_lines (b @ 0x0A # rest) = (ls @ fst (scan_lines rest), snd (scan_lines rest))
    \<and> (newline_free b \<longrightarrow> ls = [drop_cr b])
    \<and> (\<not> newline_free b \<longrightarrow> (\<forall>l \<in> set ls. length l < length b))"
  using assms
proof (induction b rule: length_induct)
  case (1 b)
  show ?case
  proof (cases "newline_free b")
    case True
    with scan_lines_newline [OF this "1.prems"] show ?thesis by auto
  next
    case False
    then obtain x y where b: "b = x @ 0x0A # y" and x: "newline_free x"
      by (metis newline_free_def split_list_first)
    from b "1.prems" have ly: "length y < length b" "length y < max_token" "length x < max_token" by auto
    from "1.IH" ly obtain ls where
      ls: "scan_lines (y @ 0x0A # rest) = (ls @ fst (scan_lines rest), snd (scan_lines rest))"
        "newline_free y \<longrightarrow> ls = [drop_cr y]"
        "\<not> newline_free y \<longrightarrow> (\<forall>l \<in> set ls. length l < length y)"
      by blast
    have "scan_lines (b @ 0x0A # rest) = scan_lines (x @ 0x0A # (y @ 0x0A # rest))"
      by (simp add: b)
    also have "\<dots> = ((drop_cr x # ls) @ fst (scan_lines rest), snd (scan_lines rest))"
      using scan_lines_newline [OF x ly(3)] ls(1) by simp
    finally have eq: "scan_lines (b @ 0x0A # rest) = ((drop_cr x # ls) @ fst (scan_lines rest), snd (scan_lines rest))" .
    have "\<forall>l \<in> set ls. length l \<le> length y"
      using ls(2,3) length_drop_cr [of y] by (cases "newline_free y") force+
    then have "\<forall>l \<in> set (drop_cr x # ls). length l < length b"
      using length_drop_cr [of x] b by auto
    with eq False show ?thesis by blast
  qed
qed

lemma scan_lines_short: "length bs < max_token \<Longrightarrow> \<not> snd (scan_lines bs)"
proof (induction bs rule: scan_lines.induct)
  case (1 bs)
  let ?rest = "dropWhile (\<lambda>b. b \<noteq> 0x0A) bs"
  have "length (takeWhile (\<lambda>b. b \<noteq> 0x0A) bs) < max_token" "length (tl ?rest) < max_token"
    using "1.prems" length_takeWhile_le [of "\<lambda>b. b \<noteq> 0x0A" bs] length_dropWhile_le [of "\<lambda>b. b \<noteq> 0x0A" bs]
    by auto
  with "1.IH" show ?case
    by (subst scan_lines.simps) (auto simp: Let_def split_beta)
qed

lemma scan_lines_length: "l \<in> set (fst (scan_lines bs)) \<Longrightarrow> length l \<le> length bs"
proof (induction bs rule: scan_lines.induct)
  case (1 bs)
  let ?line = "takeWhile (\<lambda>b. b \<noteq> 0x0A) bs" and ?rest = "dropWhile (\<lambda>b. b \<noteq> 0x0A) bs"
  have "l = drop_cr ?line \<or>
      (bs \<noteq> [] \<and> \<not> max_token \<le> length ?line \<and> ?rest \<noteq> [] \<and> l \<in> set (fst (scan_lines (tl ?rest))))"
    using "1.prems" by (subst (asm) scan_lines.simps) (auto simp: Let_def split_beta split: if_splits)
  then show ?case
  proof
    assume "l = drop_cr ?line"
    then show ?thesis
      using length_drop_cr [of ?line] length_takeWhile_le [of "\<lambda>b. b \<noteq> 0x0A" bs] by simp
  next
    assume "bs \<noteq> [] \<and> \<not> max_token \<le> length ?line \<and> ?rest \<noteq> [] \<and> l \<in> set (fst (scan_lines (tl ?rest)))"
    then have "length l \<le> length (tl ?rest)" using "1.IH" by blast
    then show ?thesis using length_dropWhile_le [of "\<lambda>b. b \<noteq> 0x0A" bs] by simp
  qed
qed

section \<open>Fixed-width records in newline-terminated lines\<close>

locale line_codec =
  fixes body :: "'r \<Rightarrow> byte list"
    and accept :: "byte list \<Rightarrow> bool"
    and width :: nat
  assumes body_length: "length (body r) = width"
    and body_accept: "accept (body r)"
    and accept_length: "accept l \<Longrightarrow> width \<le> length l"
    and width_bounds: "0 < width" "width < max_token"
begin

definition safe :: "'r \<Rightarrow> bool" where
  "safe r \<longleftrightarrow> newline_free (body r) \<and> last (body r) \<noteq> 0x0D"

lemma accept_block_lines:
  assumes "\<forall>l \<in> set ls. length l < width"
  shows "filter accept ls = []"
  using assms accept_length by (fastforce simp: filter_empty_conv)

lemma scan_record:
  "filter accept (fst (scan_lines (body r @ 0x0A # rest))) =
     (if safe r then body r # filter accept (fst (scan_lines rest)) else filter accept (fst (scan_lines rest)))"
  and scan_record_end: "snd (scan_lines (body r @ 0x0A # rest)) = snd (scan_lines rest)"
proof -
  obtain ls where
    ls: "scan_lines (body r @ 0x0A # rest) = (ls @ fst (scan_lines rest), snd (scan_lines rest))"
      "newline_free (body r) \<longrightarrow> ls = [drop_cr (body r)]"
      "\<not> newline_free (body r) \<longrightarrow> (\<forall>l \<in> set ls. length l < length (body r))"
    using scan_lines_block [of "body r" rest] body_length [of r] width_bounds by auto
  have "filter accept ls = (if safe r then [body r] else [])"
  proof (cases "safe r")
    case True
    then show ?thesis using ls(2) body_accept by (simp add: safe_def drop_cr_def)
  next
    case False
    have "body r \<noteq> []" using body_length [of r] width_bounds by auto
    with False ls(2,3) have "\<forall>l \<in> set ls. length l < width"
      using body_length [of r] width_bounds
      by (cases "newline_free (body r)") (auto simp: safe_def drop_cr_def)
    with False show ?thesis by (simp add: accept_block_lines)
  qed
  then show "filter accept (fst (scan_lines (body r @ 0x0A # rest))) =
     (if safe r then body r # filter accept (fst (scan_lines rest)) else filter accept (fst (scan_lines rest)))"
    using ls(1) by simp
  show "snd (scan_lines (body r @ 0x0A # rest)) = snd (scan_lines rest)" using ls(1) by simp
qed

lemma scan_file:
  "filter accept (fst (scan_lines (concat (map (\<lambda>r. body r @ [0x0A]) rs)))) = map body (filter safe rs)"
  "snd (scan_lines (concat (map (\<lambda>r. body r @ [0x0A]) rs))) = False"
proof (induction rs)
  case Nil
  show "filter accept (fst (scan_lines (concat (map (\<lambda>r. body r @ [0x0A]) [])))) = map body (filter safe [])"
    "snd (scan_lines (concat (map (\<lambda>r. body r @ [0x0A]) []))) = False"
    by (simp_all add: scan_lines.simps)
next
  case (Cons r rs)
  then show "filter accept (fst (scan_lines (concat (map (\<lambda>r. body r @ [0x0A]) (r # rs))))) = map body (filter safe (r # rs))"
    "snd (scan_lines (concat (map (\<lambda>r. body r @ [0x0A]) (r # rs)))) = False"
    by (simp_all add: scan_record scan_record_end)
qed

text \<open>A torn last record, shorter than a body, adds nothing to what a scan accepts.\<close>

lemma scan_torn:
  assumes "length t < width"
  shows "filter accept (fst (scan_lines (concat (map (\<lambda>r. body r @ [0x0A]) rs) @ t))) = map body (filter safe rs)"
    and "\<not> snd (scan_lines (concat (map (\<lambda>r. body r @ [0x0A]) rs) @ t))"
proof -
  have "filter accept (fst (scan_lines t)) = []"
    using scan_lines_length [of _ t] assms by (intro accept_block_lines) fastforce
  then show "filter accept (fst (scan_lines (concat (map (\<lambda>r. body r @ [0x0A]) rs) @ t))) = map body (filter safe rs)"
    by (induction rs) (simp_all add: scan_record)
  have "\<not> snd (scan_lines t)" using assms width_bounds by (intro scan_lines_short) simp
  then show "\<not> snd (scan_lines (concat (map (\<lambda>r. body r @ [0x0A]) rs) @ t))"
    by (induction rs) (simp_all add: scan_record_end)
qed

end

definition frame_safe :: "wal_record \<Rightarrow> bool" where
  "frame_safe rec \<longleftrightarrow>
     newline_free (appendChecksum (payload rec)) \<and> last (appendChecksum (payload rec)) \<noteq> 0x0D"

interpretation wr: line_codec "\<lambda>rec. appendChecksum (payload rec)" verifyChecksum 36
  rewrites "wr.safe = frame_safe"
proof -
  show lc: "line_codec (\<lambda>rec. appendChecksum (payload rec)) verifyChecksum 36"
  proof
    show "verifyChecksum (appendChecksum (payload r))" for r by (rule verify_append)
    show "36 \<le> length l" if "verifyChecksum l" for l
      using that by (simp add: verifyChecksum_def recordSize_def crcSize_def split: if_splits)
  qed (simp_all add: max_token_def)
  show "line_codec.safe (\<lambda>rec. appendChecksum (payload rec)) = frame_safe"
    by (simp add: fun_eq_iff line_codec.safe_def [OF lc] frame_safe_def)
qed

section \<open>What a scan delivers\<close>

text \<open>\<open>deliver\<close> runs the callback over a list of records, stopping at its first error.\<close>

fun deliver :: "(wal_record \<Rightarrow> 's \<Rightarrow> err option \<times> 's) \<Rightarrow> wal_record list \<Rightarrow> 's \<Rightarrow> err option \<times> 's" where
  "deliver fn [] s = (None, s)"
| "deliver fn (r # rs) s =
     (case fn r s of (Some e, s') \<Rightarrow> (Some e, s') | (None, s') \<Rightarrow> deliver fn rs s')"

lemma scan_loop_deliver:
  "scan_loop from fn ls s =
     deliver fn (filter (\<lambda>r. from \<le> rSeq r) (map decode_line (filter verifyChecksum ls))) s"
proof (induction ls arbitrary: s)
  case (Cons l ls)
  have "verifyChecksum l \<Longrightarrow> \<not> length l < recordSize + crcSize"
    by (simp add: verifyChecksum_def split: if_splits)
  with Cons show ?case
    by (auto simp: Let_def not_less split: prod.splits option.splits)
qed simp

definition logged :: "wal_record list \<Rightarrow> byte list" where
  "logged recs = concat (map encodeRecord recs)"

lemma scanRecords_torn:
  assumes "length t < 36"
  shows "scanRecords (logged recs @ t) from fn s =
    deliver fn (filter (\<lambda>r. frame_safe r \<and> from \<le> rSeq r) recs) s"
proof -
  have "logged recs = concat (map (\<lambda>r. appendChecksum (payload r) @ [0x0A]) recs)"
    by (simp add: logged_def encodeRecord_def [abs_def])
  moreover have "map decode_line (map (\<lambda>r. appendChecksum (payload r)) rs) = rs" for rs
    by (simp add: map_idI decode_body)
  ultimately have "fst (scan_lines (logged recs @ t)) = ls \<Longrightarrow>
      filter (\<lambda>r. from \<le> rSeq r) (map decode_line (filter verifyChecksum ls)) =
      filter (\<lambda>r. frame_safe r \<and> from \<le> rSeq r) recs"
    "\<not> snd (scan_lines (logged recs @ t))" for ls
    using wr.scan_torn [OF assms, of recs] by (auto simp: conj_commute)
  moreover obtain ls e where "scan_lines (logged recs @ t) = (ls, e)" by (rule prod.exhaust)
  moreover obtain r s' where "deliver fn (filter (\<lambda>r. frame_safe r \<and> from \<le> rSeq r) recs) s = (r, s')"
    by (rule prod.exhaust)
  ultimately show ?thesis
    by (simp add: scanRecords_def scan_loop_deliver split: option.splits)
qed

lemma scanRecords_logged:
  "scanRecords (logged recs) from fn s = deliver fn (filter (\<lambda>r. frame_safe r \<and> from \<le> rSeq r) recs) s"
  using scanRecords_torn [of "[]"] by simp

section \<open>Files that scan as a list of records\<close>

definition scans_as :: "byte list \<Rightarrow> wal_record list \<Rightarrow> bool" where
  "scans_as bs recs \<longleftrightarrow>
     filter verifyChecksum (fst (scan_lines bs)) = map (\<lambda>r. appendChecksum (payload r)) (filter frame_safe recs)
     \<and> \<not> snd (scan_lines bs)"

lemma scans_as_torn: "length t < 36 \<Longrightarrow> scans_as (logged recs @ t) recs"
  using wr.scan_torn [of t recs] by (simp add: scans_as_def logged_def encodeRecord_def [abs_def])

lemma scans_as_logged: "scans_as (logged recs) recs"
  using scans_as_torn [of "[]" recs] by simp

lemma scans_as_record: "scans_as bs recs \<Longrightarrow> scans_as (encodeRecord r @ bs) (r # recs)"
  by (simp add: scans_as_def encodeRecord_def wr.scan_record wr.scan_record_end)

lemma scan_lines_last:
  assumes "newline_free l" and "l \<noteq> []" and "length l < max_token"
  shows "scan_lines l = ([drop_cr l], False)"
proof -
  have t: "takeWhile (\<lambda>b. b \<noteq> 0x0A) l = l" and d: "dropWhile (\<lambda>b. b \<noteq> 0x0A) l = []"
    using assms(1) by (induction l) (auto simp: newline_free_def)
  show ?thesis using assms(2,3) by (subst scan_lines.simps) (simp add: Let_def t d)
qed

text \<open>A last record that lacks only its newline is found all the same.\<close>

lemma scans_as_body: "scans_as (appendChecksum (payload r)) [r]"
proof (cases "newline_free (appendChecksum (payload r))")
  case True
  have "appendChecksum (payload r) \<noteq> []" using length_body [of r] by (metis list.size(3) zero_neq_numeral)
  with True have s: "scan_lines (appendChecksum (payload r)) = ([drop_cr (appendChecksum (payload r))], False)"
    by (simp add: scan_lines_last max_token_def)
  show ?thesis
  proof (cases "frame_safe r")
    case True
    then show ?thesis by (simp add: scans_as_def s frame_safe_def drop_cr_def verify_append)
  next
    case False
    then have "length (drop_cr (appendChecksum (payload r))) < 36"
      using True by (auto simp: frame_safe_def drop_cr_def)
    then have "\<not> verifyChecksum (drop_cr (appendChecksum (payload r)))"
      by (simp add: verifyChecksum_def recordSize_def crcSize_def)
    with False show ?thesis by (simp add: scans_as_def s)
  qed
next
  case False
  then obtain x y where b: "appendChecksum (payload r) = x @ 0x0A # y" and x: "newline_free x"
    by (metis newline_free_def split_list_first)
  then have len: "length x + length y < 36" using length_body [of r] by simp
  then have s: "scan_lines (appendChecksum (payload r)) = (drop_cr x # fst (scan_lines y), snd (scan_lines y))"
    unfolding b by (intro scan_lines_newline x) (simp add: max_token_def)
  have "filter verifyChecksum (drop_cr x # fst (scan_lines y)) = []"
    using len length_drop_cr [of x] scan_lines_length [of _ y] by (intro wr.accept_block_lines) fastforce
  moreover have "\<not> snd (scan_lines y)" using len by (intro scan_lines_short) (simp add: max_token_def)
  moreover have "\<not> frame_safe r" using False by (simp add: frame_safe_def)
  ultimately show ?thesis by (simp add: scans_as_def s)
qed

text \<open>
  Whatever prefix of a log a crash leaves in the file, a scan finds a prefix of its records,
  and all those whose bytes are complete.
\<close>

lemma scans_as_prefix:
  assumes "logged recs = p @ q"
  shows "\<exists>m. scans_as p (take m recs) \<and> length p div 37 \<le> m"
  using assms
proof (induction recs arbitrary: p)
  case Nil
  then show ?case using scans_as_logged [of "[]"] by (intro exI [of _ 0]) (simp add: logged_def)
next
  case (Cons r recs)
  have eq: "encodeRecord r @ logged recs = p @ q" using Cons.prems by (simp add: logged_def)
  show ?case
  proof (cases "37 \<le> length p")
    case True
    have "take 37 (encodeRecord r @ logged recs) = take 37 (p @ q)" "drop 37 (encodeRecord r @ logged recs) = drop 37 (p @ q)"
      using eq by simp_all
    with True have "encodeRecord r = take 37 p" "logged recs = drop 37 p @ q" by simp_all
    then obtain p' where p: "p = encodeRecord r @ p'" and "logged recs = p' @ q"
      by (metis append_take_drop_id)
    with Cons.IH obtain m where m: "scans_as p' (take m recs)" "length p' div 37 \<le> m" by blast
    with scans_as_record [OF m(1), of r] show ?thesis
      by (intro exI [of _ "Suc m"]) (simp add: p)
  next
    case False
    have "take (length p) (encodeRecord r @ logged recs) = p" using eq by simp
    then have p: "p = take (length p) (encodeRecord r)" using False by simp
    show ?thesis
    proof (cases "length p = 36")
      case True
      with p have "p = appendChecksum (payload r)" by (simp add: encodeRecord_def)
      then show ?thesis using scans_as_body [of r] True by (intro exI [of _ 1]) simp
    next
      case False
      with \<open>\<not> 37 \<le> length p\<close> have "length p < 36" by simp
      then show ?thesis using scans_as_torn [of p "[]"] by (intro exI [of _ 0]) (simp add: logged_def)
    qed
  qed
qed

lemma scanRecords_scans_as:
  assumes "scans_as bs recs"
  shows "scanRecords bs from fn s = deliver fn (filter (\<lambda>r. frame_safe r \<and> from \<le> rSeq r) recs) s"
proof -
  have "map decode_line (map (\<lambda>r. appendChecksum (payload r)) rs) = rs" for rs
    by (simp add: map_idI decode_body)
  then have f: "filter (\<lambda>r. from \<le> rSeq r) (map decode_line (filter verifyChecksum (fst (scan_lines bs))))
      = filter (\<lambda>r. frame_safe r \<and> from \<le> rSeq r) recs" and e: "\<not> snd (scan_lines bs)"
    using assms by (simp_all add: scans_as_def conj_commute)
  obtain ls b where sl: "scan_lines bs = (ls, b)" by (rule prod.exhaust)
  obtain r s' where dl: "deliver fn (filter (\<lambda>r. frame_safe r \<and> from \<le> rSeq r) recs) s = (r, s')"
    by (rule prod.exhaust)
  show ?thesis
    using f e dl by (simp add: scanRecords_def scan_loop_deliver sl split: option.splits)
qed

section \<open>One record, evaluated\<close>

lemma put8: "put_le 8 w = [ucast w, ucast (drop_bit 8 w), ucast (drop_bit 16 w), ucast (drop_bit 24 w),
    ucast (drop_bit 32 w), ucast (drop_bit 40 w), ucast (drop_bit 48 w), ucast (drop_bit 56 w)]"
  by (simp add: numeral_eq_Suc)

lemma put4: "put_le 4 w = [ucast w, ucast (drop_bit 8 w), ucast (drop_bit 16 w), ucast (drop_bit 24 w)]"
  by (simp add: numeral_eq_Suc)

lemma funpow8: "(f ^^ 8) x = f (f (f (f (f (f (f (f x)))))))"
  by (simp add: numeral_eq_Suc)

definition demo_record :: wal_record where
  "demo_record = \<lparr>rSeq = 1, rSeriesID = 7, rTS = 7300, rValue = 0\<rparr>"

lemma demo_record_safe: "frame_safe demo_record"
  by (simp add: demo_record_def frame_safe_def payload_def appendChecksum_def crcSize_def newline_free_def
      put8 put4 checksum_def crc_byte_def crc_bit_def funpow8 crc_poly_def)

lemma newline_sequence: "rSeq r = 10 \<Longrightarrow> 0x0A \<in> set (appendChecksum (payload r))"
  by (simp add: appendChecksum_def payload_def put8)

text \<open>A record without a newline whose bytes end in a carriage return.\<close>

definition cr_record :: wal_record where
  "cr_record = \<lparr>rSeq = 153, rSeriesID = 1, rTS = 100, rValue = 0x4014000000000000\<rparr>"

lemma cr_record_ends: "0x0A \<notin> set (appendChecksum (payload cr_record))" "last (appendChecksum (payload cr_record)) = 0x0D"
  by (simp_all add: cr_record_def payload_def appendChecksum_def crcSize_def
      put8 put4 checksum_def crc_byte_def crc_bit_def funpow8 crc_poly_def)

section \<open>Properties\<close>

text \<open>
  C32. Encoding and decoding are inverse: the bytes written for a record, without the
  newline, pass the checksum test and decode to the record, for every record.
\<close>

theorem record_roundtrip:
  "verifyChecksum (appendChecksum (payload rec)) \<and> decode_line (appendChecksum (payload rec)) = rec
   \<and> encodeRecord rec = appendChecksum (payload rec) @ [0x0A]"
  by (simp add: verify_append decode_body encodeRecord_def)

text \<open>
  C33. The newline framing is not transparent. A scan of a segment delivers, in order, exactly
  the records from the sequence number it was asked for whose 36 bytes hold no newline and do
  not end in a carriage return. So a record that has one of the two, for instance every record
  with sequence number 10, is written to the segment, but no scan delivers it: the callback
  sees what it would see if the record had never been written.
\<close>

theorem newline_record_lost:
  "scanRecords (logged recs) from fn s
     = deliver fn (filter (\<lambda>r. from \<le> rSeq r \<and> 0x0A \<notin> set (appendChecksum (payload r))
         \<and> last (appendChecksum (payload r)) \<noteq> 0x0D) recs) s
   \<and> (rSeq rec = 10 \<or> 0x0A \<in> set (appendChecksum (payload rec)) \<or> last (appendChecksum (payload rec)) = 0x0D \<longrightarrow>
       scanRecords (logged (before @ rec # after)) from fn s = scanRecords (logged (before @ after)) from fn s)"
proof (intro conjI impI)
  have "frame_safe r \<and> from \<le> rSeq r \<longleftrightarrow> from \<le> rSeq r \<and> 0x0A \<notin> set (appendChecksum (payload r))
      \<and> last (appendChecksum (payload r)) \<noteq> 0x0D" for r
    by (auto simp: frame_safe_def newline_free_def)
  then show "scanRecords (logged recs) from fn s
     = deliver fn (filter (\<lambda>r. from \<le> rSeq r \<and> 0x0A \<notin> set (appendChecksum (payload r))
         \<and> last (appendChecksum (payload r)) \<noteq> 0x0D) recs) s"
    by (simp add: scanRecords_logged)
  assume "rSeq rec = 10 \<or> 0x0A \<in> set (appendChecksum (payload rec)) \<or> last (appendChecksum (payload rec)) = 0x0D"
  then have "\<not> frame_safe rec" using newline_sequence [of rec] by (auto simp: frame_safe_def newline_free_def)
  then show "scanRecords (logged (before @ rec # after)) from fn s = scanRecords (logged (before @ after)) from fn s"
    by (simp add: scanRecords_logged)
qed

text \<open>Of three records only the first is delivered: the second has number 10, the checksum of the third ends in 0x0D.\<close>

theorem newline_record_lost_witness:
  "scanRecords (logged [demo_record, \<lparr>rSeq = 10, rSeriesID = 1, rTS = 5, rValue = 0\<rparr>, cr_record]) 0 (\<lambda>r rs. (None, rs @ [r])) []
    = (None, [demo_record])"
  using newline_record_lost [of "[demo_record]" 0 "\<lambda>r rs. (None, rs @ [r])" "[]"
      "\<lparr>rSeq = 10, rSeriesID = 1, rTS = 5, rValue = 0\<rparr>" "[demo_record]" "[cr_record]"]
    newline_record_lost [of "[demo_record]" 0 "\<lambda>r rs. (None, rs @ [r])" "[]" cr_record "[demo_record]" "[]"]
    demo_record_safe cr_record_ends
  by (simp add: frame_safe_def newline_free_def)

text \<open>
  C34. A segment torn by a crash: whatever prefix of the written bytes the file holds, a scan
  ends without an error and delivers the frames of a prefix of the records, which has at
  least the records whose 37 bytes are complete.
\<close>

theorem torn_segment_scan:
  assumes "logged recs = bs @ lost"
  shows "\<exists>m. length bs div 37 \<le> m
    \<and> scanRecords bs from fn s = deliver fn (filter (\<lambda>r. frame_safe r \<and> from \<le> rSeq r) (take m recs)) s"
  using scans_as_prefix [OF assms] scanRecords_scans_as by metis

theorem torn_segment_scan_witness:
  "\<exists>m. scanRecords (take 40 (logged [demo_record, demo_record])) 0 (\<lambda>r rs. (None, rs @ [r])) []
    = (None, replicate (Suc m) demo_record)"
proof -
  obtain m where m: "length (take 40 (logged [demo_record, demo_record])) div 37 \<le> m"
      "scanRecords (take 40 (logged [demo_record, demo_record])) 0 (\<lambda>r rs. (None, rs @ [r])) []
        = deliver (\<lambda>r rs. (None, rs @ [r])) (filter (\<lambda>r. frame_safe r \<and> 0 \<le> rSeq r) (take m [demo_record, demo_record])) []"
    using torn_segment_scan [of "[demo_record, demo_record]" "take 40 (logged [demo_record, demo_record])"
        "drop 40 (logged [demo_record, demo_record])" 0 "\<lambda>r rs. (None, rs @ [r])" "[]"] by auto
  have "length (logged [demo_record, demo_record]) = 74" by (simp add: logged_def)
  with m(1) have "1 \<le> m" by simp
  then obtain k where "m = Suc k" by (cases m) simp_all
  with m(2) show ?thesis
    by (cases k) (auto simp: demo_record_safe intro: exI [of _ 0] exI [of _ 1])
qed

end
