(* ===== verification/Disk.thy ===== *)
theory Disk
  imports Bytes Model
begin

text \<open>
  The file system the write-ahead log uses: the regular files of its directory by name, and
  the buffered writer of \<open>bufio\<close>.

  Every operating-system call may fail, so the code's error branches are all reachable. The
  calls take their outcomes from a schedule \<open>faults\<close>: \<open>None\<close> is success, \<open>Some n\<close> a failure, for
  a read or write after \<open>n\<close> bytes; when the schedule is used up every call succeeds. A theorem
  about a call that reported success holds for every schedule.

  A crash of the process keeps \<open>files\<close> and loses every buffer.
\<close>

record disk =
  files :: "(string, byte list) fmap"
  faults :: "nat option list"

section \<open>System calls\<close>

definition next_fault :: "disk \<Rightarrow> nat option \<times> disk" where
  "next_fault d = (case faults d of [] \<Rightarrow> (None, d) | f # fs \<Rightarrow> (f, d\<lparr>faults := fs\<rparr>))"

text \<open>A call that changes no file: \<open>MkdirAll\<close>, \<open>Stat\<close>, \<open>Sync\<close>, \<open>Close\<close>.\<close>

definition os_call :: "disk \<Rightarrow> err option \<times> disk" where
  "os_call d = (case next_fault d of (None, d1) \<Rightarrow> (None, d1) | (Some n, d1) \<Rightarrow> (Some ErrIO, d1))"

definition os_create :: "string \<Rightarrow> disk \<Rightarrow> err option \<times> disk" where
  "os_create name d =
     (case next_fault d of
        (Some n, d1) \<Rightarrow> (Some ErrIO, d1)
      | (None, d1) \<Rightarrow>
          (None, if fmlookup (files d1) name = None then d1\<lparr>files := fmupd name [] (files d1)\<rparr> else d1))"

definition os_create_trunc :: "string \<Rightarrow> disk \<Rightarrow> err option \<times> disk" where
  "os_create_trunc name d =
     (case next_fault d of
        (Some n, d1) \<Rightarrow> (Some ErrIO, d1)
      | (None, d1) \<Rightarrow> (None, d1\<lparr>files := fmupd name [] (files d1)\<rparr>))"

definition os_open :: "string \<Rightarrow> disk \<Rightarrow> err option \<times> disk" where
  "os_open name d =
     (case next_fault d of
        (Some n, d1) \<Rightarrow> (Some ErrIO, d1)
      | (None, d1) \<Rightarrow> (if fmlookup (files d1) name = None then Some (ErrNotExist name) else None, d1))"

definition content :: "string \<Rightarrow> disk \<Rightarrow> byte list" where
  "content name d = (case fmlookup (files d) name of Some bs \<Rightarrow> bs | None \<Rightarrow> [])"

text \<open>The bytes a reader gets before the end or a read error, and whether there was an error.\<close>

definition os_read :: "string \<Rightarrow> disk \<Rightarrow> (byte list \<times> bool) \<times> disk" where
  "os_read name d =
     (case next_fault d of
        (Some n, d1) \<Rightarrow> ((take n (content name d1), True), d1)
      | (None, d1) \<Rightarrow> ((content name d1, False), d1))"

text \<open>A write at the end of an open file; \<open>Some k\<close> is a failure after \<open>k\<close> bytes.\<close>

definition append_bytes :: "string \<Rightarrow> byte list \<Rightarrow> disk \<Rightarrow> disk" where
  "append_bytes name bs d = d\<lparr>files := fmupd name (content name d @ bs) (files d)\<rparr>"

definition os_append :: "string \<Rightarrow> byte list \<Rightarrow> disk \<Rightarrow> nat option \<times> disk" where
  "os_append name bs d =
     (case next_fault d of
        (Some n, d1) \<Rightarrow> (Some (min n (length bs)), append_bytes name (take n bs) d1)
      | (None, d1) \<Rightarrow> (None, append_bytes name bs d1))"

definition os_write_file :: "string \<Rightarrow> byte list \<Rightarrow> disk \<Rightarrow> err option \<times> disk" where
  "os_write_file name bs d =
     (case next_fault d of
        (Some n, d1) \<Rightarrow> (Some ErrIO, d1\<lparr>files := fmupd name (take n bs) (files d1)\<rparr>)
      | (None, d1) \<Rightarrow> (None, d1\<lparr>files := fmupd name bs (files d1)\<rparr>))"

definition os_rename :: "string \<Rightarrow> string \<Rightarrow> disk \<Rightarrow> err option \<times> disk" where
  "os_rename old new d =
     (case next_fault d of
        (Some n, d1) \<Rightarrow> (Some ErrIO, d1)
      | (None, d1) \<Rightarrow>
          (case fmlookup (files d1) old of
             None \<Rightarrow> (Some (ErrNotExist old), d1)
           | Some bs \<Rightarrow> (None, d1\<lparr>files := fmupd new bs (fmdrop old (files d1))\<rparr>)))"

definition os_remove :: "string \<Rightarrow> disk \<Rightarrow> err option \<times> disk" where
  "os_remove name d =
     (case next_fault d of
        (Some n, d1) \<Rightarrow> (Some ErrIO, d1)
      | (None, d1) \<Rightarrow>
          (if fmlookup (files d1) name = None then (Some (ErrNotExist name), d1)
           else (None, d1\<lparr>files := fmdrop name (files d1)\<rparr>)))"

definition os_read_dir :: "disk \<Rightarrow> (err + string list) \<times> disk" where
  "os_read_dir d =
     (case next_fault d of
        (Some n, d1) \<Rightarrow> (Inl ErrIO, d1)
      | (None, d1) \<Rightarrow> (Inr (sorted_list_of_fset (fmdom (files d1))), d1))"

section \<open>The buffered writer\<close>

definition buffer_size :: nat where
  "buffer_size = 64 * 1024"

text \<open>
  A writer keeps the file it was made for. \<open>wBroken\<close> is its sticky error, \<open>wClosed\<close> says that
  \<open>Close\<close> has been called on the file: every later call on it fails without reaching the system.
\<close>

record writer =
  wBuf :: "byte list"
  wBroken :: bool
  wClosed :: bool

definition new_writer :: writer where
  "new_writer = \<lparr>wBuf = [], wBroken = False, wClosed = False\<rparr>"

definition file_write :: "string \<Rightarrow> byte list \<Rightarrow> writer \<Rightarrow> disk \<Rightarrow> nat option \<times> disk" where
  "file_write name bs wr d = (if wClosed wr then (Some 0, d) else os_append name bs d)"

definition bufio_flush :: "string \<Rightarrow> writer \<Rightarrow> disk \<Rightarrow> err option \<times> writer \<times> disk" where
  "bufio_flush name wr d =
     (if wBroken wr then (Some ErrIO, wr, d)
      else if wBuf wr = [] then (None, wr, d)
      else (case file_write name (wBuf wr) wr d of
              (Some k, d1) \<Rightarrow> (Some ErrIO, wr\<lparr>wBuf := drop k (wBuf wr), wBroken := True\<rparr>, d1)
            | (None, d1) \<Rightarrow> (None, wr\<lparr>wBuf := []\<rparr>, d1)))"

function bufio_write :: "string \<Rightarrow> byte list \<Rightarrow> writer \<Rightarrow> disk \<Rightarrow> err option \<times> writer \<times> disk" where
  "bufio_write name p wr d =
     (if wBroken wr then (Some ErrIO, wr, d)
      else if length p \<le> buffer_size - length (wBuf wr) then (None, wr\<lparr>wBuf := wBuf wr @ p\<rparr>, d)
      else if wBuf wr = []
        then (case file_write name p wr d of
                (Some k, d1) \<Rightarrow> (Some ErrIO, wr\<lparr>wBroken := True\<rparr>, d1)
              | (None, d1) \<Rightarrow> (None, wr, d1))
      else (let n = buffer_size - length (wBuf wr)
            in case bufio_flush name (wr\<lparr>wBuf := wBuf wr @ take n p\<rparr>) d of
                 (Some e, wr1, d1) \<Rightarrow> (Some e, wr1, d1)
               | (None, wr1, d1) \<Rightarrow> bufio_write name (drop n p) wr1 d1))"
  by pat_completeness auto
termination
proof (relation "measure (\<lambda>(name, p, wr, d). 2 * length p + (if wBuf wr = [] then 0 else 1))", simp)
  fix name p wr d n x y wr1 d1
  assume "wBuf wr \<noteq> []" and "\<not> wBroken wr" and
    "(x, y) = bufio_flush name (wr\<lparr>wBuf := wBuf wr @ take n p\<rparr>) d" "x = None" "(wr1, d1) = y"
  then have "wBuf wr1 = []"
    by (auto simp: bufio_flush_def split: prod.splits option.splits if_splits)
  with \<open>wBuf wr \<noteq> []\<close>
  show "((name, drop n p, wr1, d1), name, p, wr, d) \<in>
      measure (\<lambda>(name, p, wr, d). 2 * length p + (if wBuf wr = [] then 0 else 1))"
    by simp
qed

declare bufio_write.simps [simp del]

section \<open>Effects of calls that succeed\<close>

text \<open>\<open>same_files\<close> relates two disks that differ at most in what is left of the schedule.\<close>

lemma next_fault_files: "next_fault d = (f, d') \<Longrightarrow> files d' = files d"
  by (auto simp: next_fault_def split: list.splits)

lemma next_fault_none: "faults d = [] \<Longrightarrow> next_fault d = (None, d)"
  by (simp add: next_fault_def)

lemma content_cong: "files d' = files d \<Longrightarrow> content name d' = content name d"
  by (simp add: content_def)

lemma os_call_files: "os_call d = (e, d') \<Longrightarrow> files d' = files d"
  by (auto simp: os_call_def dest: next_fault_files split: prod.splits option.splits)

lemma os_call_ok [simp]: "faults d = [] \<Longrightarrow> os_call d = (None, d)"
  by (simp add: os_call_def next_fault_none)

lemma os_open_files: "os_open name d = (e, d') \<Longrightarrow> files d' = files d"
  by (auto simp: os_open_def dest: next_fault_files split: prod.splits option.splits)

lemma os_open_ok [simp]:
  "faults d = [] \<Longrightarrow>
   os_open name d = (if fmlookup (files d) name = None then Some (ErrNotExist name) else None, d)"
  by (simp add: os_open_def next_fault_none)

lemma os_read_files: "os_read name d = (r, d') \<Longrightarrow> files d' = files d"
  by (auto simp: os_read_def dest: next_fault_files split: prod.splits option.splits)

lemma os_read_content: "os_read name d = ((bs, False), d') \<Longrightarrow> bs = content name d"
  by (auto simp: os_read_def dest!: next_fault_files split: prod.splits option.splits simp: content_def)

lemma os_read_ok [simp]: "faults d = [] \<Longrightarrow> os_read name d = ((content name d, False), d)"
  by (simp add: os_read_def next_fault_none)

lemma os_create_success:
  "os_create name d = (None, d') \<Longrightarrow>
   files d' = (if fmlookup (files d) name = None then fmupd name [] (files d) else files d)"
  by (auto simp: os_create_def dest!: next_fault_files split: prod.splits option.splits)

lemma os_create_ok:
  "faults d = [] \<Longrightarrow> \<exists>d'. os_create name d = (None, d') \<and> faults d' = []"
  by (simp add: os_create_def next_fault_none)

lemma os_remove_success:
  "os_remove name d = (None, d') \<Longrightarrow> files d' = fmdrop name (files d)"
  by (auto simp: os_remove_def dest!: next_fault_files split: prod.splits option.splits if_splits)

lemma os_rename_success:
  "os_rename old new d = (None, d') \<Longrightarrow>
   \<exists>bs. fmlookup (files d) old = Some bs \<and> files d' = fmupd new bs (fmdrop old (files d))"
  by (auto simp: os_rename_def dest!: next_fault_files split: prod.splits option.splits)

lemma os_read_dir_success:
  "os_read_dir d = (Inr ns, d') \<Longrightarrow> ns = sorted_list_of_fset (fmdom (files d)) \<and> files d' = files d"
  by (auto simp: os_read_dir_def dest!: next_fault_files split: prod.splits option.splits)

lemma append_bytes_content [simp]:
  "content k (append_bytes name bs d) = (if k = name then content name d @ bs else content k d)"
  "faults (append_bytes name bs d) = faults d"
  by (simp_all add: append_bytes_def content_def)

lemma content_after_fault: "next_fault d = (f, d1) \<Longrightarrow> content name d1 = content name d"
  by (rule content_cong) (rule next_fault_files)

section \<open>The buffered writer loses nothing\<close>

text \<open>
  What is in the file and what is in the buffer, in that order, is what has been written. A
  write that reports success adds its bytes to the end of that; a write that fails has put a
  prefix of the pending bytes into the file and broken the writer. No other file changes.
\<close>

definition wrote :: "string \<Rightarrow> writer \<Rightarrow> disk \<Rightarrow> byte list \<Rightarrow> err option \<times> writer \<times> disk \<Rightarrow> bool" where
  "wrote name wr d p = (\<lambda>(e, wr', d').
     (\<forall>k. k \<noteq> name \<longrightarrow> fmlookup (files d') k = fmlookup (files d) k)
     \<and> (fmlookup (files d) name \<noteq> None \<longrightarrow> fmlookup (files d') name \<noteq> None)
     \<and> (\<exists>x y. content name d' = content name d @ x \<and> wBuf wr @ p = x @ y
          \<and> (e = None \<longrightarrow> wBuf wr' = y \<and> \<not> wBroken wr'))
     \<and> (e \<noteq> None \<longrightarrow> wBroken wr') \<and> wClosed wr' = wClosed wr)"

lemma file_write_frame:
  assumes "file_write name bs wr d = (r, d')"
  shows "k \<noteq> name \<Longrightarrow> fmlookup (files d') k = fmlookup (files d) k"
    and "fmlookup (files d) name \<noteq> None \<Longrightarrow> fmlookup (files d') name \<noteq> None"
    and "content name d' = content name d @ (case r of None \<Rightarrow> bs | Some n \<Rightarrow> take n bs)"
proof -
  obtain f d1 where f: "next_fault d = (f, d1)" by (rule prod.exhaust)
  note same = next_fault_files [OF f] content_after_fault [OF f, of name]
  show "k \<noteq> name \<Longrightarrow> fmlookup (files d') k = fmlookup (files d) k"
    "fmlookup (files d) name \<noteq> None \<Longrightarrow> fmlookup (files d') name \<noteq> None"
    using assms same by (auto simp: file_write_def os_append_def f append_bytes_def split: option.splits if_splits)
  show "content name d' = content name d @ (case r of None \<Rightarrow> bs | Some n \<Rightarrow> take n bs)"
    using assms same by (auto simp: file_write_def os_append_def f min_def split: option.splits if_splits)
qed

lemma wroteI:
  assumes "\<And>k. k \<noteq> name \<Longrightarrow> fmlookup (files d') k = fmlookup (files d) k"
    and "fmlookup (files d) name \<noteq> None \<Longrightarrow> fmlookup (files d') name \<noteq> None"
    and "content name d' = content name d @ x" and "wBuf wr @ p = x @ y"
    and "e = None \<Longrightarrow> wBuf wr' = y \<and> \<not> wBroken wr'" and "e \<noteq> None \<Longrightarrow> wBroken wr'"
    and "wClosed wr' = wClosed wr"
  shows "wrote name wr d p (e, wr', d')"
  using assms unfolding wrote_def by blast

lemma wrote_nothing:
  "wBroken wr \<Longrightarrow> wrote name wr d p (Some e, wr, d)"
  "\<not> wBroken wr \<Longrightarrow> wrote name wr d p (None, wr\<lparr>wBuf := wBuf wr @ p\<rparr>, d)"
  by (rule wroteI [where x = "[]" and y = "wBuf wr @ p"]; simp)+

lemma wrote_still: "\<not> wBroken wr \<Longrightarrow> wrote name wr d [] (None, wr, d)"
  using wrote_nothing(2) [of wr name d "[]"] by simp

lemma bufio_flush_wrote: "wrote name wr d [] (bufio_flush name wr d)"
proof -
  consider "wBroken wr" | "\<not> wBroken wr" "wBuf wr = []" | "\<not> wBroken wr" "wBuf wr \<noteq> []" by blast
  then show ?thesis
  proof cases
    case 3
    obtain r d' where a: "file_write name (wBuf wr) wr d = (r, d')" by (rule prod.exhaust)
    note fr = file_write_frame [OF a]
    show ?thesis
    proof (cases r)
      case None
      have "wrote name wr d [] (None, wr\<lparr>wBuf := []\<rparr>, d')"
        by (rule wroteI [where x = "wBuf wr" and y = "[]"]) (use fr None 3 in simp_all)
      with 3 None a show ?thesis by (simp add: bufio_flush_def)
    next
      case (Some n)
      have "wrote name wr d [] (Some ErrIO, wr\<lparr>wBuf := drop n (wBuf wr), wBroken := True\<rparr>, d')"
        by (rule wroteI [where x = "take n (wBuf wr)" and y = "drop n (wBuf wr)"]) (use fr Some 3 in simp_all)
      with 3 Some a show ?thesis by (simp add: bufio_flush_def)
    qed
  qed (simp_all add: bufio_flush_def wrote_nothing wrote_still)
qed

lemma bufio_flush_clears:
  "bufio_flush name wr d = (None, wr', d') \<Longrightarrow> wr' = wr\<lparr>wBuf := []\<rparr> \<and> \<not> wBroken wr"
  by (auto simp: bufio_flush_def split: if_splits prod.splits option.splits)

lemma wrote_trans:
  assumes "wrote name wr d a (None, wr1, d1)" and "wrote name wr1 d1 b r"
  shows "wrote name wr d (a @ b) r"
proof -
  obtain e wr2 d2 where r: "r = (e, wr2, d2)" by (rule prod_cases3)
  from assms(1) obtain x y where 1: "content name d1 = content name d @ x" "wBuf wr @ a = x @ y" "wBuf wr1 = y"
    by (auto simp: wrote_def)
  from assms(2) obtain x' y' where 2: "content name d2 = content name d1 @ x'" "wBuf wr1 @ b = x' @ y'"
      "e = None \<longrightarrow> wBuf wr2 = y' \<and> \<not> wBroken wr2"
    by (auto simp: wrote_def r)
  have "content name d2 = content name d @ (x @ x')" "wBuf wr @ (a @ b) = (x @ x') @ y'"
    using 1 2(1,2) by (simp_all add: append_assoc [symmetric] del: append_assoc) (simp add: append_assoc)
  with 2(3) have "\<exists>x y. content name d2 = content name d @ x \<and> wBuf wr @ (a @ b) = x @ y
      \<and> (e = None \<longrightarrow> wBuf wr2 = y \<and> \<not> wBroken wr2)" by blast
  with assms show ?thesis by (simp add: wrote_def r)
qed

lemma bufio_write_wrote: "wrote name wr d p (bufio_write name p wr d)"
proof (induction name p wr d rule: bufio_write.induct)
  case (1 name p wr d)
  let ?n = "buffer_size - length (wBuf wr)"
  consider "wBroken wr" | "\<not> wBroken wr" "length p \<le> ?n"
    | "\<not> wBroken wr" "\<not> length p \<le> ?n" "wBuf wr = []"
    | "\<not> wBroken wr" "\<not> length p \<le> ?n" "wBuf wr \<noteq> []" by blast
  then show ?case
  proof cases
    case 1
    then show ?thesis
      by (subst bufio_write.simps) (simp add: wrote_nothing)
  next
    case 2
    then show ?thesis
      by (subst bufio_write.simps) (simp add: wrote_nothing)
  next
    case 3
    obtain r d' where a: "file_write name p wr d = (r, d')" by (rule prod.exhaust)
    note fr = file_write_frame [OF a]
    show ?thesis
    proof (cases r)
      case None
      have "wrote name wr d p (None, wr, d')"
        by (rule wroteI [where x = p and y = "[]"]) (use fr None 3 in simp_all)
      with 3 None a show ?thesis by (subst bufio_write.simps) simp
    next
      case (Some n)
      have "wrote name wr d p (Some ErrIO, wr\<lparr>wBroken := True\<rparr>, d')"
        by (rule wroteI [where x = "take n p" and y = "drop n p"]) (use fr Some 3 in simp_all)
      with 3 Some a show ?thesis by (subst bufio_write.simps) simp
    qed
  next
    case 4
    let ?wr = "wr\<lparr>wBuf := wBuf wr @ take ?n p\<rparr>"
    obtain e wr1 d1 where f: "bufio_flush name ?wr d = (e, wr1, d1)" by (rule prod_cases3)
    have w: "wrote name wr d (take ?n p) (e, wr1, d1)"
      using bufio_flush_wrote [of name ?wr d] unfolding f by (simp add: wrote_def)
    show ?thesis
    proof (cases e)
      case None
      have "wrote name wr1 d1 (drop ?n p) (bufio_write name (drop ?n p) wr1 d1)"
        using "1.IH" [OF 4 refl f [symmetric]] None by simp
      with w None have "wrote name wr d (take ?n p @ drop ?n p) (bufio_write name (drop ?n p) wr1 d1)"
        by (intro wrote_trans) simp_all
      with 4 None f show ?thesis by (subst bufio_write.simps) (simp add: Let_def)
    next
      case (Some e')
      have "wrote name wr d p (e, wr1, d1)"
      proof -
        from w obtain x y where "content name d1 = content name d @ x" "wBuf wr @ take ?n p = x @ y"
          by (auto simp: wrote_def)
        moreover from this(2) have "wBuf wr @ p = x @ (y @ drop ?n p)"
          by (metis append_assoc append_take_drop_id)
        ultimately show ?thesis using w Some by (auto simp: wrote_def)
      qed
      with 4 Some f show ?thesis by (subst bufio_write.simps) (simp add: Let_def)
    qed
  qed
qed

lemma os_append_ok: "faults d = [] \<Longrightarrow> os_append name bs d = (None, append_bytes name bs d)"
  by (simp add: os_append_def next_fault_none)

text \<open>A writer whose file is open and that has seen no error.\<close>

definition sound :: "writer \<Rightarrow> bool" where
  "sound wr \<longleftrightarrow> \<not> wBroken wr \<and> \<not> wClosed wr"

lemma sound_simps [simp]:
  "sound new_writer" "sound (wr\<lparr>wBuf := bs\<rparr>) = sound wr"
  "sound \<lparr>wBuf = bs, wBroken = broken, wClosed = closed\<rparr> \<longleftrightarrow> \<not> broken \<and> \<not> closed"
  by (simp_all add: sound_def new_writer_def)

lemma wrote_sound: "wrote name wr d p (None, wr', d') \<Longrightarrow> \<not> wClosed wr \<Longrightarrow> sound wr'"
  by (auto simp: wrote_def sound_def)

lemma bufio_flush_ok:
  assumes "faults d = []" and "sound wr"
  shows "\<exists>wr' d'. bufio_flush name wr d = (None, wr', d') \<and> faults d' = []"
  using assms by (simp add: bufio_flush_def file_write_def sound_def os_append_ok)

lemma bufio_write_ok:
  "faults d = [] \<Longrightarrow> sound wr \<Longrightarrow> \<exists>wr' d'. bufio_write name p wr d = (None, wr', d') \<and> faults d' = []"
proof (induction name p wr d rule: bufio_write.induct)
  case (1 name p wr d)
  let ?n = "buffer_size - length (wBuf wr)"
  show ?case
  proof (cases "length p \<le> ?n \<or> wBuf wr = []")
    case True
    with 1(2,3) show ?thesis by (subst bufio_write.simps) (auto simp: file_write_def sound_def os_append_ok)
  next
    case False
    let ?wr = "wr\<lparr>wBuf := wBuf wr @ take ?n p\<rparr>"
    obtain wr1 d1 where f: "bufio_flush name ?wr d = (None, wr1, d1)" "faults d1 = []"
      using bufio_flush_ok [OF "1.prems"(1), of ?wr name] "1.prems"(2) by auto
    have ok: "\<not> wBroken wr" using "1.prems"(2) by (simp add: sound_def)
    have "sound wr1" using bufio_flush_clears [OF f(1)] "1.prems"(2) by simp
    with "1.IH" [OF ok _ _ refl f(1) [symmetric] refl refl f(2)] False
    have "\<exists>wr' d'. bufio_write name (drop ?n p) wr1 d1 = (None, wr', d') \<and> faults d' = []" by blast
    with False f(1) ok show ?thesis by (subst bufio_write.simps) (simp add: Let_def)
  qed
qed

end
