(* ===== verification/Wal.thy ===== *)
theory Wal
  imports WalCodec Disk Decimal
begin

text \<open>
  The write-ahead log, \<open>internal/wal/wal.go\<close> and \<open>info.go\<close>: segment files appended through
  64 KiB buffers, rotation by size, truncation after a flush, replay, and the replay watermark
  in the checkpoint file.

  A log is the map of its segments by index, its counters and the disk. Operations return the
  error the code returns, if any, and the state they leave, also on the error paths: what a
  partly failed operation has already done stays done.
\<close>

record segment =
  sgName :: string
  sgWriter :: writer
  sgFirst :: uint64
  sgLast :: uint64
  sgSize :: int64

record wal =
  segments :: "(int, segment) fmap"
  nextSeq :: uint64
  nextReplay :: uint64
  maxSize :: int64
  wDisk :: disk

definition checkpointName :: string where "checkpointName = ''checkpoint''"
definition tmp_name :: "string \<Rightarrow> string" where "tmp_name s = s @ ''.tmp''"

section \<open>Segment names\<close>

definition has_prefix :: "string \<Rightarrow> string \<Rightarrow> bool" where
  "has_prefix s p \<longleftrightarrow> take (length p) s = p"

definition has_suffix :: "string \<Rightarrow> string \<Rightarrow> bool" where
  "has_suffix s q \<longleftrightarrow> length q \<le> length s \<and> drop (length s - length q) s = q"

definition trim_name :: "string \<Rightarrow> string" where
  "trim_name s =
     (let base = (if has_prefix s ''wal-'' then drop 4 s else s)
      in if has_suffix base ''.seg'' then take (length base - 4) base else base)"

definition segmentIndex :: "string \<Rightarrow> err + int" where
  "segmentIndex name =
     (case parse_int (trim_name name) of None \<Rightarrow> Inl (ErrSegmentName name) | Some n \<Rightarrow> Inr n)"

definition segmentIndexFromPath :: "string \<Rightarrow> int" where
  "segmentIndexFromPath name = (case parse_int (trim_name name) of None \<Rightarrow> 0 | Some n \<Rightarrow> n)"

text \<open>The verb \<open>%06d\<close> counts the sign of a negative number among the six characters.\<close>

definition segment_name :: "int \<Rightarrow> string" where
  "segment_name idx = ''wal-'' @
     (if idx < 0 then CHR ''-'' # pad_left 5 (show_nat (nat (- idx))) else pad_left 6 (show_nat (nat idx))) @ ''.seg''"

section \<open>Opening a segment\<close>

fun scan_segment :: "byte list list \<Rightarrow> uint64 \<times> uint64 \<Rightarrow> uint64 \<times> uint64" where
  "scan_segment [] fl = fl"
| "scan_segment (line # ls) (fst_seq, lst_seq) =
     (if length line < recordSize + crcSize then scan_segment ls (fst_seq, lst_seq)
      else if \<not> verifyChecksum line then scan_segment ls (fst_seq, lst_seq)
      else (let s = get_le (take 8 line)
            in scan_segment ls (if s < fst_seq then s else fst_seq, if lst_seq < s then s else lst_seq)))"

definition openSegment :: "string \<Rightarrow> disk \<Rightarrow> (err + segment) \<times> disk" where
  "openSegment name d =
     (case os_create name d of
        (Some e, d1) \<Rightarrow> (Inl e, d1)
      | (None, d1) \<Rightarrow>
          (case os_call d1 of
             (Some e, d2) \<Rightarrow> (Inl e, snd (os_call d2))
           | (None, d2) \<Rightarrow>
               (case os_read name d2 of
                  ((bs, failed), d3) \<Rightarrow>
                    (case scan_lines bs of
                       (ls, too_long) \<Rightarrow>
                         (case scan_segment ls (-1, 0) of
                            (fst_seq, lst_seq) \<Rightarrow>
                              if too_long then (Inl ErrTooLong, snd (os_call d3))
                              else if failed then (Inl ErrIO, snd (os_call d3))
                              else (Inr \<lparr>sgName = name, sgWriter = new_writer,
                                         sgFirst = (if fst_seq = -1 then 0 else fst_seq),
                                         sgLast = lst_seq,
                                         sgSize = word_of_nat (length (content name d2))\<rparr>, d3))))))"

section \<open>The current segment and rotation\<close>

text \<open>The loop over the map keeps the largest index above zero, in whatever order it runs.\<close>

definition top_index_from :: "int list \<Rightarrow> int" where
  "top_index_from ks = fold (\<lambda>i idx. if i > idx then i else idx) ks 0"

definition top_index :: "(int, segment) fmap \<Rightarrow> int" where
  "top_index m = top_index_from (key_order m)"

text \<open>The next index is an \<open>int\<close> of 64 bits, which wraps.\<close>

definition next_index :: "int \<Rightarrow> int" where
  "next_index i = sint (word_of_int (i + 1) :: int64)"

definition rotate_log :: "wal \<Rightarrow> err option \<times> wal" where
  "rotate_log w =
     (let idx = next_index (top_index (segments w))
      in case openSegment (segment_name idx) (wDisk w) of
           (Inl e, d) \<Rightarrow> (Some e, w\<lparr>wDisk := d\<rparr>)
         | (Inr seg, d) \<Rightarrow> (None, w\<lparr>segments := fmupd idx seg (segments w), wDisk := d\<rparr>))"

definition currentLocked :: "wal \<Rightarrow> (int \<times> segment) option" where
  "currentLocked w =
     (let idx = top_index (segments w) in map_option (\<lambda>seg. (idx, seg)) (fmlookup (segments w) idx))"

definition seg_write :: "wal_record \<Rightarrow> segment \<Rightarrow> disk \<Rightarrow> err option \<times> segment \<times> disk" where
  "seg_write rec seg d =
     (let buf = encodeRecord rec
      in case bufio_write (sgName seg) buf (sgWriter seg) d of
           (Some e, wr, d1) \<Rightarrow> (Some e, seg\<lparr>sgWriter := wr\<rparr>, d1)
         | (None, wr, d1) \<Rightarrow>
             (None, seg\<lparr>sgWriter := wr,
                        sgSize := sgSize seg + word_of_nat (length buf),
                        sgFirst := (if rSeq rec < sgFirst seg \<or> sgFirst seg = 0 then rSeq rec else sgFirst seg),
                        sgLast := (if sgLast seg < rSeq rec then rSeq rec else sgLast seg)\<rparr>, d1))"

text \<open>The flush of the writer, then \<open>Sync\<close> of the file, which fails on a file that has been closed.\<close>

definition seg_flush :: "segment \<Rightarrow> disk \<Rightarrow> err option \<times> segment \<times> disk" where
  "seg_flush seg d =
     (case bufio_flush (sgName seg) (sgWriter seg) d of
        (Some e, wr, d1) \<Rightarrow> (Some e, seg\<lparr>sgWriter := wr\<rparr>, d1)
      | (None, wr, d1) \<Rightarrow>
          if wClosed wr then (Some ErrIO, seg\<lparr>sgWriter := wr\<rparr>, d1)
          else (case os_call d1 of (e, d2) \<Rightarrow> (e, seg\<lparr>sgWriter := wr\<rparr>, d2)))"

text \<open>\<open>Close\<close> of the file: it is closed afterwards also when the call reports an error.\<close>

definition seg_close :: "segment \<Rightarrow> disk \<Rightarrow> err option \<times> segment \<times> disk" where
  "seg_close seg d =
     (if wClosed (sgWriter seg) then (Some ErrIO, seg, d)
      else (case os_call d of (e, d1) \<Rightarrow> (e, seg\<lparr>sgWriter := (sgWriter seg)\<lparr>wClosed := True\<rparr>\<rparr>, d1)))"

text \<open>\<open>flush\<close> through the pointer the segment map holds.\<close>

definition flush_at :: "int \<Rightarrow> segment \<Rightarrow> wal \<Rightarrow> err option \<times> wal" where
  "flush_at i seg w =
     (case seg_flush seg (wDisk w) of
        (e, seg1, d) \<Rightarrow> (e, w\<lparr>segments := fmupd i seg1 (segments w), wDisk := d\<rparr>))"

text \<open>\<open>flush\<close> and then \<open>Close\<close>; the segment map keeps the segment, closed or not.\<close>

definition flush_close :: "int \<Rightarrow> segment \<Rightarrow> wal \<Rightarrow> err option \<times> wal" where
  "flush_close i seg w =
     (case seg_flush seg (wDisk w) of
        (Some e, seg1, d) \<Rightarrow> (Some e, w\<lparr>segments := fmupd i seg1 (segments w), wDisk := d\<rparr>)
      | (None, seg1, d) \<Rightarrow>
          (case seg_close seg1 d of
             (e, seg2, d1) \<Rightarrow> (e, w\<lparr>segments := fmupd i seg2 (segments w), wDisk := d1\<rparr>)))"

definition rotateLocked :: "wal \<Rightarrow> err option \<times> wal" where
  "rotateLocked w =
     (case currentLocked w of
        None \<Rightarrow> (Some PanicNil, w)
      | Some (i, seg) \<Rightarrow>
          (case flush_at i seg w of
             (Some e, w1) \<Rightarrow> (Some e, w1)
           | (None, w1) \<Rightarrow> rotate_log w1))"

section \<open>Append, Sync, Close, Info\<close>

definition write_current :: "wal_record \<Rightarrow> wal \<Rightarrow> (err + uint64) \<times> wal" where
  "write_current rec w =
     (case currentLocked w of
        None \<Rightarrow> (Inl PanicNil, w)
      | Some (i, seg) \<Rightarrow>
          (case seg_write rec seg (wDisk w) of
             (Some e, seg1, d) \<Rightarrow> (Inl e, w\<lparr>segments := fmupd i seg1 (segments w), wDisk := d\<rparr>)
           | (None, seg1, d) \<Rightarrow>
               (Inr (rSeq rec),
                w\<lparr>segments := fmupd i seg1 (segments w), wDisk := d, nextSeq := nextSeq w + 1\<rparr>)))"

definition Wal_Append :: "wal_record \<Rightarrow> wal \<Rightarrow> (err + uint64) \<times> wal" where
  "Wal_Append rec w =
     (let rec1 = rec\<lparr>rSeq := nextSeq w\<rparr>
      in case currentLocked w of
           None \<Rightarrow> (Inl PanicNil, w)
         | Some (i, seg) \<Rightarrow>
             if maxSize w \<le>s sgSize seg
             then (case rotateLocked w of
                     (Some e, w1) \<Rightarrow> (Inl e, w1)
                   | (None, w1) \<Rightarrow> write_current rec1 w1)
             else write_current rec1 w)"

definition Sync :: "wal \<Rightarrow> err option \<times> wal" where
  "Sync w = (case currentLocked w of None \<Rightarrow> (Some PanicNil, w) | Some (i, seg) \<Rightarrow> flush_at i seg w)"

fun close_loop :: "int list \<Rightarrow> err option \<Rightarrow> wal \<Rightarrow> err option \<times> wal" where
  "close_loop [] first_err w = (first_err, w)"
| "close_loop (i # is) first_err w =
     (case fmlookup (segments w) i of
        None \<Rightarrow> close_loop is first_err w
      | Some seg \<Rightarrow>
          (case seg_flush seg (wDisk w) of
             (e1, seg1, d1) \<Rightarrow>
               (case seg_close seg1 d1 of
                  (e2, seg2, d2) \<Rightarrow>
                    let err1 = (if first_err = None then e1 else first_err);
                        err2 = (if err1 = None then e2 else err1)
                    in close_loop is err2 (w\<lparr>segments := fmdrop i (segments w), wDisk := d2\<rparr>))))"

definition Wal_Close :: "int list \<Rightarrow> wal \<Rightarrow> err option \<times> wal" where
  "Wal_Close ks w = close_loop ks None w"

record wal_info =
  wi_segments :: nat
  wi_next_seq :: uint64
  wi_size :: int64

definition Wal_Info :: "int list \<Rightarrow> wal \<Rightarrow> wal_info" where
  "Wal_Info ks w =
     fold (\<lambda>i info. case fmlookup (segments w) i of
             None \<Rightarrow> info
           | Some seg \<Rightarrow> info\<lparr>wi_segments := wi_segments info + 1, wi_size := wi_size info + sgSize seg\<rparr>)
       ks \<lparr>wi_segments = 0, wi_next_seq = nextSeq w, wi_size = 0\<rparr>"

section \<open>The replay watermark\<close>

definition persistReplayLocked :: "wal \<Rightarrow> err option \<times> wal" where
  "persistReplayLocked w =
     (let tmp = tmp_name checkpointName
      in case os_write_file tmp (bytes_of (show_nat (unat (nextReplay w)))) (wDisk w) of
           (Some e, d) \<Rightarrow> (Some e, w\<lparr>wDisk := d\<rparr>)
         | (None, d) \<Rightarrow> (case os_rename tmp checkpointName d of (e, d1) \<Rightarrow> (e, w\<lparr>wDisk := d1\<rparr>)))"

definition SetReplayStart :: "uint64 \<Rightarrow> wal \<Rightarrow> err option \<times> wal" where
  "SetReplayStart s w =
     persistReplayLocked (if nextReplay w < s then w\<lparr>nextReplay := s\<rparr> else w)"

definition loadCheckpoint :: "wal \<Rightarrow> err option \<times> wal" where
  "loadCheckpoint w =
     (case os_open checkpointName (wDisk w) of
        (Some (ErrNotExist n), d) \<Rightarrow> (None, w\<lparr>wDisk := d\<rparr>)
      | (Some e, d) \<Rightarrow> (Some e, w\<lparr>wDisk := d\<rparr>)
      | (None, d) \<Rightarrow>
          (case os_read checkpointName d of
             ((bs, True), d1) \<Rightarrow> (Some ErrIO, w\<lparr>wDisk := d1\<rparr>)
           | ((bs, False), d1) \<Rightarrow>
               (case parse_uint64 (chars_of bs) of
                  None \<Rightarrow> (Some ErrCheckpoint, w\<lparr>wDisk := d1\<rparr>)
                | Some v \<Rightarrow> (None, w\<lparr>nextReplay := v, wDisk := d1\<rparr>))))"

section \<open>Open\<close>

fun load_loop :: "string list \<Rightarrow> wal \<Rightarrow> err option \<times> wal" where
  "load_loop [] w = (None, w)"
| "load_loop (name # names) w =
     (case segmentIndex name of
        Inl e \<Rightarrow> (Some e, w)
      | Inr idx \<Rightarrow>
          (case openSegment name (wDisk w) of
             (Inl e, d) \<Rightarrow> (Some e, w\<lparr>wDisk := d\<rparr>)
           | (Inr seg, d) \<Rightarrow>
               load_loop names
                 (w\<lparr>segments := fmupd idx seg (segments w), wDisk := d,
                    nextSeq := (if nextSeq w \<le> sgLast seg then sgLast seg + 1 else nextSeq w)\<rparr>)))"

definition segment_file :: "string \<Rightarrow> bool" where
  "segment_file name \<longleftrightarrow> has_prefix name ''wal-'' \<and> has_suffix name ''.seg''"

definition loadSegments :: "wal \<Rightarrow> err option \<times> wal" where
  "loadSegments w =
     (case os_read_dir (wDisk w) of
        (Inl e, d) \<Rightarrow> (Some e, w\<lparr>wDisk := d\<rparr>)
      | (Inr entries, d) \<Rightarrow>
          (case load_loop (sort (filter segment_file entries)) (w\<lparr>wDisk := d\<rparr>) of
             (Some e, w1) \<Rightarrow> (Some e, w1)
           | (None, w1) \<Rightarrow>
               (case loadCheckpoint w1 of
                  (Some e, w2) \<Rightarrow> (Some e, w2)
                | (None, w2) \<Rightarrow> if fmsize (segments w2) = 0 then rotate_log w2 else (None, w2))))"

definition Wal_Open :: "int64 \<Rightarrow> disk \<Rightarrow> (err + wal) \<times> disk" where
  "Wal_Open max_size d =
     (case os_call d of
        (Some e, d1) \<Rightarrow> (Inl e, d1)
      | (None, d1) \<Rightarrow>
          (case loadSegments \<lparr>segments = fmempty, nextSeq = 0, nextReplay = 0, maxSize = max_size, wDisk = d1\<rparr> of
             (Some e, w) \<Rightarrow> (Inl e, wDisk w)
           | (None, w) \<Rightarrow> (Inr w, wDisk w)))"

section \<open>Replay\<close>

fun replay_loop ::
  "uint64 \<Rightarrow> (wal_record \<Rightarrow> 's \<Rightarrow> err option \<times> 's) \<Rightarrow> int list \<Rightarrow> 's \<Rightarrow> wal
    \<Rightarrow> (err option \<times> 's) \<times> wal" where
  "replay_loop from fn [] s w = ((None, s), w)"
| "replay_loop from fn (i # is) s w =
     (case fmlookup (segments w) i of
        None \<Rightarrow> replay_loop from fn is s w
      | Some seg \<Rightarrow>
          if sgLast seg < from then replay_loop from fn is s w
          else (case os_open (sgName seg) (wDisk w) of
                  (Some e, d) \<Rightarrow> ((Some e, s), w\<lparr>wDisk := d\<rparr>)
                | (None, d) \<Rightarrow>
                    (case os_read (sgName seg) d of
                       ((bs, failed), d1) \<Rightarrow>
                         let w1 = w\<lparr>wDisk := snd (os_call d1)\<rparr>
                         in (case scanRecords bs from fn s of
                               (Some e, s1) \<Rightarrow> ((Some e, s1), w1)
                             | (None, s1) \<Rightarrow>
                                 if failed then ((Some ErrIO, s1), w1)
                                 else replay_loop from fn is s1 w1))))"

definition Replay ::
  "uint64 \<Rightarrow> (wal_record \<Rightarrow> 's \<Rightarrow> err option \<times> 's) \<Rightarrow> 's \<Rightarrow> wal \<Rightarrow> (err option \<times> 's) \<times> wal" where
  "Replay from fn s w = replay_loop from fn (key_order (segments w)) s w"

definition ReplayUnflushed ::
  "(wal_record \<Rightarrow> 's \<Rightarrow> err option \<times> 's) \<Rightarrow> 's \<Rightarrow> wal \<Rightarrow> (err option \<times> 's) \<times> wal" where
  "ReplayUnflushed fn s w = Replay (nextReplay w) fn s w"

section \<open>Truncation\<close>

text \<open>The loop both truncations start with: flush, close, remove and forget the chosen segments.\<close>

fun drop_segments :: "(segment \<Rightarrow> bool) \<Rightarrow> int list \<Rightarrow> wal \<Rightarrow> err option \<times> wal" where
  "drop_segments old [] w = (None, w)"
| "drop_segments old (i # is) w =
     (case fmlookup (segments w) i of
        None \<Rightarrow> drop_segments old is w
      | Some seg \<Rightarrow>
          if \<not> old seg then drop_segments old is w
          else (case flush_close i seg w of
                  (Some e, w1) \<Rightarrow> (Some e, w1)
                | (None, w1) \<Rightarrow>
                    (case os_remove (sgName seg) (wDisk w1) of
                       (Some e, d) \<Rightarrow> (Some e, w1\<lparr>wDisk := d\<rparr>)
                     | (None, d) \<Rightarrow>
                         drop_segments old is (w1\<lparr>segments := fmdrop i (segments w1), wDisk := d\<rparr>))))"

definition TruncateBefore :: "int list \<Rightarrow> uint64 \<Rightarrow> wal \<Rightarrow> err option \<times> wal" where
  "TruncateBefore ks s w =
     (case drop_segments (\<lambda>seg. sgLast seg < s) ks w of
        (Some e, w1) \<Rightarrow> (Some e, w1)
      | (None, w1) \<Rightarrow> if fmsize (segments w1) = 0 then rotate_log w1 else (None, w1))"

fun write_records :: "string \<Rightarrow> wal_record list \<Rightarrow> writer \<Rightarrow> disk \<Rightarrow> err option \<times> writer \<times> disk" where
  "write_records name [] wr d = (None, wr, d)"
| "write_records name (rec # recs) wr d =
     (case bufio_write name (encodeRecord rec) wr d of
        (Some e, wr1, d1) \<Rightarrow> (Some e, wr1, d1)
      | (None, wr1, d1) \<Rightarrow> write_records name recs wr1 d1)"

text \<open>Writing the kept records to a fresh file; each failure closes and removes it.\<close>

definition write_tmp :: "string \<Rightarrow> wal_record list \<Rightarrow> disk \<Rightarrow> err option \<times> disk" where
  "write_tmp tmp keep d =
     (let undo = (\<lambda>d. snd (os_remove tmp (snd (os_call d))))
      in case write_records tmp keep new_writer d of
           (Some e, wr, d1) \<Rightarrow> (Some e, undo d1)
         | (None, wr, d1) \<Rightarrow>
             (case bufio_flush tmp wr d1 of
                (Some e, wr1, d2) \<Rightarrow> (Some e, undo d2)
              | (None, wr1, d2) \<Rightarrow>
                  (case os_call d2 of
                     (Some e, d3) \<Rightarrow> (Some e, undo d3)
                   | (None, d3) \<Rightarrow>
                       (case os_call d3 of
                          (Some e, d4) \<Rightarrow> (Some e, snd (os_remove tmp d4))
                        | (None, d4) \<Rightarrow> (None, d4)))))"

definition swap_in :: "string \<Rightarrow> int \<Rightarrow> segment \<Rightarrow> wal \<Rightarrow> err option \<times> wal" where
  "swap_in tmp i cur w =
     (case flush_close i cur w of
        (Some e, w1) \<Rightarrow> (Some e, w1)
      | (None, w1) \<Rightarrow>
          (case os_rename tmp (sgName cur) (wDisk w1) of
             (Some e, d) \<Rightarrow> (Some e, w1\<lparr>wDisk := d\<rparr>)
           | (None, d) \<Rightarrow>
               (case openSegment (sgName cur) d of
                  (Inl e, d1) \<Rightarrow> (Some e, w1\<lparr>wDisk := d1\<rparr>)
                | (Inr seg, d1) \<Rightarrow>
                    (None, w1\<lparr>segments := fmupd (segmentIndexFromPath (sgName cur)) seg (segments w1),
                              wDisk := d1\<rparr>))))"

definition rewrite_current :: "uint64 \<Rightarrow> wal \<Rightarrow> err option \<times> wal" where
  "rewrite_current s w =
     (case currentLocked w of
        None \<Rightarrow> (Some PanicNil, w)
      | Some (i, cur) \<Rightarrow>
          (case os_open (sgName cur) (wDisk w) of
             (Some e, d) \<Rightarrow> (Some (PanicOpen (sgName cur)), w\<lparr>wDisk := d\<rparr>)
           | (None, d) \<Rightarrow>
               (case os_read (sgName cur) d of
                  ((bs, failed), d1) \<Rightarrow>
                    (case scanRecords bs (s + 1) (\<lambda>rec keep. (None, keep @ [rec])) [] of
                       (Some e, keep) \<Rightarrow> (Some e, w\<lparr>wDisk := d1\<rparr>)
                     | (None, keep) \<Rightarrow>
                         if failed then (Some ErrIO, w\<lparr>wDisk := d1\<rparr>)
                         else (let tmp = tmp_name (sgName cur)
                               in case os_create_trunc tmp d1 of
                                    (Some e, d2) \<Rightarrow> (Some e, w\<lparr>wDisk := d2\<rparr>)
                                  | (None, d2) \<Rightarrow>
                                      (case write_tmp tmp keep d2 of
                                         (Some e, d3) \<Rightarrow> (Some e, w\<lparr>wDisk := d3\<rparr>)
                                       | (None, d3) \<Rightarrow> swap_in tmp i cur (w\<lparr>wDisk := d3\<rparr>)))))))"

definition TruncateTo :: "int list \<Rightarrow> uint64 \<Rightarrow> wal \<Rightarrow> err option \<times> wal" where
  "TruncateTo ks s w =
     (case drop_segments (\<lambda>seg. sgLast seg \<le> s) ks w of
        (Some e, w1) \<Rightarrow> (Some e, w1)
      | (None, w1) \<Rightarrow> if fmsize (segments w1) = 0 then rotate_log w1 else rewrite_current s w1)"

section \<open>Names\<close>

lemma next_index: "0 \<le> i \<Longrightarrow> i + 1 < 2 ^ 63 \<Longrightarrow> next_index i = i + 1"
  unfolding next_index_def by (subst sint_sbintrunc') (rule signed_take_bit_int_eq_self, simp_all)

lemma trim_segment_name: "0 < i \<Longrightarrow> trim_name (segment_name i) = pad_left 6 (show_nat (nat i))"
  by (simp add: trim_name_def segment_name_def has_prefix_def has_suffix_def Let_def)

lemma segmentIndex_name:
  assumes "0 < i" and "i < 2 ^ 63"
  shows "segmentIndex (segment_name i) = Inr i" and "segmentIndexFromPath (segment_name i) = i"
proof -
  have "nat i < 2 ^ 63" using assms by (simp add: nat_less_iff)
  then have "parse_int (pad_left 6 (show_nat (nat i))) = Some i"
    using assms(1) by (simp add: parse_int_pad)
  then show "segmentIndex (segment_name i) = Inr i" "segmentIndexFromPath (segment_name i) = i"
    using assms(1) by (simp_all add: segmentIndex_def segmentIndexFromPath_def trim_segment_name)
qed

lemma segment_name_inject:
  "0 < i \<Longrightarrow> i < 2 ^ 63 \<Longrightarrow> 0 < j \<Longrightarrow> j < 2 ^ 63 \<Longrightarrow> segment_name i = segment_name j \<longleftrightarrow> i = j"
  by (metis segmentIndex_name(2))

lemma segment_file_name: "segment_file (segment_name i)"
  by (simp add: segment_file_def segment_name_def has_prefix_def has_suffix_def)

lemma not_segment_file: "\<not> segment_file checkpointName" "\<not> segment_file (tmp_name s)"
  by (simp_all add: segment_file_def checkpointName_def tmp_name_def has_prefix_def has_suffix_def)

section \<open>Segments as logs\<close>

text \<open>
  \<open>seg_ok d seg recs\<close>: the file followed by the buffer is the encoding of \<open>recs\<close>, and \<open>sgLast\<close>
  bounds the sequence numbers of those records a scan can find.
\<close>

definition seg_ok :: "disk \<Rightarrow> segment \<Rightarrow> wal_record list \<Rightarrow> bool" where
  "seg_ok d seg recs \<longleftrightarrow>
     content (sgName seg) d @ wBuf (sgWriter seg) = logged recs \<and> sound (sgWriter seg)
     \<and> fmlookup (files d) (sgName seg) \<noteq> None
     \<and> (\<forall>r \<in> set recs. frame_safe r \<longrightarrow> rSeq r \<le> sgLast seg)"

lemma seg_ok_cong:
  "seg_ok d seg recs \<Longrightarrow> fmlookup (files d') (sgName seg) = fmlookup (files d) (sgName seg) \<Longrightarrow> seg_ok d' seg recs"
  by (simp add: seg_ok_def content_def)

lemma logged_append [simp]: "logged (xs @ ys) = logged xs @ logged ys"
  by (simp add: logged_def)

lemma logged_simps [simp]: "logged [] = []" "logged [r] = encodeRecord r"
  by (simp_all add: logged_def)

lemma seg_write_effect:
  assumes "seg_write r seg d = (None, seg', d')"
  shows "seg_ok d seg recs \<Longrightarrow> seg_ok d' seg' (recs @ [r])"
    and "sgName seg' = sgName seg"
    and "k \<noteq> sgName seg \<Longrightarrow> fmlookup (files d') k = fmlookup (files d) k"
proof -
  obtain wr where w: "bufio_write (sgName seg) (encodeRecord r) (sgWriter seg) d = (None, wr, d')"
      "sgName seg' = sgName seg" "sgWriter seg' = wr" "sgLast seg' = (if sgLast seg < rSeq r then rSeq r else sgLast seg)"
    using assms by (auto simp: seg_write_def Let_def split: prod.splits option.splits)
  have wr: "wrote (sgName seg) (sgWriter seg) d (encodeRecord r) (None, wr, d')"
    using bufio_write_wrote [of "sgName seg" "sgWriter seg" d "encodeRecord r"] w(1) by simp
  show "sgName seg' = sgName seg" by (rule w(2))
  show "k \<noteq> sgName seg \<Longrightarrow> fmlookup (files d') k = fmlookup (files d) k"
    using wr by (simp add: wrote_def)
  assume ok: "seg_ok d seg recs"
  from wr have "content (sgName seg) d' @ wBuf wr = content (sgName seg) d @ wBuf (sgWriter seg) @ encodeRecord r"
    by (auto simp: wrote_def)
  with ok have "content (sgName seg) d' @ wBuf wr = logged (recs @ [r])"
    by (simp add: seg_ok_def flip: append_assoc)
  moreover have "sound wr" "fmlookup (files d') (sgName seg) \<noteq> None"
    using wr ok by (auto simp: wrote_def seg_ok_def sound_def)
  ultimately show "seg_ok d' seg' (recs @ [r])"
    using ok w(2-4) by (auto simp: seg_ok_def intro: order_trans)
qed

lemma seg_flush_effect:
  assumes "seg_flush seg d = (None, seg', d')"
  shows "seg_ok d seg recs \<Longrightarrow> seg_ok d' seg' recs"
    and "seg' = seg\<lparr>sgWriter := new_writer\<rparr>"
    and "k \<noteq> sgName seg \<Longrightarrow> fmlookup (files d') k = fmlookup (files d) k"
    and "content (sgName seg) d' = content (sgName seg) d @ wBuf (sgWriter seg)"
proof -
  obtain wr d1 where f: "bufio_flush (sgName seg) (sgWriter seg) d = (None, wr, d1)"
      "seg' = seg\<lparr>sgWriter := wr\<rparr>" "os_call d1 = (None, d')" "\<not> wClosed wr"
    using assms by (auto simp: seg_flush_def split: prod.splits option.splits if_splits)
  have clear: "wr = new_writer" using bufio_flush_clears [OF f(1)] f(4) by (simp add: new_writer_def)
  have same: "files d' = files d1" by (rule os_call_files [OF f(3)])
  have wr: "wrote (sgName seg) (sgWriter seg) d [] (None, wr, d1)"
    using bufio_flush_wrote [of "sgName seg" "sgWriter seg" d] f(1) by simp
  show "seg' = seg\<lparr>sgWriter := new_writer\<rparr>" using f(2) clear by simp
  show "k \<noteq> sgName seg \<Longrightarrow> fmlookup (files d') k = fmlookup (files d) k"
    using wr same by (simp add: wrote_def)
  show c: "content (sgName seg) d' = content (sgName seg) d @ wBuf (sgWriter seg)"
    using wr clear by (auto simp: wrote_def new_writer_def content_cong [OF same])
  have "fmlookup (files d) (sgName seg) \<noteq> None \<Longrightarrow> fmlookup (files d') (sgName seg) \<noteq> None"
    using wr same by (simp add: wrote_def)
  then show "seg_ok d seg recs \<Longrightarrow> seg_ok d' seg' recs"
    using c f(2) clear by (simp add: seg_ok_def new_writer_def)
qed

text \<open>\<open>flush\<close> and \<open>Close\<close> together succeed only on an open file, and the second is one call more.\<close>

lemma flush_close_success:
  assumes "flush_close i seg w = (None, w')"
  obtains w1 d where "flush_at i seg w = (None, w1)" "os_call (wDisk w1) = (None, d)"
    and "w' = w1\<lparr>segments := fmupd i (seg\<lparr>sgWriter := new_writer\<lparr>wClosed := True\<rparr>\<rparr>) (segments w1), wDisk := d\<rparr>"
proof -
  obtain seg1 d1 where f: "seg_flush seg (wDisk w) = (None, seg1, d1)"
    using assms by (auto simp: flush_close_def split: prod.splits option.splits)
  note seg1 = seg_flush_effect(2) [OF f]
  with assms f obtain d where "os_call d1 = (None, d)"
      "w' = w\<lparr>segments := fmupd i (seg\<lparr>sgWriter := new_writer\<lparr>wClosed := True\<rparr>\<rparr>) (segments w), wDisk := d\<rparr>"
    by (auto simp: flush_close_def seg_close_def new_writer_def split: prod.splits)
  then show thesis using f by (intro that [of "w\<lparr>segments := fmupd i seg1 (segments w), wDisk := d1\<rparr>" d]) (simp_all add: flush_at_def)
qed

lemma closed_seg_flush:
  "wClosed (sgWriter seg) \<Longrightarrow> \<exists>seg'. seg_flush seg d = (Some ErrIO, seg', d) \<and> wClosed (sgWriter seg')"
  by (simp add: seg_flush_def bufio_flush_def file_write_def)

lemma closed_flush_close:
  assumes "wClosed (sgWriter seg)"
  shows "fst (flush_close i seg w) = Some ErrIO"
  using closed_seg_flush [OF assms, of "wDisk w"] by (auto simp: flush_close_def)

lemma flush_close_others: "j \<noteq> i \<Longrightarrow> fmlookup (segments (snd (flush_close i seg w))) j = fmlookup (segments w) j"
  by (simp add: flush_close_def split: prod.splits option.splits)

lemma flush_close_clean:
  assumes "flush_at i seg w = (None, w1)" and "faults (wDisk w1) = []"
  shows "flush_close i seg w = (None, w1\<lparr>segments := fmupd i (seg\<lparr>sgWriter := new_writer\<lparr>wClosed := True\<rparr>\<rparr>) (segments w1)\<rparr>)"
proof -
  obtain seg1 d1 where f: "seg_flush seg (wDisk w) = (None, seg1, d1)" "w1 = w\<lparr>segments := fmupd i seg1 (segments w), wDisk := d1\<rparr>"
    using assms(1) by (auto simp: flush_at_def split: prod.splits)
  with assms(2) seg_flush_effect(2) [OF f(1)] show ?thesis
    by (simp add: flush_close_def seg_close_def new_writer_def)
qed

text \<open>Opening a segment rescans its file: \<open>sgLast\<close> is the largest number the scan finds.\<close>

definition max_seq :: "uint64 list \<Rightarrow> uint64" where
  "max_seq ss = fold max ss 0"

lemma scan_segment_last:
  "snd (scan_segment ls (a, b)) = fold max (map (\<lambda>l. rSeq (decode_line l)) (filter verifyChecksum ls)) b"
proof (induction ls arbitrary: a b)
  case (Cons l ls)
  have "verifyChecksum l \<Longrightarrow> \<not> length l < recordSize + crcSize"
    by (simp add: verifyChecksum_def split: if_splits)
  with Cons show ?case by (auto simp: Let_def decode_line_def max_def not_less)
qed simp

lemma fold_max_ge: "s \<in> set ss \<or> s \<le> b \<Longrightarrow> s \<le> fold max ss (b :: 'a::linorder)"
proof (induction ss arbitrary: b)
  case (Cons a ss)
  from Cons.prems consider "s \<in> set ss" | "s = a" | "s \<le> b" by auto
  then have "s \<in> set ss \<or> s \<le> max a b" by cases (simp_all add: max.coboundedI2)
  from Cons.IH [OF this] show ?case by simp
qed simp

lemma openSegment_effect:
  assumes "openSegment name d = (Inr seg, d')"
  shows "files d' = (if fmlookup (files d) name = None then fmupd name [] (files d) else files d)"
    and "sgName seg = name" and "sgWriter seg = new_writer"
    and "sgLast seg = snd (scan_segment (fst (scan_lines (content name d))) (-1, 0))"
    and "sgSize seg = word_of_nat (length (content name d))"
proof -
  obtain e1 d1 where c1: "os_create name d = (e1, d1)" by (rule prod.exhaust)
  with assms have n1: "e1 = None" by (cases e1) (simp_all add: openSegment_def)
  obtain e2 d2 where c2: "os_call d1 = (e2, d2)" by (rule prod.exhaust)
  with assms have n2: "e2 = None" by (cases e2) (simp_all add: openSegment_def c1 n1)
  obtain bs failed d3 where c3: "os_read name d2 = ((bs, failed), d3)" by (metis prod.exhaust)
  obtain ls too_long where c4: "scan_lines bs = (ls, too_long)" by (rule prod.exhaust)
  obtain a b where c5: "scan_segment ls (-1, 0) = (a, b)" by (rule prod.exhaust)
  have r: "\<not> too_long \<and> \<not> failed \<and> d3 = d' \<and> seg = \<lparr>sgName = name, sgWriter = new_writer,
      sgFirst = (if a = -1 then 0 else a), sgLast = b, sgSize = word_of_nat (length (content name d2))\<rparr>"
    using assms by (simp add: openSegment_def c1 n1 c2 n2 c3 c4 c5 split: if_splits)
  then have "bs = content name d2" using c3 by (simp add: os_read_content)
  then have o1: "os_create name d = (None, d1)" and o2: "os_call d1 = (None, d2)"
    and o3: "os_read name d2 = ((content name d2, False), d')"
    using c1 c2 c3 n1 n2 r by simp_all
  have o4: "sgName seg = name" "sgWriter seg = new_writer" "sgSize seg = word_of_nat (length (content name d2))"
    using r by simp_all
  have o5: "sgLast seg = snd (scan_segment (fst (scan_lines (content name d2))) (-1, 0))"
    using r c4 c5 \<open>bs = content name d2\<close> by (metis fst_conv snd_conv segment.select_convs(4))
  note f = os_create_success [OF o1] os_call_files [OF o2] os_read_files [OF o3]
  then have c: "content name d2 = content name d" by (simp add: content_def)
  show "files d' = (if fmlookup (files d) name = None then fmupd name [] (files d) else files d)"
    using f by simp
  show "sgName seg = name" "sgWriter seg = new_writer"
    "sgLast seg = snd (scan_segment (fst (scan_lines (content name d))) (-1, 0))"
    "sgSize seg = word_of_nat (length (content name d))"
    using o4 o5 c by simp_all
qed

lemma sgLast_scans:
  assumes "openSegment name d = (Inr seg, d')" and "scans_as (content name d) recs"
  shows "sgLast seg = max_seq (map rSeq (filter frame_safe recs))"
  using openSegment_effect(4) [OF assms(1)] assms(2)
  by (simp add: scans_as_def scan_segment_last max_seq_def comp_def decode_body)

lemma openSegment_ok:
  assumes "openSegment name d = (Inr seg, d')" and "content name d = logged recs"
  shows "seg_ok d' seg recs"
proof -
  note e = openSegment_effect [OF assms(1)]
  have "rSeq r \<le> sgLast seg" if "r \<in> set recs" "frame_safe r" for r
    using sgLast_scans [OF assms(1), of recs] scans_as_logged [of recs] assms(2) that
    by (auto simp: max_seq_def intro!: fold_max_ge)
  then show ?thesis
    using e(1-3) assms(2) by (auto simp: seg_ok_def new_writer_def content_def)
qed

lemma openSegment_succeeds:
  assumes "faults d = []" and "\<not> snd (scan_lines (content name d))"
  shows "\<exists>seg d'. openSegment name d = (Inr seg, d') \<and> faults d' = []"
proof -
  obtain d1 where "os_create name d = (None, d1)" "faults d1 = []" using os_create_ok [OF assms(1)] by blast
  moreover from os_create_success [OF this(1)] have "content name d1 = content name d"
    by (simp add: content_def)
  ultimately show ?thesis
    using assms(2) by (auto simp: openSegment_def split_beta)
qed

section \<open>The index of the current segment\<close>

lemma top_index_from_Max: "top_index_from ks = Max (insert 0 (set ks))"
proof -
  have "fold (\<lambda>i idx. if i > idx then i else idx) ks b = Max (insert b (set ks))" for b :: int
  proof (induction ks arbitrary: b)
    case (Cons k ks)
    have "(if k > b then k else b) = max k b" by simp
    then have "Max (insert (if k > b then k else b) (set ks)) = Max (insert b (set (k # ks)))"
      by (cases "set ks = {}") (simp_all add: Max.insert max.assoc max.commute max.left_commute)
    with Cons show ?case by simp
  qed simp
  then show ?thesis by (simp add: top_index_from_def)
qed

lemma top_index_order: "visits ks m \<Longrightarrow> top_index_from ks = top_index m"
  using iterates_visits [OF iterates_key_order, of m]
  by (simp add: top_index_def top_index_from_Max visits_set)

lemma top_index_ge: "fmlookup m i = Some seg \<Longrightarrow> i \<le> top_index m" "0 \<le> top_index m"
proof -
  have ks: "set (key_order m) = fmdom' m" "finite (insert 0 (fmdom' m))"
    using iterates_visits [OF iterates_key_order, of m] by (simp_all add: visits_set fmdom'_alt_def)
  then show "fmlookup m i = Some seg \<Longrightarrow> i \<le> top_index m" "0 \<le> top_index m"
    by (auto simp: top_index_def top_index_from_Max intro!: Max_ge fmdom'I)
qed

lemma top_index_mem:
  assumes "top_index m \<noteq> 0"
  shows "\<exists>seg. fmlookup m (top_index m) = Some seg"
proof -
  have ks: "set (key_order m) = fmdom' m" "finite (insert 0 (fmdom' m))"
    using iterates_visits [OF iterates_key_order, of m] by (simp_all add: visits_set fmdom'_alt_def)
  have "top_index m \<in> insert 0 (fmdom' m)"
    unfolding top_index_def top_index_from_Max ks(1) using ks(2) by (intro Max_in) auto
  with assms show ?thesis by (auto simp: fmlookup_dom'_iff)
qed

lemma top_index_eqI:
  assumes "fmlookup m i = Some seg" and "0 \<le> i" and "\<And>j s. fmlookup m j = Some s \<Longrightarrow> j \<le> i"
  shows "top_index m = i"
  using assms top_index_ge [of m] top_index_mem [of m] by (metis antisym)

lemma top_index_upd: "top_index (fmupd (top_index m + 1) seg m) = top_index m + 1"
  by (rule top_index_eqI [of _ _ seg]) (use top_index_ge [of m] in \<open>auto split: if_splits\<close>, force+)

lemma top_index_update: "fmlookup m i = Some s \<Longrightarrow> top_index (fmupd i s' m) = top_index m"
proof -
  assume "fmlookup m i = Some s"
  then have "fmdom' (fmupd i s' m) = fmdom' m" by (auto simp: fmdom'I)
  then have "set (key_order (fmupd i s' m)) = set (key_order m)"
    using iterates_visits [OF iterates_key_order] by (metis visits_set)
  then show "top_index (fmupd i s' m) = top_index m"
    by (simp add: top_index_def top_index_from_Max)
qed

end
