(* ===== verification/WalLog.thy ===== *)
theory WalLog
  imports Wal
begin

text \<open>
  What the write-ahead log promises. \<open>wal_ok w recs\<close> says the log consists of numbered
  segments, segment \<open>i\<close> holding the records \<open>recs i\<close>, with unflushed bytes only in the current
  one; \<open>wal_entries\<close> lists all records in segment order. Appending adds one record at the end;
  after a \<open>Sync\<close> the files hold everything; reopening the files of a crashed process and
  replaying delivers a prefix of the entries, and all of them after a \<open>Sync\<close>, less the records
  the framing loses.
\<close>

section \<open>Index order\<close>

lemma set_key_order: "set (key_order m) = fmdom' m"
  using iterates_visits [OF iterates_key_order, of m] by (simp add: visits_set)

lemma sorted_key_order: "sorted (key_order m)" "distinct (key_order m)"
  by (simp_all add: key_order_def sorted_list_of_fset.rep_eq)

lemma key_order_unique: "sorted ks \<Longrightarrow> distinct ks \<Longrightarrow> set ks = fmdom' m \<Longrightarrow> ks = key_order m"
  by (rule sorted_distinct_set_unique) (simp_all add: sorted_key_order set_key_order)

lemma key_order_update: "fmlookup m k = Some v \<Longrightarrow> key_order (fmupd k w m) = key_order m"
  by (rule key_order_unique [symmetric]) (auto simp: sorted_key_order set_key_order fmdom'I)

lemma key_order_new:
  assumes "\<And>j v. fmlookup m j = Some v \<Longrightarrow> j < k"
  shows "key_order (fmupd k w m) = key_order m @ [k]"
proof (rule key_order_unique [symmetric])
  have "\<forall>j \<in> set (key_order m). j < k" using assms by (auto simp: set_key_order fmlookup_dom'_iff)
  then show "sorted (key_order m @ [k])" "distinct (key_order m @ [k])"
    by (auto simp: sorted_append sorted_key_order less_imp_le)
qed (simp add: set_key_order)

lemma key_order_top:
  assumes "fmlookup m (top_index m) = Some seg"
  shows "key_order m = butlast (key_order m) @ [top_index m]"
proof -
  have mem: "top_index m \<in> set (key_order m)" using assms by (simp add: set_key_order fmdom'I)
  then have ne: "key_order m \<noteq> []" by auto
  then have "last (key_order m) \<in> set (key_order m)" by simp
  then have "last (key_order m) \<le> top_index m"
    using top_index_ge(1) by (auto simp: set_key_order fmlookup_dom'_iff)
  moreover have "top_index m \<le> last (key_order m)"
  proof -
    have "sorted (butlast (key_order m) @ [last (key_order m)])" using ne sorted_key_order(1) by simp
    moreover have "top_index m \<in> set (butlast (key_order m) @ [last (key_order m)])" using ne mem by simp
    ultimately show ?thesis by (auto simp: sorted_append)
  qed
  ultimately show ?thesis using ne by (metis append_butlast_last_id antisym)
qed

section \<open>The invariant\<close>

definition seg_at :: "wal \<Rightarrow> (int \<Rightarrow> wal_record list) \<Rightarrow> int \<Rightarrow> segment \<Rightarrow> bool" where
  "seg_at w recs i seg \<longleftrightarrow> 0 < i \<and> i < 2 ^ 63 \<and> sgName seg = segment_name i \<and> seg_ok (wDisk w) seg (recs i)
     \<and> (i \<noteq> top_index (segments w) \<longrightarrow> wBuf (sgWriter seg) = [])"

definition names_ok :: "wal \<Rightarrow> bool" where
  "names_ok w \<longleftrightarrow>
     (\<forall>name. segment_file name \<longrightarrow> fmlookup (files (wDisk w)) name \<noteq> None \<longrightarrow>
        (\<exists>i seg. fmlookup (segments w) i = Some seg \<and> name = segment_name i))"

definition log_ok :: "wal \<Rightarrow> (int \<Rightarrow> wal_record list) \<Rightarrow> bool" where
  "log_ok w recs \<longleftrightarrow> fmpred (seg_at w recs) (segments w) \<and> names_ok w"

definition wal_ok :: "wal \<Rightarrow> (int \<Rightarrow> wal_record list) \<Rightarrow> bool" where
  "wal_ok w recs \<longleftrightarrow> segments w \<noteq> fmempty \<and> log_ok w recs"

definition wal_entries :: "wal \<Rightarrow> (int \<Rightarrow> wal_record list) \<Rightarrow> wal_record list" where
  "wal_entries w recs = concat (map recs (key_order (segments w)))"

lemma log_ok_seg: "log_ok w recs \<Longrightarrow> fmlookup (segments w) i = Some seg \<Longrightarrow> seg_at w recs i seg"
  by (auto simp: log_ok_def fmpred_iff)

lemma wal_ok_seg: "wal_ok w recs \<Longrightarrow> fmlookup (segments w) i = Some seg \<Longrightarrow> seg_at w recs i seg"
  by (auto simp: wal_ok_def intro: log_ok_seg)

lemma wal_ok_log: "wal_ok w recs \<Longrightarrow> log_ok w recs"
  by (simp add: wal_ok_def)

lemma wal_ok_current:
  assumes "wal_ok w recs"
  obtains seg where "currentLocked w = Some (top_index (segments w), seg)"
    and "fmlookup (segments w) (top_index (segments w)) = Some seg"
    and "seg_at w recs (top_index (segments w)) seg"
proof -
  from assms have "segments w \<noteq> fmempty" by (simp add: wal_ok_def)
  then obtain i seg where "fmlookup (segments w) i = Some seg"
    by (metis fmap_ext fmempty_lookup option.exhaust)
  with wal_ok_seg [OF assms this] top_index_ge(1) [of "segments w" i seg]
  have "top_index (segments w) \<noteq> 0" by (auto simp: seg_at_def)
  with top_index_mem obtain s where s: "fmlookup (segments w) (top_index (segments w)) = Some s" by blast
  from wal_ok_seg [OF assms s] s show ?thesis by (intro that [of s]) (simp_all add: currentLocked_def Let_def)
qed

text \<open>Replacing the state of one segment and its file, and adding a segment on top.\<close>

lemma wal_ok_update:
  assumes ok: "log_ok w recs" and i: "fmlookup (segments w) i = Some seg"
    and name: "sgName seg' = sgName seg"
    and frame: "\<And>k. k \<noteq> sgName seg \<Longrightarrow> fmlookup (files (wDisk w')) k = fmlookup (files (wDisk w)) k"
    and new: "seg_ok (wDisk w') seg' rs"
    and buf: "i \<noteq> top_index (segments w) \<Longrightarrow> wBuf (sgWriter seg') = []"
    and w': "segments w' = fmupd i seg' (segments w)"
  shows "wal_ok w' (recs(i := rs))"
proof -
  have top: "top_index (segments w') = top_index (segments w)" using top_index_update [OF i] w' by simp
  have at: "seg_at w recs i seg" by (rule log_ok_seg [OF ok i])
  have "seg_at w' (recs(i := rs)) j s" if j: "fmlookup (segments w') j = Some s" for j s
  proof (cases "j = i")
    case True
    with j w' have "s = seg'" by simp
    with True at new buf name top show ?thesis by (simp add: seg_at_def)
  next
    case False
    with j w' have "fmlookup (segments w) j = Some s" by simp
    from log_ok_seg [OF ok this] have s: "seg_at w recs j s" .
    then have "sgName s \<noteq> sgName seg" using at False by (simp add: seg_at_def segment_name_inject)
    with s False frame top show ?thesis by (auto simp: seg_at_def intro: seg_ok_cong)
  qed
  moreover have "names_ok w'"
    unfolding names_ok_def
  proof (intro allI impI)
    fix name assume n: "segment_file name" "fmlookup (files (wDisk w')) name \<noteq> None"
    have "fmlookup (files (wDisk w)) name \<noteq> None"
      using n frame [of name] at by (cases "name = sgName seg") (auto simp: seg_at_def seg_ok_def)
    with ok n obtain j s where "fmlookup (segments w) j = Some s" "name = segment_name j"
      unfolding log_ok_def names_ok_def by blast
    then have "\<exists>s. fmlookup (segments w') j = Some s" using w' by simp
    with \<open>name = segment_name j\<close> show "\<exists>j s. fmlookup (segments w') j = Some s \<and> name = segment_name j"
      by blast
  qed
  moreover have "segments w' \<noteq> fmempty" using w' by (metis fmupd_lookup fmempty_lookup option.distinct(1))
  ultimately show ?thesis by (simp add: wal_ok_def log_ok_def fmpred_iff)
qed

lemma wal_ok_add:
  assumes ok: "log_ok w recs" and synced: "fmpred (\<lambda>_ s. wBuf (sgWriter s) = []) (segments w)"
    and idx: "i = top_index (segments w) + 1" "i < 2 ^ 63"
    and name: "sgName seg = segment_name i"
    and frame: "\<And>k. k \<noteq> segment_name i \<Longrightarrow> fmlookup (files (wDisk w')) k = fmlookup (files (wDisk w)) k"
    and new: "seg_ok (wDisk w') seg rs"
    and w': "segments w' = fmupd i seg (segments w)"
  shows "wal_ok w' (recs(i := rs))"
proof -
  have top: "top_index (segments w') = i" using top_index_upd w' idx(1) by simp
  have pos: "0 < i" using top_index_ge(2) [of "segments w"] idx(1) by simp
  have below: "j < i" if "fmlookup (segments w) j = Some s" for j s
    using top_index_ge(1) [OF that] idx(1) by simp
  have "seg_at w' (recs(i := rs)) j s" if j: "fmlookup (segments w') j = Some s" for j s
  proof (cases "j = i")
    case True
    with j w' have "s = seg" by simp
    with True pos idx(2) new name top show ?thesis by (simp add: seg_at_def)
  next
    case False
    with j w' have l: "fmlookup (segments w) j = Some s" by simp
    from log_ok_seg [OF ok l] have s: "seg_at w recs j s" .
    then have "sgName s \<noteq> segment_name i" using False pos idx(2) by (simp add: seg_at_def segment_name_inject)
    moreover have "wBuf (sgWriter s) = []" using synced l by (simp add: fmpred_iff)
    ultimately show ?thesis using s False frame by (auto simp: seg_at_def intro: seg_ok_cong)
  qed
  moreover have "names_ok w'"
    unfolding names_ok_def
  proof (intro allI impI)
    fix name assume n: "segment_file name" "fmlookup (files (wDisk w')) name \<noteq> None"
    show "\<exists>j s. fmlookup (segments w') j = Some s \<and> name = segment_name j"
    proof (cases "name = segment_name i")
      case True
      then show ?thesis using w' by auto
    next
      case False
      with n frame ok obtain j s where "fmlookup (segments w) j = Some s" "name = segment_name j"
        unfolding log_ok_def names_ok_def by metis
      with False w' show ?thesis by auto
    qed
  qed
  moreover have "segments w' \<noteq> fmempty" using w' by (metis fmupd_lookup fmempty_lookup option.distinct(1))
  ultimately show ?thesis by (simp add: wal_ok_def log_ok_def fmpred_iff)
qed

section \<open>Append and Sync\<close>

lemma wal_entries_current:
  assumes "wal_ok w recs" and "segments w' = fmupd (top_index (segments w)) seg (segments w)"
  shows "wal_entries w' (recs(top_index (segments w) := recs (top_index (segments w)) @ rs)) = wal_entries w recs @ rs"
proof -
  let ?top = "top_index (segments w)"
  from assms(1) obtain s where s: "fmlookup (segments w) ?top = Some s" by (rule wal_ok_current)
  have ks: "key_order (segments w') = key_order (segments w)" using key_order_update [OF s] assms(2) by simp
  note top = key_order_top [OF s]
  have "distinct (butlast (key_order (segments w)) @ [?top])"
    using sorted_key_order(2) [of "segments w"] top by simp
  then have new: "?top \<notin> set (butlast (key_order (segments w)))" by simp
  have c: "concat (map f (key_order (segments w))) =
      concat (map f (butlast (key_order (segments w)))) @ f ?top" for f :: "int \<Rightarrow> wal_record list"
    by (subst top) simp
  show ?thesis unfolding wal_entries_def ks c using new by simp
qed

lemma flush_at_effect:
  assumes ok: "log_ok w recs" and i: "fmlookup (segments w) i = Some seg" and f: "flush_at i seg w = (None, w')"
  shows "wal_ok w' recs" and "segments w' = fmupd i (seg\<lparr>sgWriter := new_writer\<rparr>) (segments w)"
    and "nextSeq w' = nextSeq w" "nextReplay w' = nextReplay w" "maxSize w' = maxSize w"
    and "\<not> segment_file k \<Longrightarrow> fmlookup (files (wDisk w')) k = fmlookup (files (wDisk w)) k"
proof -
  obtain seg' d where s: "seg_flush seg (wDisk w) = (None, seg', d)"
      "w' = w\<lparr>segments := fmupd i seg' (segments w), wDisk := d\<rparr>"
    using f by (auto simp: flush_at_def split: prod.splits)
  note e = seg_flush_effect [OF s(1)]
  have at: "seg_at w recs i seg" by (rule log_ok_seg [OF ok i])
  have "wal_ok w' (recs(i := recs i))"
    by (rule wal_ok_update [OF ok i]) (use e at s(2) in \<open>auto simp: seg_at_def new_writer_def\<close>)
  then show "wal_ok w' recs" by simp
  show "segments w' = fmupd i (seg\<lparr>sgWriter := new_writer\<rparr>) (segments w)"
    "nextSeq w' = nextSeq w" "nextReplay w' = nextReplay w" "maxSize w' = maxSize w"
    using s(2) e(2) by simp_all
  have "segment_file (sgName seg)" using at by (simp add: seg_at_def segment_file_name)
  then show "\<not> segment_file k \<Longrightarrow> fmlookup (files (wDisk w')) k = fmlookup (files (wDisk w)) k"
    using e(3) [of k] s(2) by (cases "k = sgName seg") auto
qed

definition all_synced :: "wal \<Rightarrow> bool" where
  "all_synced w \<longleftrightarrow> fmpred (\<lambda>_ s. wBuf (sgWriter s) = []) (segments w)"

lemma flush_current_synced:
  assumes "wal_ok w recs" and "fmlookup (segments w) (top_index (segments w)) = Some seg"
    and "flush_at (top_index (segments w)) seg w = (None, w')"
  shows "all_synced w'" and "top_index (segments w') = top_index (segments w)"
    and "wal_entries w' recs = wal_entries w recs"
proof -
  note e = flush_at_effect [OF wal_ok_log [OF assms(1)] assms(2,3)]
  show "all_synced w'"
    using wal_ok_seg [OF assms(1)] e(2) by (auto simp: all_synced_def fmpred_iff seg_at_def new_writer_def)
  show "top_index (segments w') = top_index (segments w)" using e(2) top_index_update [OF assms(2)] by simp
  show "wal_entries w' recs = wal_entries w recs"
    using key_order_update [OF assms(2)] e(2) by (simp add: wal_entries_def)
qed

lemma rotate_log_effect:
  assumes ok: "log_ok w recs" and synced: "all_synced w" and idx: "top_index (segments w) + 1 < 2 ^ 63"
    and r: "rotate_log w = (None, w')"
  shows "wal_ok w' (recs(top_index (segments w) + 1 := []))"
    and "wal_entries w' (recs(top_index (segments w) + 1 := [])) = wal_entries w recs"
    and "nextSeq w' = nextSeq w" "nextReplay w' = nextReplay w" "maxSize w' = maxSize w"
    and "\<not> segment_file k \<Longrightarrow> fmlookup (files (wDisk w')) k = fmlookup (files (wDisk w)) k"
proof -
  let ?i = "top_index (segments w) + 1"
  obtain seg d where o: "openSegment (segment_name ?i) (wDisk w) = (Inr seg, d)"
      "w' = w\<lparr>segments := fmupd ?i seg (segments w), wDisk := d\<rparr>"
    using r next_index [OF top_index_ge(2) idx] by (auto simp: rotate_log_def Let_def split: prod.splits sum.splits)
  have pos: "0 < ?i" using top_index_ge(2) [of "segments w"] by simp
  have fresh: "fmlookup (files (wDisk w)) (segment_name ?i) = None"
  proof (rule ccontr)
    assume "fmlookup (files (wDisk w)) (segment_name ?i) \<noteq> None"
    with ok segment_file_name obtain j s where j: "fmlookup (segments w) j = Some s" "segment_name ?i = segment_name j"
      unfolding log_ok_def names_ok_def by blast
    from log_ok_seg [OF ok j(1)] pos idx j(2) have "j = ?i" by (simp add: seg_at_def segment_name_inject)
    with top_index_ge(1) [OF j(1)] show False by simp
  qed
  note e = openSegment_effect [OF o(1)]
  have "seg_ok d seg []" by (rule openSegment_ok [OF o(1)]) (simp add: content_def fresh)
  then show "wal_ok w' (recs(?i := []))"
    by (intro wal_ok_add [OF ok _ refl idx])
       (use synced o(2) e fresh in \<open>simp_all add: all_synced_def\<close>)
  have ks: "key_order (segments w') = key_order (segments w) @ [?i]"
    unfolding o(2) using top_index_ge(1) by (simp, intro key_order_new) fastforce
  have "?i \<notin> set (key_order (segments w))"
    using top_index_ge(1) by (force simp: set_key_order fmlookup_dom'_iff)
  then show "wal_entries w' (recs(?i := [])) = wal_entries w recs"
    by (simp add: wal_entries_def ks map_fun_upd)
  show "nextSeq w' = nextSeq w" "nextReplay w' = nextReplay w" "maxSize w' = maxSize w"
    "\<not> segment_file k \<Longrightarrow> fmlookup (files (wDisk w')) k = fmlookup (files (wDisk w)) k"
    using o(2) e(1) segment_file_name [of ?i] by (auto split: if_splits)
qed

lemma write_current_effect:
  assumes ok: "wal_ok w recs" and wr: "write_current r w = (Inr s, w')"
  shows "\<exists>recs'. wal_ok w' recs' \<and> wal_entries w' recs' = wal_entries w recs @ [r]"
    and "s = rSeq r" "nextSeq w' = nextSeq w + 1" "nextReplay w' = nextReplay w" "maxSize w' = maxSize w"
    and "top_index (segments w') = top_index (segments w)"
    and "\<not> segment_file k \<Longrightarrow> fmlookup (files (wDisk w')) k = fmlookup (files (wDisk w)) k"
proof -
  let ?top = "top_index (segments w)"
  obtain seg where c: "currentLocked w = Some (?top, seg)" and at: "fmlookup (segments w) ?top = Some seg"
    and sa: "seg_at w recs ?top seg" by (rule wal_ok_current [OF ok])
  obtain seg' d where sw: "seg_write r seg (wDisk w) = (None, seg', d)" "s = rSeq r"
      "w' = w\<lparr>segments := fmupd ?top seg' (segments w), wDisk := d, nextSeq := nextSeq w + 1\<rparr>"
    using wr c by (auto simp: write_current_def split: prod.splits option.splits)
  note e = seg_write_effect [OF sw(1)]
  have "wal_ok w' (recs(?top := recs ?top @ [r]))"
    by (rule wal_ok_update [OF wal_ok_log [OF ok] at]) (use e sa sw(3) in \<open>auto simp: seg_at_def\<close>)
  moreover have "wal_entries w' (recs(?top := recs ?top @ [r])) = wal_entries w recs @ [r]"
    using sw(3) by (intro wal_entries_current [OF ok]) simp
  ultimately show "\<exists>recs'. wal_ok w' recs' \<and> wal_entries w' recs' = wal_entries w recs @ [r]" by blast
  show "s = rSeq r" "nextSeq w' = nextSeq w + 1" "nextReplay w' = nextReplay w" "maxSize w' = maxSize w"
    "top_index (segments w') = top_index (segments w)"
    using sw top_index_update [OF at] by simp_all
  have "segment_file (sgName seg)" using sa by (simp add: seg_at_def segment_file_name)
  then show "\<not> segment_file k \<Longrightarrow> fmlookup (files (wDisk w')) k = fmlookup (files (wDisk w)) k"
    using e(3) [of k] sw(3) by (cases "k = sgName seg") auto
qed

lemma Sync_effect:
  assumes ok: "wal_ok w recs" and s: "Sync w = (None, w')"
  shows "wal_ok w' recs" "all_synced w'" "wal_entries w' recs = wal_entries w recs"
    "nextSeq w' = nextSeq w" "nextReplay w' = nextReplay w" "maxSize w' = maxSize w"
    "top_index (segments w') = top_index (segments w)"
    "\<not> segment_file k \<Longrightarrow> fmlookup (files (wDisk w')) k = fmlookup (files (wDisk w)) k"
proof -
  obtain seg where c: "currentLocked w = Some (top_index (segments w), seg)"
    and at: "fmlookup (segments w) (top_index (segments w)) = Some seg" by (rule wal_ok_current [OF ok])
  have f: "flush_at (top_index (segments w)) seg w = (None, w')" using s c by (simp add: Sync_def)
  show "wal_ok w' recs" "all_synced w'" "wal_entries w' recs = wal_entries w recs"
    "nextSeq w' = nextSeq w" "nextReplay w' = nextReplay w" "maxSize w' = maxSize w"
    "top_index (segments w') = top_index (segments w)"
    "\<not> segment_file k \<Longrightarrow> fmlookup (files (wDisk w')) k = fmlookup (files (wDisk w)) k"
    using flush_at_effect [OF wal_ok_log [OF ok] at f] flush_current_synced [OF ok at f] by simp_all
qed

lemma rotateLocked_effect:
  assumes ok: "wal_ok w recs" and idx: "top_index (segments w) + 1 < 2 ^ 63"
    and r: "rotateLocked w = (None, w')"
  shows "\<exists>recs'. wal_ok w' recs' \<and> wal_entries w' recs' = wal_entries w recs"
    and "nextSeq w' = nextSeq w" "nextReplay w' = nextReplay w" "maxSize w' = maxSize w"
    and "\<not> segment_file k \<Longrightarrow> fmlookup (files (wDisk w')) k = fmlookup (files (wDisk w)) k"
proof -
  obtain seg where c: "currentLocked w = Some (top_index (segments w), seg)"
    and at: "fmlookup (segments w) (top_index (segments w)) = Some seg" by (rule wal_ok_current [OF ok])
  obtain w1 where f: "flush_at (top_index (segments w)) seg w = (None, w1)" and g: "rotate_log w1 = (None, w')"
    using r c by (auto simp: rotateLocked_def split: prod.splits option.splits)
  note e1 = flush_at_effect [OF wal_ok_log [OF ok] at f] and s1 = flush_current_synced [OF ok at f]
  have idx1: "top_index (segments w1) + 1 < 2 ^ 63" using idx s1(2) by simp
  note e2 = rotate_log_effect [OF wal_ok_log [OF e1(1)] s1(1) idx1 g]
  show "\<exists>recs'. wal_ok w' recs' \<and> wal_entries w' recs' = wal_entries w recs"
    using e2(1,2) s1(3) by metis
  show "nextSeq w' = nextSeq w" "nextReplay w' = nextReplay w" "maxSize w' = maxSize w"
    "\<not> segment_file k \<Longrightarrow> fmlookup (files (wDisk w')) k = fmlookup (files (wDisk w)) k"
    using e1(3-6) e2(3-6) by simp_all
qed

lemma Wal_Append_effect:
  assumes ok: "wal_ok w recs" and idx: "top_index (segments w) + 1 < 2 ^ 63"
    and a: "Wal_Append r w = (Inr s, w')"
  shows "\<exists>recs'. wal_ok w' recs' \<and> wal_entries w' recs' = wal_entries w recs @ [r\<lparr>rSeq := nextSeq w\<rparr>]"
    and "s = nextSeq w" "nextSeq w' = nextSeq w + 1" "nextReplay w' = nextReplay w" "maxSize w' = maxSize w"
    and "\<not> segment_file k \<Longrightarrow> fmlookup (files (wDisk w')) k = fmlookup (files (wDisk w)) k"
proof -
  obtain seg where c: "currentLocked w = Some (top_index (segments w), seg)" by (rule wal_ok_current [OF ok])
  obtain w1 recs1 where w1: "write_current (r\<lparr>rSeq := nextSeq w\<rparr>) w1 = (Inr s, w')" "wal_ok w1 recs1"
      "wal_entries w1 recs1 = wal_entries w recs" "nextSeq w1 = nextSeq w" "nextReplay w1 = nextReplay w"
      "maxSize w1 = maxSize w"
      "\<And>k. \<not> segment_file k \<Longrightarrow> fmlookup (files (wDisk w1)) k = fmlookup (files (wDisk w)) k"
  proof (cases "maxSize w \<le>s sgSize seg")
    case True
    then obtain w1 where "rotateLocked w = (None, w1)" "write_current (r\<lparr>rSeq := nextSeq w\<rparr>) w1 = (Inr s, w')"
      using a c by (auto simp: Wal_Append_def Let_def split: prod.splits option.splits)
    with rotateLocked_effect [OF ok idx this(1)] that show ?thesis by metis
  next
    case False
    then have "write_current (r\<lparr>rSeq := nextSeq w\<rparr>) w = (Inr s, w')"
      using a c by (simp add: Wal_Append_def Let_def)
    with ok that show ?thesis by blast
  qed
  note e = write_current_effect [OF w1(2,1)]
  show "\<exists>recs'. wal_ok w' recs' \<and> wal_entries w' recs' = wal_entries w recs @ [r\<lparr>rSeq := nextSeq w\<rparr>]"
    using e(1) w1(3) by simp
  show "s = nextSeq w" "nextSeq w' = nextSeq w + 1" "nextReplay w' = nextReplay w" "maxSize w' = maxSize w"
    "\<not> segment_file k \<Longrightarrow> fmlookup (files (wDisk w')) k = fmlookup (files (wDisk w)) k"
    using e(2-5,7) w1(4-7) by simp_all
qed

section \<open>Replay\<close>

text \<open>What replay relies on: each segment's file scans as its records.\<close>

definition seg_readable :: "disk \<Rightarrow> segment \<Rightarrow> wal_record list \<Rightarrow> bool" where
  "seg_readable d seg rs \<longleftrightarrow> scans_as (content (sgName seg) d) rs \<and> fmlookup (files d) (sgName seg) \<noteq> None
     \<and> (\<forall>r \<in> set rs. frame_safe r \<longrightarrow> rSeq r \<le> sgLast seg)"

definition log_readable :: "wal \<Rightarrow> (int \<Rightarrow> wal_record list) \<Rightarrow> bool" where
  "log_readable w recs \<longleftrightarrow> fmpred (\<lambda>i seg. seg_readable (wDisk w) seg (recs i)) (segments w)"

definition found :: "uint64 \<Rightarrow> wal_record list \<Rightarrow> wal_record list" where
  "found from rs = filter (\<lambda>r. frame_safe r \<and> from \<le> rSeq r) rs"

lemma found_append [simp]: "found from (xs @ ys) = found from xs @ found from ys"
  by (simp add: found_def)

lemma deliver_append:
  "deliver fn (xs @ ys) s =
     (case deliver fn xs s of (Some e, s') \<Rightarrow> (Some e, s') | (None, s') \<Rightarrow> deliver fn ys s')"
  by (induction xs arbitrary: s) (simp_all split: prod.splits option.splits)

lemma synced_readable:
  assumes "wal_ok w recs" and "all_synced w"
  shows "log_readable w recs"
proof -
  have "seg_readable (wDisk w) seg (recs i)" if l: "fmlookup (segments w) i = Some seg" for i seg
  proof -
    have "seg_ok (wDisk w) seg (recs i)" "wBuf (sgWriter seg) = []"
      using wal_ok_seg [OF assms(1) l] assms(2) l by (auto simp: seg_at_def all_synced_def fmpred_iff)
    then show ?thesis using scans_as_logged [of "recs i"] by (simp add: seg_readable_def seg_ok_def)
  qed
  then show ?thesis by (simp add: log_readable_def fmpred_iff)
qed

lemma replay_loop_readable:
  assumes "log_readable w recs" and "faults (wDisk w) = []" and "set is \<subseteq> fmdom' (segments w)"
  shows "fst (replay_loop from fn is s w) = deliver fn (found from (concat (map recs is))) s"
  using assms(3)
proof (induction "is" arbitrary: s)
  case (Cons i "is")
  then obtain seg where i: "fmlookup (segments w) i = Some seg" by (auto simp: fmlookup_dom'_iff)
  then have r: "seg_readable (wDisk w) seg (recs i)" using assms(1) by (auto simp: log_readable_def fmpred_iff)
  note sc = scanRecords_scans_as [of "content (sgName seg) (wDisk w)" "recs i" "from" fn s]
  have rest: "set is \<subseteq> fmdom' (segments w)" using Cons.prems by simp
  have skip: "found from (recs i) = []" if "sgLast seg < from"
    using r that by (fastforce simp: found_def seg_readable_def filter_empty_conv)
  show ?case
    using Cons.IH [OF rest] r i sc skip assms(2)
    by (auto simp: seg_readable_def deliver_append found_def [symmetric] split: prod.splits option.splits)
qed (simp add: found_def)

lemma Replay_readable:
  assumes "log_readable w recs" and "faults (wDisk w) = []"
  shows "fst (Replay from fn s w) = deliver fn (found from (wal_entries w recs)) s"
  using replay_loop_readable [OF assms, of "key_order (segments w)" "from" fn s]
  by (simp add: Replay_def wal_entries_def set_key_order)

section \<open>Crash and reopen\<close>

text \<open>The segment files of a directory, as a reopening process finds them.\<close>

definition disk_log :: "disk \<Rightarrow> int set \<Rightarrow> (int \<Rightarrow> wal_record list) \<Rightarrow> bool" where
  "disk_log d I recs \<longleftrightarrow>
     (\<forall>i \<in> I. 0 < i \<and> i < 2 ^ 63 \<and> fmlookup (files d) (segment_name i) \<noteq> None
        \<and> scans_as (content (segment_name i) d) (recs i))
     \<and> (\<forall>name. segment_file name \<longrightarrow> fmlookup (files d) name \<noteq> None \<longrightarrow> name \<in> segment_name ` I)"

definition last_of :: "(int \<Rightarrow> wal_record list) \<Rightarrow> int \<Rightarrow> uint64" where
  "last_of recs i = max_seq (map rSeq (filter frame_safe (recs i)))"

definition loaded :: "int set \<Rightarrow> (int \<Rightarrow> wal_record list) \<Rightarrow> (int, segment) fmap \<Rightarrow> bool" where
  "loaded I recs m \<longleftrightarrow> fmpred (\<lambda>i seg. i \<in> I \<and> sgName seg = segment_name i \<and> sgWriter seg = new_writer
     \<and> sgLast seg = last_of recs i) m"

lemma disk_log_cong: "files d' = files d \<Longrightarrow> disk_log d' I recs = disk_log d I recs"
  by (simp add: disk_log_def content_def)

lemma load_loop_effect:
  assumes "load_loop names w = (None, w')" and "disk_log (wDisk w) I recs" and "loaded I recs (segments w)"
    and "set names \<subseteq> segment_name ` I"
  shows "files (wDisk w') = files (wDisk w) \<and> loaded I recs (segments w')
    \<and> fmdom' (segments w') = fmdom' (segments w) \<union> segmentIndexFromPath ` set names
    \<and> nextSeq w' = fold (\<lambda>l n. if n \<le> l then l + 1 else n)
        (map (\<lambda>name. last_of recs (segmentIndexFromPath name)) names) (nextSeq w)
    \<and> nextReplay w' = nextReplay w \<and> maxSize w' = maxSize w"
  using assms
proof (induction names arbitrary: w)
  case (Cons name names)
  from Cons.prems(4) obtain i where i: "i \<in> I" "name = segment_name i" by auto
  then have b: "0 < i" "i < 2 ^ 63" "fmlookup (files (wDisk w)) name \<noteq> None" "scans_as (content name (wDisk w)) (recs i)"
    using Cons.prems(2) by (auto simp: disk_log_def)
  note idx = segmentIndex_name [OF b(1,2)]
  obtain seg d where o: "openSegment name (wDisk w) = (Inr seg, d)"
      "load_loop names (w\<lparr>segments := fmupd i seg (segments w), wDisk := d,
        nextSeq := (if nextSeq w \<le> sgLast seg then sgLast seg + 1 else nextSeq w)\<rparr>) = (None, w')"
    using Cons.prems(1) idx(1) i(2) by (auto split: prod.splits sum.splits)
  note e = openSegment_effect [OF o(1)] and l = sgLast_scans [OF o(1) b(4)]
  have d: "files d = files (wDisk w)" using e(1) b(3) by simp
  have "loaded I recs (fmupd i seg (segments w))"
    using Cons.prems(3) i e(2,3) l by (auto simp: loaded_def last_of_def)
  moreover have "disk_log d I recs" using Cons.prems(2) disk_log_cong [OF d] by simp
  ultimately show ?case
    using Cons.IH [OF o(2)] Cons.prems(4) d l i(2) idx(2) by (auto simp: last_of_def)
qed simp

definition checkpoint_value :: "disk \<Rightarrow> uint64 option" where
  "checkpoint_value d =
     (case fmlookup (files d) checkpointName of
        None \<Rightarrow> Some 0
      | Some bs \<Rightarrow> parse_uint64 (chars_of bs))"

lemma loadCheckpoint_effect:
  assumes "loadCheckpoint w = (None, w')" and "nextReplay w = 0"
  shows "files (wDisk w') = files (wDisk w)" "segments w' = segments w" "nextSeq w' = nextSeq w"
    "maxSize w' = maxSize w" "checkpoint_value (wDisk w) = Some (nextReplay w')"
proof -
  obtain e d where o: "os_open checkpointName (wDisk w) = (e, d)" by (rule prod.exhaust)
  have fd: "files d = files (wDisk w)" by (rule os_open_files [OF o])
  have ne: "e = Some (ErrNotExist n) \<Longrightarrow> fmlookup (files (wDisk w)) checkpointName = None"
    "e = None \<Longrightarrow> fmlookup (files (wDisk w)) checkpointName \<noteq> None" for n
    using o by (auto simp: os_open_def dest!: next_fault_files split: prod.splits option.splits if_splits)
  have "files (wDisk w') = files (wDisk w) \<and> segments w' = segments w \<and> nextSeq w' = nextSeq w
    \<and> maxSize w' = maxSize w \<and> checkpoint_value (wDisk w) = Some (nextReplay w')"
  proof (cases e)
    case (Some x)
    then obtain n where "e = Some (ErrNotExist n)"
      using assms(1) o by (cases x) (simp_all add: loadCheckpoint_def)
    with assms o ne(1) fd show ?thesis by (auto simp: loadCheckpoint_def checkpoint_value_def)
  next
    case None
    obtain bs failed d1 where r: "os_read checkpointName d = ((bs, failed), d1)" by (metis prod.exhaust)
    have f: "\<not> failed" using assms(1) o None r by (cases failed) (simp_all add: loadCheckpoint_def)
    with r have bs: "bs = content checkpointName d" by (auto dest: os_read_content)
    obtain v where v: "parse_uint64 (chars_of bs) = Some v" "w' = w\<lparr>nextReplay := v, wDisk := d1\<rparr>"
      using assms(1) o None r f by (auto simp: loadCheckpoint_def split: option.splits)
    obtain c where "fmlookup (files (wDisk w)) checkpointName = Some c" using ne(2) [OF None] by blast
    with v bs fd os_read_files [OF r] show ?thesis by (simp add: checkpoint_value_def content_def)
  qed
  then show "files (wDisk w') = files (wDisk w)" "segments w' = segments w" "nextSeq w' = nextSeq w"
    "maxSize w' = maxSize w" "checkpoint_value (wDisk w) = Some (nextReplay w')" by blast+
qed

lemma Wal_Open_effect:
  assumes d: "disk_log d I recs" and ne: "I \<noteq> {}" and o: "Wal_Open ms d = (Inr w, d')"
  shows "fmdom' (segments w) = I" "log_readable w recs" "files (wDisk w) = files d"
    "checkpoint_value d = Some (nextReplay w)" "loaded I recs (segments w)" "maxSize w = ms"
    "\<exists>names. set names = segment_name ` I \<and> nextSeq w = fold (\<lambda>l n. if n \<le> l then l + 1 else n)
        (map (\<lambda>name. last_of recs (segmentIndexFromPath name)) names) 0"
proof -
  obtain d1 where o1: "os_call d = (None, d1)"
      "loadSegments \<lparr>segments = fmempty, nextSeq = 0, nextReplay = 0, maxSize = ms, wDisk = d1\<rparr> = (None, w)"
    using o by (auto simp: Wal_Open_def split: prod.splits option.splits)
  let ?w0 = "\<lparr>segments = fmempty, nextSeq = 0, nextReplay = 0, maxSize = ms, wDisk = d1\<rparr>"
  have f1: "files d1 = files d" by (rule os_call_files [OF o1(1)])
  obtain entries d2 w1 w2 where o2: "os_read_dir d1 = (Inr entries, d2)"
      "load_loop (sort (filter segment_file entries)) (?w0\<lparr>wDisk := d2\<rparr>) = (None, w1)"
      "loadCheckpoint w1 = (None, w2)" "(if fmsize (segments w2) = 0 then rotate_log w2 else (None, w2)) = (None, w)"
    using o1(2) by (auto simp: loadSegments_def split: prod.splits sum.splits option.splits)
  have e: "entries = sorted_list_of_fset (fmdom (files d))" and f2: "files d2 = files d"
    using os_read_dir_success [OF o2(1)] f1 by simp_all
  let ?names = "sort (filter segment_file entries)"
  have names: "set ?names = segment_name ` I"
    using d by (auto simp: e disk_log_def segment_file_name fmlookup_dom_iff)
  have "disk_log d2 I recs" using d disk_log_cong [OF f2] by simp
  then have ll: "files (wDisk w1) = files d" "loaded I recs (segments w1)"
      "fmdom' (segments w1) = segmentIndexFromPath ` set ?names"
      "nextSeq w1 = fold (\<lambda>l n. if n \<le> l then l + 1 else n)
        (map (\<lambda>name. last_of recs (segmentIndexFromPath name)) ?names) 0"
      "nextReplay w1 = 0" "maxSize w1 = ms"
    using load_loop_effect [OF o2(2), of I recs] names f2 by (auto simp: loaded_def)
  note cp = loadCheckpoint_effect [OF o2(3) ll(5)]
  have "segmentIndexFromPath (segment_name i) = i" if "i \<in> I" for i
    using d that by (simp add: disk_log_def segmentIndex_name)
  then have dom: "fmdom' (segments w1) = I" unfolding ll(3) names by force
  with ne have "fmsize (segments w2) \<noteq> 0" by (auto simp: cp(2) fmsize_0_iff)
  with o2(4) have w: "w = w2" by simp
  show "fmdom' (segments w) = I" "files (wDisk w) = files d" "loaded I recs (segments w)" "maxSize w = ms"
    using w cp ll dom by simp_all
  show "checkpoint_value d = Some (nextReplay w)"
    using cp(5) w ll(1) by (simp add: checkpoint_value_def)
  show "\<exists>names. set names = segment_name ` I \<and> nextSeq w = fold (\<lambda>l n. if n \<le> l then l + 1 else n)
        (map (\<lambda>name. last_of recs (segmentIndexFromPath name)) names) 0"
    using w cp(3) ll(4) names by (intro exI [of _ ?names]) simp
  have "seg_readable (wDisk w) seg (recs i)" if "fmlookup (segments w) i = Some seg" for i seg
  proof -
    from that ll(2) w cp(2) have s: "i \<in> I" "sgName seg = segment_name i" "sgLast seg = last_of recs i"
      by (auto simp: loaded_def fmpred_iff)
    then have "content (segment_name i) (wDisk w) = content (segment_name i) d"
      "fmlookup (files (wDisk w)) (segment_name i) = fmlookup (files d) (segment_name i)"
      using w cp(1) ll(1) by (simp_all add: content_def)
    with d s show ?thesis
      by (auto simp: seg_readable_def disk_log_def last_of_def max_seq_def intro!: fold_max_ge)
  qed
  then show "log_readable w recs" by (simp add: log_readable_def fmpred_iff)
qed

lemma crash_disk_log:
  assumes ok: "wal_ok w recs" and d: "files d = files (wDisk w)"
  shows "\<exists>recs' m. disk_log d (fmdom' (segments w)) recs'
    \<and> concat (map recs' (key_order (segments w))) = take m (wal_entries w recs)
    \<and> (all_synced w \<longrightarrow> recs' = recs)"
proof -
  let ?top = "top_index (segments w)"
  obtain seg where at: "fmlookup (segments w) ?top = Some seg" and sa: "seg_at w recs ?top seg"
    by (rule wal_ok_current [OF ok])
  have c: "content (segment_name i) d = content (sgName s) (wDisk w)" if "seg_at w recs i s" for i s
    using that d by (simp add: seg_at_def content_def)
  have "logged (recs ?top) = content (segment_name ?top) d @ wBuf (sgWriter seg)"
    using sa c [OF sa] by (auto simp: seg_at_def seg_ok_def)
  from scans_as_prefix [OF this] obtain m where m: "scans_as (content (segment_name ?top) d) (take m (recs ?top))"
    by blast
  define rs where "rs = (if wBuf (sgWriter seg) = [] then recs ?top else take m (recs ?top))"
  have top: "scans_as (content (segment_name ?top) d) rs"
    using m sa c [OF sa] scans_as_logged [of "recs ?top"] by (auto simp: rs_def seg_at_def seg_ok_def)
  let ?recs = "recs(?top := rs)"
  have "disk_log d (fmdom' (segments w)) ?recs"
    unfolding disk_log_def
  proof (intro conjI ballI allI impI)
    fix i assume "i \<in> fmdom' (segments w)"
    then obtain s where s: "fmlookup (segments w) i = Some s" by (auto simp: fmlookup_dom'_iff)
    from wal_ok_seg [OF ok s] have at_i: "seg_at w recs i s" .
    then show "0 < i" "i < 2 ^ 63" "fmlookup (files d) (segment_name i) \<noteq> None"
      using d by (auto simp: seg_at_def seg_ok_def)
    show "scans_as (content (segment_name i) d) (?recs i)"
    proof (cases "i = ?top")
      case False
      then have "content (segment_name i) d = logged (recs i)"
        using at_i c [OF at_i] by (auto simp: seg_at_def seg_ok_def)
      with False scans_as_logged show ?thesis by simp
    qed (use top in simp)
  next
    fix name assume "segment_file name" "fmlookup (files d) name \<noteq> None"
    with ok d show "name \<in> segment_name ` fmdom' (segments w)"
      unfolding wal_ok_def log_ok_def names_ok_def by (force simp: fmlookup_dom'_iff)
  qed
  moreover have "\<exists>m. concat (map ?recs (key_order (segments w))) = take m (wal_entries w recs)"
  proof -
    let ?b = "butlast (key_order (segments w))"
    note ks = key_order_top [OF at]
    have "distinct (?b @ [?top])" using sorted_key_order(2) [of "segments w"] ks by simp
    then have "?top \<notin> set ?b" by simp
    then have l: "concat (map ?recs (key_order (segments w))) = concat (map recs ?b) @ rs"
      by (subst ks) simp
    have r: "wal_entries w recs = concat (map recs ?b) @ recs ?top"
      unfolding wal_entries_def by (subst ks) simp
    obtain n where "rs = take n (recs ?top)" unfolding rs_def by (metis take_all_iff le_refl)
    then show ?thesis unfolding l r by (intro exI [of _ "length (concat (map recs ?b)) + n"]) simp
  qed
  moreover have "all_synced w \<Longrightarrow> ?recs = recs"
    using at by (auto simp: all_synced_def fmpred_iff rs_def)
  ultimately show ?thesis by blast
qed

lemma same_keys_order: "fmdom' m = fmdom' m' \<Longrightarrow> key_order m = key_order m'"
  using key_order_unique [of "key_order m" m'] by (simp add: sorted_key_order set_key_order)

text \<open>A crash at any moment, then reopen and replay: a prefix of the log, less the lost frames.\<close>

lemma crash_replay:
  assumes ok: "wal_ok w recs" and d: "files d = files (wDisk w)" and o: "Wal_Open ms d = (Inr w', d')"
    and nf: "faults (wDisk w') = []"
  shows "\<exists>m. fst (Replay from fn s w') = deliver fn (found from (take m (wal_entries w recs))) s
    \<and> (all_synced w \<longrightarrow> take m (wal_entries w recs) = wal_entries w recs)"
proof -
  obtain recs' m where r: "disk_log d (fmdom' (segments w)) recs'"
      "concat (map recs' (key_order (segments w))) = take m (wal_entries w recs)"
      "all_synced w \<longrightarrow> recs' = recs"
    using crash_disk_log [OF ok d] by blast
  have ne: "fmdom' (segments w) \<noteq> {}" by (rule wal_ok_current [OF ok]) (auto dest: fmdom'I)
  note e = Wal_Open_effect [OF r(1) ne o]
  have "wal_entries w' recs' = take m (wal_entries w recs)"
    using r(2) same_keys_order [OF e(1)] by (simp add: wal_entries_def)
  with Replay_readable [OF e(2) nf]
  have "fst (Replay from fn s w') = deliver fn (found from (take m (wal_entries w recs))) s" by simp
  moreover have "all_synced w \<Longrightarrow> take m (wal_entries w recs) = wal_entries w recs"
    using r(2,3) by (metis wal_entries_def)
  ultimately show ?thesis by blast
qed

end
