(* ===== verification/WalRecovery.thy ===== *)
theory WalRecovery
  imports WalLog
begin

text \<open>
  Runs of the write-ahead log: a fresh directory, a run of appends, truncation after a flush,
  the persisted watermark, and what a process that reopens the files finds. The last section
  holds the durability properties and the cases in which acknowledged records are lost.
\<close>

section \<open>A fresh directory\<close>

definition no_segments :: "disk \<Rightarrow> bool" where
  "no_segments d \<longleftrightarrow> (\<forall>name. segment_file name \<longrightarrow> fmlookup (files d) name = None)"

lemma rotate_empty:
  assumes "log_ok w recs" and "segments w = fmempty" and "rotate_log w = (None, w')"
  shows "wal_ok w' (recs(1 := []))" "wal_entries w' (recs(1 := [])) = []" "fmdom' (segments w') = {1}"
    "nextSeq w' = nextSeq w" "nextReplay w' = nextReplay w" "maxSize w' = maxSize w"
    "content (segment_name 1) (wDisk w') = []" "all_synced w'"
    "\<not> segment_file k \<Longrightarrow> fmlookup (files (wDisk w')) k = fmlookup (files (wDisk w)) k"
proof -
  have top: "top_index (segments w) = 0"
    using top_index_mem [of "segments w"] assms(2) by auto
  have s: "all_synced w" by (simp add: all_synced_def assms(2))
  note r = rotate_log_effect [OF assms(1) s _ assms(3)]
  show "wal_ok w' (recs(1 := []))" "nextSeq w' = nextSeq w" "nextReplay w' = nextReplay w"
    "maxSize w' = maxSize w" "\<not> segment_file k \<Longrightarrow> fmlookup (files (wDisk w')) k = fmlookup (files (wDisk w)) k"
    using r top by simp_all
  have "key_order (segments w) = []"
    using set_key_order [of "segments w"] assms(2) by simp
  then show "wal_entries w' (recs(1 := [])) = []" using r(2) top by (simp add: wal_entries_def)
  obtain seg d where o: "openSegment (segment_name 1) (wDisk w) = (Inr seg, d)"
      "w' = w\<lparr>segments := fmupd 1 seg (segments w), wDisk := d\<rparr>"
    using assms(3) top next_index [of 0] by (auto simp: rotate_log_def Let_def split: prod.splits sum.splits)
  then show "fmdom' (segments w') = {1}" using assms(2) by simp
  show "all_synced w'"
    using o openSegment_effect(3) [OF o(1)] assms(2)
    by (auto simp: all_synced_def new_writer_def fmpred_iff split: if_splits)
  have "fmlookup (files (wDisk w)) (segment_name 1) = None"
    using assms(1,2) segment_file_name [of 1] unfolding log_ok_def names_ok_def by force
  then show "content (segment_name 1) (wDisk w') = []"
    using o openSegment_effect(1) [OF o(1)] by (simp add: content_def)
qed

lemma Wal_Open_fresh:
  assumes fresh: "no_segments d" and o: "Wal_Open ms d = (Inr w, d')"
  shows "wal_ok w (\<lambda>_. [])" "wal_entries w (\<lambda>_. []) = []" "fmdom' (segments w) = {1}" "nextSeq w = 0"
    "checkpoint_value d = Some (nextReplay w)" "maxSize w = ms" "all_synced w"
    "\<not> segment_file k \<Longrightarrow> fmlookup (files (wDisk w)) k = fmlookup (files d) k"
proof -
  obtain d1 where o1: "os_call d = (None, d1)"
      "loadSegments \<lparr>segments = fmempty, nextSeq = 0, nextReplay = 0, maxSize = ms, wDisk = d1\<rparr> = (None, w)"
    using o by (auto simp: Wal_Open_def split: prod.splits option.splits)
  have f1: "files d1 = files d" by (rule os_call_files [OF o1(1)])
  let ?w0 = "\<lparr>segments = fmempty, nextSeq = 0, nextReplay = 0, maxSize = ms, wDisk = d1\<rparr>"
  obtain entries d2 w1 w2 where o2: "os_read_dir d1 = (Inr entries, d2)"
      "load_loop (sort (filter segment_file entries)) (?w0\<lparr>wDisk := d2\<rparr>) = (None, w1)"
      "loadCheckpoint w1 = (None, w2)" "(if fmsize (segments w2) = 0 then rotate_log w2 else (None, w2)) = (None, w)"
    using o1(2) by (auto simp: loadSegments_def split: prod.splits sum.splits option.splits)
  have f2: "files d2 = files d" and e: "entries = sorted_list_of_fset (fmdom (files d))"
    using os_read_dir_success [OF o2(1)] f1 by simp_all
  have "filter segment_file entries = []"
    using fresh by (auto simp: e no_segments_def filter_empty_conv fmlookup_dom_iff)
  then have w1: "w1 = ?w0\<lparr>wDisk := d2\<rparr>" using o2(2) by simp
  have cp: "files (wDisk w2) = files d" "segments w2 = fmempty" "nextSeq w2 = 0" "maxSize w2 = ms"
      "checkpoint_value d = Some (nextReplay w2)"
    using loadCheckpoint_effect [OF o2(3)] w1 f2 by (simp_all add: checkpoint_value_def)
  have ok: "log_ok w2 (\<lambda>_. [])"
    using fresh cp(1,2) by (simp add: log_ok_def names_ok_def no_segments_def)
  have "rotate_log w2 = (None, w)" using o2(4) cp(2) by simp
  note r = rotate_empty [OF ok cp(2) this]
  have upd: "(\<lambda>_. [])(1 := []) = (\<lambda>_ :: int. [] :: wal_record list)" by auto
  show "wal_ok w (\<lambda>_. [])" "wal_entries w (\<lambda>_. []) = []" using r(1,2) unfolding upd .
  show "fmdom' (segments w) = {1}" "nextSeq w = 0" "maxSize w = ms" "all_synced w"
    "checkpoint_value d = Some (nextReplay w)"
    "\<not> segment_file k \<Longrightarrow> fmlookup (files (wDisk w)) k = fmlookup (files d) k"
    using r cp by simp_all
qed

section \<open>Runs of appends\<close>

fun append_all :: "wal_record list \<Rightarrow> wal \<Rightarrow> err option \<times> wal" where
  "append_all [] w = (None, w)"
| "append_all (r # rs) w =
     (case Wal_Append r w of (Inl e, w1) \<Rightarrow> (Some e, w1) | (Inr s, w1) \<Rightarrow> append_all rs w1)"

fun numbered :: "uint64 \<Rightarrow> wal_record list \<Rightarrow> wal_record list" where
  "numbered n [] = []"
| "numbered n (r # rs) = r\<lparr>rSeq := n\<rparr> # numbered (n + 1) rs"

lemma rotateLocked_top:
  assumes ok: "wal_ok w recs" and idx: "top_index (segments w) + 1 < 2 ^ 63" and r: "rotateLocked w = (None, w')"
  shows "top_index (segments w') = top_index (segments w) + 1"
proof -
  obtain seg where c: "currentLocked w = Some (top_index (segments w), seg)"
    and at: "fmlookup (segments w) (top_index (segments w)) = Some seg" by (rule wal_ok_current [OF ok])
  obtain w1 where f: "flush_at (top_index (segments w)) seg w = (None, w1)" and g: "rotate_log w1 = (None, w')"
    using r c by (auto simp: rotateLocked_def split: prod.splits option.splits)
  obtain s where "segments w' = fmupd (next_index (top_index (segments w1))) s (segments w1)"
    using g by (auto simp: rotate_log_def Let_def split: prod.splits sum.splits)
  moreover have "next_index (top_index (segments w1)) = top_index (segments w1) + 1"
    using flush_current_synced(2) [OF ok at f] idx by (intro next_index top_index_ge) simp
  ultimately have "top_index (segments w') = top_index (segments w1) + 1" by (simp only: top_index_upd)
  also have "top_index (segments w1) = top_index (segments w)"
    using flush_current_synced(2) [OF ok at f] .
  finally show ?thesis .
qed

lemma Wal_Append_top:
  assumes ok: "wal_ok w recs" and idx: "top_index (segments w) + 1 < 2 ^ 63"
    and a: "Wal_Append r w = (Inr s, w')"
  shows "top_index (segments w') \<le> top_index (segments w) + 1"
proof -
  obtain seg where c: "currentLocked w = Some (top_index (segments w), seg)" by (rule wal_ok_current [OF ok])
  show ?thesis
  proof (cases "maxSize w \<le>s sgSize seg")
    case True
    then obtain w1 where "rotateLocked w = (None, w1)" "write_current (r\<lparr>rSeq := nextSeq w\<rparr>) w1 = (Inr s, w')"
      using a c by (auto simp: Wal_Append_def Let_def split: prod.splits option.splits)
    with rotateLocked_effect(1) [OF ok idx] rotateLocked_top [OF ok idx] write_current_effect(6) show ?thesis
      by (metis order_refl)
  next
    case False
    then have "write_current (r\<lparr>rSeq := nextSeq w\<rparr>) w = (Inr s, w')"
      using a c by (simp add: Wal_Append_def Let_def)
    with write_current_effect(6) [OF ok] show ?thesis by simp
  qed
qed

lemma append_all_effect:
  assumes "wal_ok w recs" and "top_index (segments w) + int (length rs) < 2 ^ 63"
    and "append_all rs w = (None, w')"
  shows "\<exists>recs'. wal_ok w' recs' \<and> wal_entries w' recs' = wal_entries w recs @ numbered (nextSeq w) rs
    \<and> nextReplay w' = nextReplay w \<and> nextSeq w' = nextSeq w + of_nat (length rs)
    \<and> (\<forall>k. \<not> segment_file k \<longrightarrow> fmlookup (files (wDisk w')) k = fmlookup (files (wDisk w)) k)"
  using assms
proof (induction rs arbitrary: w recs)
  case (Cons r rs)
  obtain s w1 where a: "Wal_Append r w = (Inr s, w1)" "append_all rs w1 = (None, w')"
    using Cons.prems(3) by (auto split: prod.splits sum.splits)
  have idx: "top_index (segments w) + 1 < 2 ^ 63" using Cons.prems(2) by simp
  note e = Wal_Append_effect [OF Cons.prems(1) idx a(1)]
  from e(1) obtain recs1 where r1: "wal_ok w1 recs1" "wal_entries w1 recs1 = wal_entries w recs @ [r\<lparr>rSeq := nextSeq w\<rparr>]"
    by blast
  have "top_index (segments w1) + int (length rs) < 2 ^ 63"
    using Wal_Append_top [OF Cons.prems(1) idx a(1)] Cons.prems(2) by simp
  from Cons.IH [OF r1(1) this a(2)] show ?case using r1(2) e(3,4,6) by (simp add: add.assoc)
qed auto

section \<open>The watermark\<close>

lemma log_ok_frame:
  assumes "log_ok w recs" and "segments w' = segments w"
    and "\<And>k. segment_file k \<Longrightarrow> fmlookup (files (wDisk w')) k = fmlookup (files (wDisk w)) k"
  shows "log_ok w' recs"
proof -
  have "seg_at w' recs i seg" if l: "fmlookup (segments w') i = Some seg" for i seg
  proof -
    have s: "seg_at w recs i seg" using log_ok_seg [OF assms(1)] l assms(2) by simp
    then have "segment_file (sgName seg)" by (simp add: seg_at_def segment_file_name)
    with s assms(2,3) show ?thesis by (auto simp: seg_at_def intro: seg_ok_cong)
  qed
  with assms show ?thesis by (auto simp: log_ok_def fmpred_iff names_ok_def)
qed

lemma persistReplay_effect:
  assumes "persistReplayLocked w = (None, w')"
  shows "segments w' = segments w" "nextSeq w' = nextSeq w" "nextReplay w' = nextReplay w" "maxSize w' = maxSize w"
    "checkpoint_value (wDisk w') = Some (nextReplay w)"
    "segment_file k \<Longrightarrow> fmlookup (files (wDisk w')) k = fmlookup (files (wDisk w)) k"
proof -
  let ?bs = "bytes_of (show_nat (unat (nextReplay w)))" and ?tmp = "tmp_name checkpointName"
  obtain d d1 where o: "os_write_file ?tmp ?bs (wDisk w) = (None, d)" "os_rename ?tmp checkpointName d = (None, d1)"
      "w' = w\<lparr>wDisk := d1\<rparr>"
    using assms by (auto simp: persistReplayLocked_def Let_def split: prod.splits option.splits)
  have d: "files d = fmupd ?tmp ?bs (files (wDisk w))"
    using o(1) by (auto simp: os_write_file_def dest!: next_fault_files split: prod.splits option.splits)
  obtain bs where b: "fmlookup (files d) ?tmp = Some bs" "files d1 = fmupd checkpointName bs (fmdrop ?tmp (files d))"
    using os_rename_success [OF o(2)] by blast
  then have f: "files d1 = fmupd checkpointName ?bs (fmdrop ?tmp (files (wDisk w)))"
    using d by (auto intro!: fmap_ext)
  show "segments w' = segments w" "nextSeq w' = nextSeq w" "nextReplay w' = nextReplay w" "maxSize w' = maxSize w"
    using o(3) by simp_all
  show "checkpoint_value (wDisk w') = Some (nextReplay w)"
    by (simp add: o(3) f checkpoint_value_def)
  show "segment_file k \<Longrightarrow> fmlookup (files (wDisk w')) k = fmlookup (files (wDisk w)) k"
    using not_segment_file by (auto simp: o(3) f)
qed

lemma SetReplayStart_effect:
  assumes "SetReplayStart s w = (None, w')"
  shows "segments w' = segments w" "nextSeq w' = nextSeq w" "nextReplay w' = max (nextReplay w) s"
    "maxSize w' = maxSize w" "checkpoint_value (wDisk w') = Some (nextReplay w')"
    "segment_file k \<Longrightarrow> fmlookup (files (wDisk w')) k = fmlookup (files (wDisk w)) k"
proof -
  have m: "nextReplay (if nextReplay w < s then w\<lparr>nextReplay := s\<rparr> else w) = max (nextReplay w) s"
  proof (cases "nextReplay w < s")
    case True
    then have "nextReplay w \<le> s" by (rule less_imp_le)
    with True show ?thesis by (simp add: max_absorb2)
  next
    case False
    then have "s \<le> nextReplay w" by (simp add: not_less)
    with False show ?thesis by (simp add: max_absorb1)
  qed
  note e = persistReplay_effect [OF assms [unfolded SetReplayStart_def]]
  show "segments w' = segments w" "nextSeq w' = nextSeq w" "maxSize w' = maxSize w" using e by simp_all
  show "nextReplay w' = max (nextReplay w) s" using e(3) m by simp
  then show "checkpoint_value (wDisk w') = Some (nextReplay w')" using e(5) m by simp
  show "segment_file k \<Longrightarrow> fmlookup (files (wDisk w')) k = fmlookup (files (wDisk w)) k"
    using e(6) [of k] by (simp split: if_splits)
qed

section \<open>Truncation\<close>

lemma top_index_subset:
  assumes "\<And>i s. fmlookup m' i = Some s \<Longrightarrow> \<exists>s. fmlookup m i = Some s"
    and "\<And>i s. fmlookup m i = Some s \<Longrightarrow> 0 < i" and "fmlookup m' i = Some s" and "i \<noteq> top_index m'"
  shows "i \<noteq> top_index m"
proof
  assume eq: "i = top_index m"
  have "i \<le> top_index m'" using top_index_ge(1) [OF assms(3)] .
  moreover have "top_index m' \<le> i"
  proof (cases "top_index m' = 0")
    case True
    then show ?thesis using assms(1) [OF assms(3)] assms(2) by fastforce
  next
    case False
    then obtain s' where "fmlookup m' (top_index m') = Some s'" using top_index_mem by blast
    with assms(1) eq top_index_ge(1) show ?thesis by blast
  qed
  ultimately show False using assms(4) by simp
qed

lemma drop_one_effect:
  assumes ok: "log_ok w recs" and i: "fmlookup (segments w) i = Some seg"
    and f: "flush_at i seg w = (None, w1)" and r: "os_call (wDisk w1) = (None, d)"
    and m: "os_remove (sgName seg) d = (None, d1)"
    and w': "w' = w1\<lparr>segments := fmdrop i (segments w1), wDisk := d1\<rparr>"
  shows "log_ok w' recs" "segments w' = fmdrop i (segments w)"
    "nextSeq w' = nextSeq w" "nextReplay w' = nextReplay w" "maxSize w' = maxSize w"
    "\<not> segment_file k \<Longrightarrow> fmlookup (files (wDisk w')) k = fmlookup (files (wDisk w)) k"
    "j \<noteq> i \<Longrightarrow> fmlookup (segments w) j = Some s \<Longrightarrow> content (sgName s) (wDisk w') = content (sgName s) (wDisk w)"
proof -
  note e = flush_at_effect [OF ok i f]
  have fr: "files d1 = fmdrop (sgName seg) (files (wDisk w1))"
    using os_call_files [OF r] os_remove_success [OF m] by simp
  show segs: "segments w' = fmdrop i (segments w)" using w' e(2) by (auto intro: fmap_ext)
  show "nextSeq w' = nextSeq w" "nextReplay w' = nextReplay w" "maxSize w' = maxSize w" using w' e by simp_all
  have at: "seg_at w recs i seg" by (rule log_ok_seg [OF ok i])
  then have sf: "segment_file (sgName seg)" by (simp add: seg_at_def segment_file_name)
  then show "\<not> segment_file k \<Longrightarrow> fmlookup (files (wDisk w')) k = fmlookup (files (wDisk w)) k"
    using w' fr e(6) [of k] by auto
  have keep: "sgName s \<noteq> sgName seg" if "fmlookup (segments w) j = Some s" "j \<noteq> i" for j s
    using log_ok_seg [OF ok that(1)] at that(2) by (simp add: seg_at_def segment_name_inject)
  obtain seg1 d0 where s1: "seg_flush seg (wDisk w) = (None, seg1, d0)" "wDisk w1 = d0"
    using f by (auto simp: flush_at_def split: prod.splits)
  have other: "fmlookup (files (wDisk w')) n = fmlookup (files (wDisk w)) n" if "n \<noteq> sgName seg" for n
    using that w' fr seg_flush_effect(3) [OF s1(1)] s1(2) by simp
  show "j \<noteq> i \<Longrightarrow> fmlookup (segments w) j = Some s \<Longrightarrow> content (sgName s) (wDisk w') = content (sgName s) (wDisk w)"
    using keep other by (simp add: content_def)
  have "seg_at w' recs j s" if l: "fmlookup (segments w') j = Some s" for j s
  proof -
    from l segs have l0: "fmlookup (segments w) j = Some s" "j \<noteq> i" by (auto split: if_splits)
    from log_ok_seg [OF ok l0(1)] have a: "seg_at w recs j s" .
    have "wBuf (sgWriter s) = []" if nt: "j \<noteq> top_index (segments w')"
    proof -
      have "j \<noteq> top_index (segments w)"
        by (rule top_index_subset [OF _ _ l nt])
           (use segs log_ok_seg [OF ok] in \<open>auto simp: seg_at_def split: if_splits\<close>)
      with a show ?thesis by (simp add: seg_at_def)
    qed
    with a other [OF keep [OF l0]] show ?thesis by (auto simp: seg_at_def intro: seg_ok_cong)
  qed
  moreover have "names_ok w'"
    unfolding names_ok_def
  proof (intro allI impI)
    fix name assume n: "segment_file name" "fmlookup (files (wDisk w')) name \<noteq> None"
    have "name \<noteq> sgName seg" using n(2) w' fr by auto
    with n(2) other have "fmlookup (files (wDisk w)) name \<noteq> None" by simp
    with n(1) ok obtain j s where "fmlookup (segments w) j = Some s" "name = segment_name j"
      unfolding log_ok_def names_ok_def by blast
    with \<open>name \<noteq> sgName seg\<close> at segs show "\<exists>j s. fmlookup (segments w') j = Some s \<and> name = segment_name j"
      by (auto simp: seg_at_def)
  qed
  ultimately show "log_ok w' recs" by (simp add: log_ok_def fmpred_iff)
qed

lemma drop_segments_effect:
  assumes "log_ok w recs" and "drop_segments old ks w = (None, w')"
  shows "log_ok w' recs
    \<and> (\<forall>i. fmlookup (segments w') i =
        (case fmlookup (segments w) i of
           None \<Rightarrow> None
         | Some seg \<Rightarrow> if i \<in> set ks \<and> old seg then None else Some seg))
    \<and> nextSeq w' = nextSeq w \<and> nextReplay w' = nextReplay w \<and> maxSize w' = maxSize w
    \<and> (\<forall>k. \<not> segment_file k \<longrightarrow> fmlookup (files (wDisk w')) k = fmlookup (files (wDisk w)) k)
    \<and> (\<forall>i s. fmlookup (segments w') i = Some s \<longrightarrow> content (sgName s) (wDisk w') = content (sgName s) (wDisk w))"
  using assms
proof (induction ks arbitrary: w)
  case Nil
  then show ?case by (simp add: option.case_eq_if)
next
  case (Cons i ks)
  show ?case
  proof (cases "\<exists>seg. fmlookup (segments w) i = Some seg \<and> old seg")
    case False
    then have "drop_segments old ks w = (None, w')" using Cons.prems(2) by (auto split: option.splits)
    note ih = Cons.IH [OF Cons.prems(1) this]
    have look: "fmlookup (segments w') j = (case fmlookup (segments w) j of
        None \<Rightarrow> None | Some seg \<Rightarrow> if j \<in> set (i # ks) \<and> old seg then None else Some seg)" for j
      using ih [THEN conjunct2, THEN conjunct1] False
      by (cases "j = i"; cases "fmlookup (segments w) j") simp_all
    show ?thesis by (intro conjI allI impI look; (use ih in simp))
  next
    case True
    then obtain seg where i: "fmlookup (segments w) i = Some seg" "old seg" by blast
    then obtain w2 d1 where fc: "flush_close i seg w = (None, w2)" and rm: "os_remove (sgName seg) (wDisk w2) = (None, d1)"
        "drop_segments old ks (w2\<lparr>segments := fmdrop i (segments w2), wDisk := d1\<rparr>) = (None, w')"
      using Cons.prems(2) by (auto split: prod.splits option.splits)
    obtain w1 d where f: "flush_at i seg w = (None, w1)" "os_call (wDisk w1) = (None, d)"
        "w2 = w1\<lparr>segments := fmupd i (seg\<lparr>sgWriter := new_writer\<lparr>wClosed := True\<rparr>\<rparr>) (segments w1), wDisk := d\<rparr>"
      by (rule flush_close_success [OF fc])
    with rm have s: "flush_at i seg w = (None, w1)" "os_call (wDisk w1) = (None, d)" "os_remove (sgName seg) d = (None, d1)"
        "drop_segments old ks (w1\<lparr>segments := fmdrop i (segments w1), wDisk := d1\<rparr>) = (None, w')"
      by (simp_all add: fmdrop_fmupd_same)
    note e = drop_one_effect [OF Cons.prems(1) i(1) s(1-3) refl]
    note ih = Cons.IH [OF e(1) s(4)]
    have look: "fmlookup (segments w') j = (case fmlookup (segments w) j of
        None \<Rightarrow> None | Some seg \<Rightarrow> if j \<in> set (i # ks) \<and> old seg then None else Some seg)" for j
      using ih [THEN conjunct2, THEN conjunct1] e(2) i
      by (cases "j = i"; cases "fmlookup (segments w) j") simp_all
    have cont: "content (sgName t) (wDisk w') = content (sgName t) (wDisk w)" if "fmlookup (segments w') j = Some t" for j t
    proof -
      from that look have "fmlookup (segments w) j = Some t" "j \<noteq> i"
        using i by (auto split: option.splits if_splits)
      then have "content (sgName t) d1 = content (sgName t) (wDisk w)" using e(7) by simp
      with ih that show ?thesis by simp
    qed
    show ?thesis
      by (intro conjI allI impI look cont; (assumption | (use ih e(3-6) in simp)))
  qed
qed

lemma write_records_wrote:
  "write_records name rs wr d = (None, wr', d') \<Longrightarrow> \<not> wBroken wr \<Longrightarrow> wrote name wr d (logged rs) (None, wr', d')"
proof (induction rs arbitrary: wr d)
  case Nil
  then show ?case by (simp add: wrote_still)
next
  case (Cons r rs)
  obtain wr1 d1 where w: "bufio_write name (encodeRecord r) wr d = (None, wr1, d1)"
      "write_records name rs wr1 d1 = (None, wr', d')"
    using Cons.prems(1) by (auto split: prod.splits option.splits)
  have 1: "wrote name wr d (encodeRecord r) (None, wr1, d1)"
    using bufio_write_wrote [of name wr d "encodeRecord r"] w(1) by simp
  then have "\<not> wBroken wr1" by (auto simp: wrote_def)
  from wrote_trans [OF 1 Cons.IH [OF w(2) this]] show ?case by (simp add: logged_def)
qed

lemma write_tmp_effect:
  assumes "write_tmp tmp keep d = (None, d')"
  shows "content tmp d' = content tmp d @ logged keep"
    and "k \<noteq> tmp \<Longrightarrow> fmlookup (files d') k = fmlookup (files d) k"
proof -
  obtain wr d1 wr1 d2 d3 where w: "write_records tmp keep new_writer d = (None, wr, d1)"
      "bufio_flush tmp wr d1 = (None, wr1, d2)" "os_call d2 = (None, d3)" "os_call d3 = (None, d')"
    using assms by (auto simp: write_tmp_def Let_def split: prod.splits option.splits)
  have 1: "wrote tmp new_writer d (logged keep) (None, wr, d1)"
    by (rule write_records_wrote [OF w(1)]) (simp add: new_writer_def)
  have 2: "wrote tmp wr d1 [] (None, wr1, d2)"
    using bufio_flush_wrote [of tmp wr d1] w(2) by simp
  have same: "files d' = files d2" using os_call_files [OF w(3)] os_call_files [OF w(4)] by simp
  have "wBuf wr1 = []" using bufio_flush_clears [OF w(2)] by simp
  with wrote_trans [OF 1 2] have "content tmp d2 = content tmp d @ logged keep"
    by (auto simp: wrote_def new_writer_def)
  then show "content tmp d' = content tmp d @ logged keep" using content_cong [OF same] by simp
  show "k \<noteq> tmp \<Longrightarrow> fmlookup (files d') k = fmlookup (files d) k"
    using wrote_trans [OF 1 2] same by (simp add: wrote_def)
qed

lemma write_tmp_keeps:
  assumes "write_tmp tmp keep d = (None, d')" and "fmlookup (files d) tmp \<noteq> None"
  shows "fmlookup (files d') tmp \<noteq> None"
proof -
  obtain wr d1 wr1 d2 d3 where w: "write_records tmp keep new_writer d = (None, wr, d1)"
      "bufio_flush tmp wr d1 = (None, wr1, d2)" "os_call d2 = (None, d3)" "os_call d3 = (None, d')"
    using assms(1) by (auto simp: write_tmp_def Let_def split: prod.splits option.splits)
  have "wrote tmp new_writer d (logged keep) (None, wr, d1)"
    by (rule write_records_wrote [OF w(1)]) (simp add: new_writer_def)
  moreover have "wrote tmp wr d1 [] (None, wr1, d2)" using bufio_flush_wrote [of tmp wr d1] w(2) by simp
  ultimately show ?thesis
    using assms(2) os_call_files [OF w(3)] os_call_files [OF w(4)] by (auto simp: wrote_def)
qed

lemma deliver_collect: "deliver (\<lambda>rec keep. (None, keep @ [rec])) rs keep = (None, keep @ rs)"
  by (induction rs arbitrary: keep) simp_all

lemma swap_in_effect:
  assumes ok: "wal_ok w recs" and at: "fmlookup (segments w) (top_index (segments w)) = Some cur"
    and tmp: "tmp = tmp_name (sgName cur)" "content tmp (wDisk w) = logged keep"
    and s: "swap_in tmp (top_index (segments w)) cur w = (None, w')"
  shows "wal_ok w' (recs(top_index (segments w) := keep))" "all_synced w'"
    "nextSeq w' = nextSeq w" "nextReplay w' = nextReplay w" "maxSize w' = maxSize w"
    "key_order (segments w') = key_order (segments w)"
    "\<not> segment_file k \<Longrightarrow> k \<noteq> tmp \<Longrightarrow> fmlookup (files (wDisk w')) k = fmlookup (files (wDisk w)) k"
proof -
  let ?top = "top_index (segments w)"
  have sa: "seg_at w recs ?top cur" by (rule wal_ok_seg [OF ok at])
  then have nm: "sgName cur = segment_name ?top" "0 < ?top" "?top < 2 ^ 63" by (simp_all add: seg_at_def)
  note path = segmentIndex_name(2) [OF nm(2,3)]
  obtain w2 d1 seg d2 where fc: "flush_close ?top cur w = (None, w2)"
    and sw: "os_rename tmp (sgName cur) (wDisk w2) = (None, d1)" "openSegment (sgName cur) d1 = (Inr seg, d2)"
      "w' = w2\<lparr>segments := fmupd ?top seg (segments w2), wDisk := d2\<rparr>"
    using s path nm(1) by (auto simp: swap_in_def split: prod.splits option.splits sum.splits)
  obtain w1 d where fl: "flush_at ?top cur w = (None, w1)" "os_call (wDisk w1) = (None, d)"
      "w2 = w1\<lparr>segments := fmupd ?top (cur\<lparr>sgWriter := new_writer\<lparr>wClosed := True\<rparr>\<rparr>) (segments w1), wDisk := d\<rparr>"
    by (rule flush_close_success [OF fc])
  with sw have f: "flush_at ?top cur w = (None, w1)" "os_call (wDisk w1) = (None, d)"
      "os_rename tmp (sgName cur) d = (None, d1)" "openSegment (sgName cur) d1 = (Inr seg, d2)"
      "w' = w1\<lparr>segments := fmupd ?top seg (segments w1), wDisk := d2\<rparr>"
    by simp_all
  note e = flush_at_effect [OF wal_ok_log [OF ok] at f(1)]
  have ntmp: "\<not> segment_file tmp" using tmp(1) not_segment_file by simp
  obtain bs where b: "fmlookup (files d) tmp = Some bs" "files d1 = fmupd (sgName cur) bs (fmdrop tmp (files d))"
    using os_rename_success [OF f(3)] by blast
  have fd: "files d = files (wDisk w1)" by (rule os_call_files [OF f(2)])
  have "bs = logged keep"
    using b(1) fd e(6) [OF ntmp] tmp(2) by (simp add: content_def)
  note oe = openSegment_effect [OF f(4)]
  have c: "content (sgName cur) d1 = logged keep" using b(2) \<open>bs = logged keep\<close> by (simp add: content_def)
  have fd2: "files d2 = files d1" using oe(1) b(2) by simp
  have sok: "seg_ok d2 seg keep" by (rule openSegment_ok [OF f(4) c])
  have dk: "fmlookup (files d2) n = fmlookup (files (wDisk w1)) n" if "n \<noteq> sgName cur" "n \<noteq> tmp" for n
    using that fd2 b(2) fd by simp
  obtain seg1 d0 where s1: "seg_flush cur (wDisk w) = (None, seg1, d0)" "wDisk w1 = d0"
    using f(1) by (auto simp: flush_at_def split: prod.splits)
  have segs: "segments w' = fmupd ?top seg (segments w)"
    using f(5) e(2) by (auto intro!: fmap_ext)
  define v where "v = w\<lparr>wDisk := (wDisk w)\<lparr>files := fmdrop tmp (files (wDisk w))\<rparr>\<rparr>"
  have vok: "log_ok v recs"
    by (rule log_ok_frame [OF wal_ok_log [OF ok]]) (use ntmp in \<open>auto simp: v_def\<close>)
  have frame: "fmlookup (files (wDisk w')) n = fmlookup (files (wDisk v)) n" if "n \<noteq> sgName cur" for n
    using that f(5) dk [of n] b(2) fd2 seg_flush_effect(3) [OF s1(1)] s1(2) by (simp add: v_def)
  show "wal_ok w' (recs(?top := keep))"
    by (rule wal_ok_update [OF vok, of ?top cur seg])
       (use frame sok segs at oe(2,3) f(5) in \<open>simp_all add: v_def new_writer_def\<close>)
  show "all_synced w'"
    using wal_ok_seg [OF ok] segs oe(3) by (auto simp: all_synced_def fmpred_iff seg_at_def new_writer_def)
  show "nextSeq w' = nextSeq w" "nextReplay w' = nextReplay w" "maxSize w' = maxSize w" using f(5) e by simp_all
  show "key_order (segments w') = key_order (segments w)" using segs key_order_update [OF at] by simp
  show "\<not> segment_file k \<Longrightarrow> k \<noteq> tmp \<Longrightarrow> fmlookup (files (wDisk w')) k = fmlookup (files (wDisk w)) k"
    using dk [of k] e(6) [of k] f(5) segment_file_name [of ?top] nm(1) by auto
qed

lemma rewrite_current_effect:
  assumes ok: "wal_ok w recs" and sc: "scans_as (content (segment_name (top_index (segments w))) (wDisk w)) rs1"
    and r: "rewrite_current s w = (None, w')"
  shows "wal_ok w' (recs(top_index (segments w) := found (s + 1) rs1))" "all_synced w'"
    "nextSeq w' = nextSeq w" "nextReplay w' = nextReplay w" "maxSize w' = maxSize w"
    "key_order (segments w') = key_order (segments w)"
    "fmlookup (files (wDisk w')) checkpointName = fmlookup (files (wDisk w)) checkpointName"
proof -
  let ?top = "top_index (segments w)"
  obtain cur where c: "currentLocked w = Some (?top, cur)" and at: "fmlookup (segments w) ?top = Some cur"
    and sa: "seg_at w recs ?top cur" by (rule wal_ok_current [OF ok])
  then have nm: "sgName cur = segment_name ?top" by (simp add: seg_at_def)
  let ?tmp = "tmp_name (sgName cur)"
  obtain e d where o: "os_open (sgName cur) (wDisk w) = (e, d)" by (rule prod.exhaust)
  then have e: "e = None" using r c by (cases e) (simp_all add: rewrite_current_def)
  obtain bs failed d1 where rd: "os_read (sgName cur) d = ((bs, failed), d1)" by (metis prod.exhaust)
  obtain e1 keep where ds: "scanRecords bs (s + 1) (\<lambda>rec keep. (None, keep @ [rec])) [] = (e1, keep)"
    by (rule prod.exhaust)
  then have e1: "e1 = None" and nf: "\<not> failed"
    using r c o e rd by (cases e1; cases failed; simp add: rewrite_current_def)+
  obtain d2 d3 where ct: "os_create_trunc ?tmp d1 = (None, d2)" and wt: "write_tmp ?tmp keep d2 = (None, d3)"
    and sw: "swap_in ?tmp ?top cur (w\<lparr>wDisk := d3\<rparr>) = (None, w')"
    using r c o e rd ds e1 nf
    by (auto simp: rewrite_current_def Let_def split: prod.splits option.splits)
  have fd1: "files d1 = files (wDisk w)" using os_open_files [OF o] os_read_files [OF rd] by simp
  have "bs = content (sgName cur) d" using rd nf by (simp add: os_read_content)
  then have "bs = content (segment_name ?top) (wDisk w)"
    using content_cong [OF os_open_files [OF o]] nm by simp
  with sc ds have keep: "keep = found (s + 1) rs1"
    by (simp add: scanRecords_scans_as deliver_collect found_def)
  have fd2: "files d2 = fmupd ?tmp [] (files d1)"
    using ct by (auto simp: os_create_trunc_def dest!: next_fault_files split: prod.splits option.splits)
  have tmp: "content ?tmp d3 = logged keep"
    using write_tmp_effect(1) [OF wt] fd2 by (simp add: content_def)
  have other: "fmlookup (files d3) n = fmlookup (files (wDisk w)) n" if "n \<noteq> ?tmp" for n
    using write_tmp_effect(2) [OF wt that] fd2 fd1 that by simp
  have "segments w \<noteq> fmempty" using ok by (simp add: wal_ok_def)
  moreover have "log_ok (w\<lparr>wDisk := d3\<rparr>) recs"
  proof (rule log_ok_frame [OF wal_ok_log [OF ok]])
    fix n assume "segment_file n"
    then have "n \<noteq> ?tmp" using not_segment_file(2) by blast
    from other [OF this]
    show "fmlookup (files (wDisk (w\<lparr>wDisk := d3\<rparr>))) n = fmlookup (files (wDisk w)) n" by simp
  qed simp
  ultimately have ok3: "wal_ok (w\<lparr>wDisk := d3\<rparr>) recs" by (simp add: wal_ok_def)
  have ne: "checkpointName \<noteq> ?tmp"
    by (simp add: checkpointName_def tmp_name_def nm segment_name_def)
  note sw = swap_in_effect [OF ok3, simplified, OF at refl tmp sw]
  show "wal_ok w' (recs(?top := found (s + 1) rs1))" "all_synced w'" "nextSeq w' = nextSeq w"
    "nextReplay w' = nextReplay w" "maxSize w' = maxSize w" "key_order (segments w') = key_order (segments w)"
    using sw(1-6) keep by simp_all
  show "fmlookup (files (wDisk w')) checkpointName = fmlookup (files (wDisk w)) checkpointName"
    using sw(7) [OF not_segment_file(1) ne] other [OF ne] by simp
qed

text \<open>No part of a truncation touches the counters, whether it succeeds or not.\<close>

lemma flush_close_counters:
  "nextSeq (snd (flush_close i seg w)) = nextSeq w" "nextReplay (snd (flush_close i seg w)) = nextReplay w"
  "maxSize (snd (flush_close i seg w)) = maxSize w"
  by (simp_all add: flush_close_def split: prod.splits option.splits)

lemma rotate_log_counters:
  "nextSeq (snd (rotate_log w)) = nextSeq w" "nextReplay (snd (rotate_log w)) = nextReplay w"
  "maxSize (snd (rotate_log w)) = maxSize w"
  by (simp_all add: rotate_log_def Let_def split: prod.splits sum.splits)

lemma drop_segments_counters:
  "nextSeq (snd (drop_segments old ks w)) = nextSeq w \<and> nextReplay (snd (drop_segments old ks w)) = nextReplay w
   \<and> maxSize (snd (drop_segments old ks w)) = maxSize w"
proof (induction ks arbitrary: w)
  case (Cons i ks)
  show ?case
  proof (cases "fmlookup (segments w) i")
    case None
    then show ?thesis using Cons.IH [of w] by simp
  next
    case (Some seg)
    obtain e w1 where f: "flush_close i seg w = (e, w1)" by (rule prod.exhaust)
    obtain e2 d where r: "os_remove (sgName seg) (wDisk w1) = (e2, d)" by (rule prod.exhaust)
    have fc: "nextSeq w1 = nextSeq w" "nextReplay w1 = nextReplay w" "maxSize w1 = maxSize w"
      using flush_close_counters [of i seg w] f by simp_all
    show ?thesis
    proof (cases "old seg")
      case False
      with Some show ?thesis using Cons.IH [of w] by simp
    next
      case True
      with Some f r fc show ?thesis
        using Cons.IH [of "w1\<lparr>segments := fmdrop i (segments w1), wDisk := d\<rparr>"]
        by (cases e; cases e2) simp_all
    qed
  qed
qed simp

lemma swap_in_counters:
  "nextSeq (snd (swap_in tmp i cur w)) = nextSeq w" "nextReplay (snd (swap_in tmp i cur w)) = nextReplay w"
  "maxSize (snd (swap_in tmp i cur w)) = maxSize w"
proof -
  obtain e w1 where f: "flush_close i cur w = (e, w1)" by (rule prod.exhaust)
  obtain e2 d where r: "os_rename tmp (sgName cur) (wDisk w1) = (e2, d)" by (rule prod.exhaust)
  obtain e3 d1 where o: "openSegment (sgName cur) d = (e3, d1)" by (rule prod.exhaust)
  show "nextSeq (snd (swap_in tmp i cur w)) = nextSeq w" "nextReplay (snd (swap_in tmp i cur w)) = nextReplay w"
    "maxSize (snd (swap_in tmp i cur w)) = maxSize w"
    using flush_close_counters [of i cur w] f r o
    by (cases e; cases e2; cases e3; simp add: swap_in_def)+
qed

lemma rewrite_current_counters:
  "nextSeq (snd (rewrite_current s w)) = nextSeq w" "nextReplay (snd (rewrite_current s w)) = nextReplay w"
  "maxSize (snd (rewrite_current s w)) = maxSize w"
  by (simp_all add: rewrite_current_def swap_in_counters Let_def split: prod.splits option.splits)

lemma TruncateTo_counters:
  "nextSeq (snd (TruncateTo ks s w)) = nextSeq w" "nextReplay (snd (TruncateTo ks s w)) = nextReplay w"
  "maxSize (snd (TruncateTo ks s w)) = maxSize w"
proof -
  obtain e w1 where d: "drop_segments (\<lambda>seg. sgLast seg \<le> s) ks w = (e, w1)" by (rule prod.exhaust)
  with drop_segments_counters [of "\<lambda>seg. sgLast seg \<le> s" ks w] rotate_log_counters [of w1]
    rewrite_current_counters [of s w1]
  show "nextSeq (snd (TruncateTo ks s w)) = nextSeq w" "nextReplay (snd (TruncateTo ks s w)) = nextReplay w"
    "maxSize (snd (TruncateTo ks s w)) = maxSize w"
    by (cases e; simp add: TruncateTo_def)+
qed

lemma Replay_counters:
  "nextSeq (snd (Replay from fn s w)) = nextSeq w" "segments (snd (Replay from fn s w)) = segments w"
  "nextReplay (snd (Replay from fn s w)) = nextReplay w"
proof -
  have "nextSeq (snd (replay_loop from fn ks s w)) = nextSeq w
      \<and> segments (snd (replay_loop from fn ks s w)) = segments w
      \<and> nextReplay (snd (replay_loop from fn ks s w)) = nextReplay w" for ks
  proof (induction ks arbitrary: s w)
    case (Cons i ks)
    show ?case
    proof (cases "fmlookup (segments w) i")
      case None
      then show ?thesis using Cons.IH [of s w] by simp
    next
      case (Some seg)
      obtain e d where o: "os_open (sgName seg) (wDisk w) = (e, d)" by (rule prod.exhaust)
      obtain bs failed d1 where r: "os_read (sgName seg) d = ((bs, failed), d1)" by (metis prod.exhaust)
      obtain e2 s1 where c: "scanRecords bs from fn s = (e2, s1)" by (rule prod.exhaust)
      show ?thesis
        using Cons.IH [of s w] Cons.IH [of s1 "w\<lparr>wDisk := snd (os_call d1)\<rparr>"] Some o r c
        by (cases e; cases e2) (simp_all add: Let_def)
    qed
  qed simp
  then show "nextSeq (snd (Replay from fn s w)) = nextSeq w" "segments (snd (Replay from fn s w)) = segments w"
    "nextReplay (snd (Replay from fn s w)) = nextReplay w"
    by (simp_all add: Replay_def)
qed

lemma found_twice: "found s (found s rs) = found s rs"
  by (simp add: found_def)

lemma found_concat: "found s (concat xss) = concat (map (found s) xss)"
  by (induction xss) (simp_all add: found_def)

lemma concat_map_filter:
  "(\<And>x. x \<in> set xs \<Longrightarrow> \<not> P x \<Longrightarrow> f x = []) \<Longrightarrow> concat (map f (filter P xs)) = concat (map f xs)"
  by (induction xs) auto

text \<open>What the first loop of \<open>TruncateTo\<close> leaves: the segments that have a record after \<open>s\<close>.\<close>

lemma TruncateTo_drop:
  assumes ok: "wal_ok w recs" and ks: "visits ks (segments w)"
    and d: "drop_segments (\<lambda>seg. sgLast seg \<le> s) ks w = (None, w1)"
  shows "log_ok w1 recs"
    and "fmlookup (segments w1) i = (case fmlookup (segments w) i of
        None \<Rightarrow> None | Some seg \<Rightarrow> if sgLast seg \<le> s then None else Some seg)"
    and "key_order (segments w1) = filter (\<lambda>i. s < sgLast (the (fmlookup (segments w) i))) (key_order (segments w))"
    and "nextSeq w1 = nextSeq w" "nextReplay w1 = nextReplay w" "maxSize w1 = maxSize w"
    and "fmlookup (files (wDisk w1)) checkpointName = fmlookup (files (wDisk w)) checkpointName"
    and "fmlookup (segments w1) j = Some seg \<Longrightarrow> content (sgName seg) (wDisk w1) = content (sgName seg) (wDisk w)"
proof -
  note e = drop_segments_effect [OF wal_ok_log [OF ok] d]
  show look: "fmlookup (segments w1) i = (case fmlookup (segments w) i of
        None \<Rightarrow> None | Some seg \<Rightarrow> if sgLast seg \<le> s then None else Some seg)" for i
    using e visits_mem [OF ks, of i] by (cases "fmlookup (segments w) i") simp_all
  show "key_order (segments w1) = filter (\<lambda>i. s < sgLast (the (fmlookup (segments w) i))) (key_order (segments w))"
  proof (rule key_order_unique [symmetric])
    show "sorted (filter (\<lambda>i. s < sgLast (the (fmlookup (segments w) i))) (key_order (segments w)))"
      "distinct (filter (\<lambda>i. s < sgLast (the (fmlookup (segments w) i))) (key_order (segments w)))"
      by (simp_all add: sorted_key_order sorted_filter [where f = "\<lambda>x. x", simplified])
    show "set (filter (\<lambda>i. s < sgLast (the (fmlookup (segments w) i))) (key_order (segments w))) = fmdom' (segments w1)"
      by (auto simp: set_key_order fmlookup_dom'_iff look not_le split: option.splits if_splits)
  qed
  show "log_ok w1 recs" "nextSeq w1 = nextSeq w" "nextReplay w1 = nextReplay w" "maxSize w1 = maxSize w"
    "fmlookup (files (wDisk w1)) checkpointName = fmlookup (files (wDisk w)) checkpointName"
    "fmlookup (segments w1) j = Some seg \<Longrightarrow> content (sgName seg) (wDisk w1) = content (sgName seg) (wDisk w)"
    using e not_segment_file(1) by simp_all
qed

lemma TruncateTo_all:
  assumes ok: "wal_ok w recs" and ks: "visits ks (segments w)"
    and old: "fmpred (\<lambda>_ seg. sgLast seg \<le> s) (segments w)" and t: "TruncateTo ks s w = (None, w')"
  shows "wal_ok w' (recs(1 := []))" "wal_entries w' (recs(1 := [])) = []" "fmdom' (segments w') = {1}"
    "nextSeq w' = nextSeq w" "nextReplay w' = nextReplay w" "content (segment_name 1) (wDisk w') = []"
    "checkpoint_value (wDisk w') = checkpoint_value (wDisk w)" "all_synced w'"
proof -
  obtain w1 where d: "drop_segments (\<lambda>seg. sgLast seg \<le> s) ks w = (None, w1)"
    using t by (auto simp: TruncateTo_def split: prod.splits option.splits)
  note e = TruncateTo_drop [OF ok ks d]
  have "fmlookup (segments w1) i = None" for i
    using e(2) [of i] old by (cases "fmlookup (segments w) i") (auto simp: fmpred_iff)
  then have empty: "segments w1 = fmempty" by (auto intro: fmap_ext)
  then have "rotate_log w1 = (None, w')" using t d by (simp add: TruncateTo_def)
  note r = rotate_empty [OF e(1) empty this]
  show "wal_ok w' (recs(1 := []))" "wal_entries w' (recs(1 := [])) = []" "fmdom' (segments w') = {1}"
    "nextSeq w' = nextSeq w" "nextReplay w' = nextReplay w" "content (segment_name 1) (wDisk w') = []"
    "checkpoint_value (wDisk w') = checkpoint_value (wDisk w)" "all_synced w'"
    using r e(4,5,7) not_segment_file(1) by (simp_all add: checkpoint_value_def)
qed

lemma TruncateTo_some:
  assumes ok: "wal_ok w recs" and ks: "visits ks (segments w)"
    and i: "fmlookup (segments w) i = Some seg" "s < sgLast seg" and t: "TruncateTo ks s w = (None, w')"
  obtains w1 where "drop_segments (\<lambda>seg. sgLast seg \<le> s) ks w = (None, w1)" "wal_ok w1 recs"
    "rewrite_current s w1 = (None, w')" "\<exists>s. fmlookup (segments w) (top_index (segments w1)) = Some s"
    "top_index (segments w) = i \<Longrightarrow> top_index (segments w1) = i"
proof -
  obtain w1 where d: "drop_segments (\<lambda>seg. sgLast seg \<le> s) ks w = (None, w1)"
    using t by (auto simp: TruncateTo_def split: prod.splits option.splits)
  note e = TruncateTo_drop [OF ok ks d]
  have at: "fmlookup (segments w1) i = Some seg" using e(2) [of i] i by simp
  then have ne: "segments w1 \<noteq> fmempty" by auto
  then have ok1: "wal_ok w1 recs" using e(1) by (simp add: wal_ok_def)
  have rw: "rewrite_current s w1 = (None, w')" using t d ne by (simp add: TruncateTo_def fmsize_0_iff)
  have sub: "\<exists>s. fmlookup (segments w) j = Some s" if "fmlookup (segments w1) j = Some s'" for j s'
    using that e(2) [of j] by (auto split: option.splits)
  obtain s' where "fmlookup (segments w1) (top_index (segments w1)) = Some s'" by (rule wal_ok_current [OF ok1])
  from sub [OF this] have top1: "\<exists>s. fmlookup (segments w) (top_index (segments w1)) = Some s" .
  have "top_index (segments w1) = i" if top: "top_index (segments w) = i"
  proof (rule top_index_eqI [OF at])
    show "0 \<le> i" using top_index_ge(2) [of "segments w"] top by simp
    show "j \<le> i" if "fmlookup (segments w1) j = Some s'" for j s'
      using sub [OF that] top_index_ge(1) top by blast
  qed
  with that d ok1 rw top1 show ?thesis by blast
qed

text \<open>Truncating a synced log keeps every record after \<open>s\<close> that framing can find.\<close>

lemma TruncateTo_synced:
  assumes ok: "wal_ok w recs" and sy: "all_synced w" and ks: "visits ks (segments w)"
    and s: "s + 1 \<noteq> 0" and t: "TruncateTo ks s w = (None, w')"
  shows "\<exists>recs'. wal_ok w' recs' \<and> all_synced w'
    \<and> found (s + 1) (wal_entries w' recs') = found (s + 1) (wal_entries w recs)"
proof -
  have lost_none: "found (s + 1) (recs i) = []" if "fmlookup (segments w) i = Some seg" "sgLast seg \<le> s" for i seg
  proof -
    have "rSeq r \<le> s" if "r \<in> set (recs i)" "frame_safe r" for r
      using wal_ok_seg [OF ok \<open>fmlookup (segments w) i = Some seg\<close>] that \<open>sgLast seg \<le> s\<close>
      by (auto simp: seg_at_def seg_ok_def intro: order_trans)
    then have "\<not> s + 1 \<le> rSeq r" if "r \<in> set (recs i)" "frame_safe r" for r
      using that less_succ_iff [OF s, of "rSeq r"] by (simp add: not_le)
    then show ?thesis by (auto simp: found_def filter_empty_conv)
  qed
  show ?thesis
  proof (cases "fmpred (\<lambda>_ seg. sgLast seg \<le> s) (segments w)")
    case True
    note a = TruncateTo_all [OF ok ks True t]
    have "found (s + 1) (recs j) = []" if "j \<in> set (key_order (segments w))" for j
    proof -
      from that obtain seg where seg: "fmlookup (segments w) j = Some seg"
        by (auto simp: set_key_order fmlookup_dom'_iff)
      with True have "sgLast seg \<le> s" by (auto simp: fmpred_iff)
      with seg show ?thesis by (rule lost_none)
    qed
    then have "found (s + 1) (wal_entries w recs) = []"
      by (simp add: wal_entries_def found_concat concat_eq_Nil_conv)
    with a(1,2,8) show ?thesis by (intro exI [of _ "recs(1 := [])"]) (simp add: found_def)
  next
    case False
    then obtain i seg where i: "fmlookup (segments w) i = Some seg" "s < sgLast seg"
      by (auto simp: fmpred_iff not_le)
    obtain w1 where w1: "drop_segments (\<lambda>seg. sgLast seg \<le> s) ks w = (None, w1)" "wal_ok w1 recs"
        "rewrite_current s w1 = (None, w')" "\<exists>s. fmlookup (segments w) (top_index (segments w1)) = Some s"
      using TruncateTo_some [OF ok ks i t] by metis
    note e = TruncateTo_drop [OF ok ks w1(1)]
    let ?top = "top_index (segments w1)"
    obtain seg1 where at: "fmlookup (segments w1) ?top = Some seg1" and sa: "seg_at w1 recs ?top seg1"
      by (rule wal_ok_current [OF w1(2)])
    have "fmlookup (segments w) ?top = Some seg1" using at e(2) [of ?top] by (auto split: option.splits if_splits)
    with sy have "wBuf (sgWriter seg1) = []" by (auto simp: all_synced_def fmpred_iff)
    with sa have "scans_as (content (segment_name ?top) (wDisk w1)) (recs ?top)"
      using scans_as_logged [of "recs ?top"] by (auto simp: seg_at_def seg_ok_def)
    note rw = rewrite_current_effect [OF w1(2) this w1(3)]
    let ?recs = "recs(?top := found (s + 1) (recs ?top))"
    have eq: "found (s + 1) (?recs j) = found (s + 1) (recs j)" for j by (simp add: found_twice)
    have "found (s + 1) (wal_entries w' ?recs) = concat (map (\<lambda>j. found (s + 1) (recs j)) (key_order (segments w1)))"
      by (simp add: wal_entries_def found_concat rw(6) comp_def eq del: fun_upd_apply)
    also have "\<dots> = concat (map (\<lambda>j. found (s + 1) (recs j)) (key_order (segments w)))"
    proof -
      have "found (s + 1) (recs j) = []"
        if "j \<in> set (key_order (segments w))" "\<not> s < sgLast (the (fmlookup (segments w) j))" for j
        using that lost_none [of j] by (auto simp: set_key_order fmlookup_dom'_iff not_less)
      then show ?thesis unfolding e(3) by (rule concat_map_filter)
    qed
    also have "\<dots> = found (s + 1) (wal_entries w recs)" by (simp add: wal_entries_def found_concat comp_def)
    finally show ?thesis using rw(1,2) by blast
  qed
qed

section \<open>The log around a flush\<close>

lemma current_scans:
  assumes ok: "wal_ok w recs"
  shows "\<exists>rs. scans_as (content (segment_name (top_index (segments w))) (wDisk w)) rs"
proof -
  obtain seg where "seg_at w recs (top_index (segments w)) seg" by (rule wal_ok_current [OF ok])
  then have "logged (recs (top_index (segments w)))
      = content (segment_name (top_index (segments w))) (wDisk w) @ wBuf (sgWriter seg)"
    by (auto simp: seg_at_def seg_ok_def)
  from scans_as_prefix [OF this] show ?thesis by blast
qed

lemma TruncateTo_ok:
  assumes ok: "wal_ok w recs" and ks: "visits ks (segments w)" and t: "TruncateTo ks s w = (None, w')"
  shows "(\<exists>recs'. wal_ok w' recs') \<and> checkpoint_value (wDisk w') = checkpoint_value (wDisk w)"
proof (cases "fmpred (\<lambda>_ seg. sgLast seg \<le> s) (segments w)")
  case True
  from TruncateTo_all [OF ok ks True t] show ?thesis by blast
next
  case False
  then obtain i seg where i: "fmlookup (segments w) i = Some seg" "s < sgLast seg"
    by (auto simp: fmpred_iff not_le)
  obtain w1 where w1: "drop_segments (\<lambda>seg. sgLast seg \<le> s) ks w = (None, w1)" "wal_ok w1 recs"
      "rewrite_current s w1 = (None, w')"
    by (rule TruncateTo_some [OF ok ks i t])
  from current_scans [OF w1(2)] obtain rs1
    where "scans_as (content (segment_name (top_index (segments w1))) (wDisk w1)) rs1" by blast
  from rewrite_current_effect [OF w1(2) this w1(3)] TruncateTo_drop(7) [OF ok ks w1(1)]
  show ?thesis by (auto simp: checkpoint_value_def)
qed

lemma flush_log:
  assumes ok: "wal_ok w recs" and r: "SetReplayStart (s + 1) w = (None, w1)"
    and ks: "visits ks (segments w1)" and t: "TruncateTo ks s w1 = (None, w2)"
  shows "(\<exists>recs'. wal_ok w2 recs') \<and> nextReplay w2 = max (nextReplay w) (s + 1) \<and> nextSeq w2 = nextSeq w
    \<and> checkpoint_value (wDisk w2) = Some (nextReplay w2)"
proof -
  note e = SetReplayStart_effect [OF r]
  have "wal_ok w1 recs"
    using ok log_ok_frame [of w recs w1] e(1,6) by (simp add: wal_ok_def)
  from TruncateTo_ok [OF this ks t] TruncateTo_counters [of ks s w1] t e show ?thesis by simp
qed

lemma reopen_watermark:
  assumes ok: "wal_ok w recs" and d: "files d = files (wDisk w)" and o: "Wal_Open ms d = (Inr w', d')"
  shows "checkpoint_value (wDisk w) = Some (nextReplay w')"
proof -
  obtain recs' where "disk_log d (fmdom' (segments w)) recs'" using crash_disk_log [OF ok d] by blast
  moreover have "fmdom' (segments w) \<noteq> {}" by (rule wal_ok_current [OF ok]) (auto dest: fmdom'I)
  ultimately show ?thesis using Wal_Open_effect(4) [OF _ _ o] d by (simp add: checkpoint_value_def)
qed

section \<open>Without faults every call succeeds\<close>

lemma os_create_faults: "faults d = [] \<Longrightarrow> os_create name d = (e, d') \<Longrightarrow> faults d' = []"
  by (auto simp: os_create_def next_fault_none)

lemma openSegment_clean:
  assumes "faults d = []" and "scans_as (content name d) rs"
  shows "\<exists>seg d'. openSegment name d = (Inr seg, d') \<and> faults d' = []"
  using openSegment_succeeds [OF assms(1)] assms(2) by (simp add: scans_as_def)

lemma flush_at_clean:
  assumes "log_ok w recs" and "fmlookup (segments w) i = Some seg" and "faults (wDisk w) = []"
  shows "\<exists>w'. flush_at i seg w = (None, w') \<and> faults (wDisk w') = []"
proof -
  have ok: "sound (sgWriter seg)" using log_ok_seg [OF assms(1,2)] by (simp add: seg_at_def seg_ok_def)
  then obtain wr d where b: "bufio_flush (sgName seg) (sgWriter seg) (wDisk w) = (None, wr, d)" "faults d = []"
    using bufio_flush_ok [OF assms(3)] by blast
  moreover have "\<not> wClosed wr" using bufio_flush_clears [OF b(1)] ok by (simp add: sound_def)
  ultimately show ?thesis by (simp add: flush_at_def seg_flush_def)
qed

lemma rotate_log_clean:
  assumes "log_ok w recs" and "top_index (segments w) + 1 < 2 ^ 63" and "faults (wDisk w) = []"
  shows "\<exists>w'. rotate_log w = (None, w') \<and> faults (wDisk w') = []"
proof -
  let ?i = "top_index (segments w) + 1"
  have pos: "0 < ?i" using top_index_ge(2) [of "segments w"] by simp
  have "fmlookup (files (wDisk w)) (segment_name ?i) = None"
  proof (rule ccontr)
    assume "fmlookup (files (wDisk w)) (segment_name ?i) \<noteq> None"
    with assms(1) segment_file_name obtain j s where j: "fmlookup (segments w) j = Some s" "segment_name ?i = segment_name j"
      unfolding log_ok_def names_ok_def by blast
    from log_ok_seg [OF assms(1) j(1)] pos assms(2) j(2) have "j = ?i" by (simp add: seg_at_def segment_name_inject)
    with top_index_ge(1) [OF j(1)] show False by simp
  qed
  then have "scans_as (content (segment_name ?i) (wDisk w)) []"
    using scans_as_logged [of "[]"] by (simp add: content_def)
  from openSegment_clean [OF assms(3) this] next_index [OF top_index_ge(2) assms(2)] show ?thesis
    by (auto simp: rotate_log_def Let_def)
qed

lemma Sync_clean:
  assumes "wal_ok w recs" and "faults (wDisk w) = []"
  shows "\<exists>w'. Sync w = (None, w') \<and> faults (wDisk w') = []"
proof -
  obtain seg where c: "currentLocked w = Some (top_index (segments w), seg)"
    and at: "fmlookup (segments w) (top_index (segments w)) = Some seg" by (rule wal_ok_current [OF assms(1)])
  from flush_at_clean [OF wal_ok_log [OF assms(1)] at assms(2)] c show ?thesis by (simp add: Sync_def)
qed

lemma write_current_clean:
  assumes "wal_ok w recs" and "faults (wDisk w) = []"
  shows "\<exists>w'. write_current r w = (Inr (rSeq r), w') \<and> faults (wDisk w') = []"
proof -
  obtain seg where c: "currentLocked w = Some (top_index (segments w), seg)"
    and sa: "seg_at w recs (top_index (segments w)) seg" by (rule wal_ok_current [OF assms(1)])
  then have "sound (sgWriter seg)" by (simp add: seg_at_def seg_ok_def)
  then obtain wr d where "bufio_write (sgName seg) (encodeRecord r) (sgWriter seg) (wDisk w) = (None, wr, d)" "faults d = []"
    using bufio_write_ok [OF assms(2)] by blast
  with c show ?thesis by (simp add: write_current_def seg_write_def Let_def)
qed

lemma rotateLocked_clean:
  assumes "wal_ok w recs" and "top_index (segments w) + 1 < 2 ^ 63" and "faults (wDisk w) = []"
  shows "\<exists>w'. rotateLocked w = (None, w') \<and> faults (wDisk w') = []"
proof -
  obtain seg where c: "currentLocked w = Some (top_index (segments w), seg)"
    and at: "fmlookup (segments w) (top_index (segments w)) = Some seg" by (rule wal_ok_current [OF assms(1)])
  obtain w1 where f: "flush_at (top_index (segments w)) seg w = (None, w1)" "faults (wDisk w1) = []"
    using flush_at_clean [OF wal_ok_log [OF assms(1)] at assms(3)] by blast
  have "log_ok w1 recs" using flush_at_effect(1) [OF wal_ok_log [OF assms(1)] at f(1)] by (rule wal_ok_log)
  moreover have "top_index (segments w1) + 1 < 2 ^ 63"
    using flush_current_synced(2) [OF assms(1) at f(1)] assms(2) by simp
  ultimately show ?thesis using rotate_log_clean f c by (fastforce simp: rotateLocked_def)
qed

lemma Wal_Append_clean:
  assumes ok: "wal_ok w recs" and idx: "top_index (segments w) + 1 < 2 ^ 63" and nf: "faults (wDisk w) = []"
  shows "\<exists>w'. Wal_Append r w = (Inr (nextSeq w), w') \<and> faults (wDisk w') = []"
proof -
  obtain seg where c: "currentLocked w = Some (top_index (segments w), seg)" by (rule wal_ok_current [OF ok])
  show ?thesis
  proof (cases "maxSize w \<le>s sgSize seg")
    case True
    obtain w1 where w1: "rotateLocked w = (None, w1)" "faults (wDisk w1) = []"
      using rotateLocked_clean [OF ok idx nf] by blast
    from rotateLocked_effect(1) [OF ok idx w1(1)] obtain recs1 where "wal_ok w1 recs1" by blast
    from write_current_clean [OF this w1(2), of "r\<lparr>rSeq := nextSeq w\<rparr>"] c True w1(1) show ?thesis
      by (auto simp: Wal_Append_def Let_def)
  next
    case False
    with write_current_clean [OF ok nf, of "r\<lparr>rSeq := nextSeq w\<rparr>"] c show ?thesis
      by (auto simp: Wal_Append_def Let_def)
  qed
qed

lemma append_all_clean:
  assumes "wal_ok w recs" and "top_index (segments w) + int (length rs) < 2 ^ 63" and "faults (wDisk w) = []"
  shows "\<exists>w'. append_all rs w = (None, w') \<and> faults (wDisk w') = []"
  using assms
proof (induction rs arbitrary: w recs)
  case (Cons r rs)
  have idx: "top_index (segments w) + 1 < 2 ^ 63" using Cons.prems(2) by simp
  obtain w1 where a: "Wal_Append r w = (Inr (nextSeq w), w1)" "faults (wDisk w1) = []"
    using Wal_Append_clean [OF Cons.prems(1) idx Cons.prems(3)] by blast
  obtain recs1 where ok1: "wal_ok w1 recs1"
    using Wal_Append_effect(1) [OF Cons.prems(1) idx a(1)] by blast
  have "top_index (segments w1) + int (length rs) < 2 ^ 63"
    using Wal_Append_top [OF Cons.prems(1) idx a(1)] Cons.prems(2) by simp
  from Cons.IH [OF ok1 this a(2)] a(1) show ?case by simp
qed simp

lemma loadCheckpoint_clean:
  assumes "faults (wDisk w) = []" and "checkpoint_value (wDisk w) = Some v"
  shows "\<exists>w'. loadCheckpoint w = (None, w') \<and> faults (wDisk w') = []"
  using assms by (auto simp: loadCheckpoint_def checkpoint_value_def content_def split: option.splits)

lemma Wal_Open_fresh_clean:
  assumes nf: "faults d = []" and fresh: "no_segments d" and cp: "checkpoint_value d = Some v"
  shows "\<exists>w d'. Wal_Open ms d = (Inr w, d') \<and> faults (wDisk w) = []"
proof -
  let ?w = "\<lparr>segments = fmempty, nextSeq = 0, nextReplay = 0, maxSize = ms, wDisk = d\<rparr>"
  have "filter segment_file (sorted_list_of_fset (fmdom (files d))) = []"
    using fresh by (auto simp: no_segments_def filter_empty_conv fmlookup_dom_iff)
  moreover have "os_read_dir d = (Inr (sorted_list_of_fset (fmdom (files d))), d)"
    using nf by (simp add: os_read_dir_def next_fault_none)
  moreover obtain w1 where w1: "loadCheckpoint ?w = (None, w1)" "faults (wDisk w1) = []"
    using loadCheckpoint_clean [of ?w v] nf cp by auto
  moreover from loadCheckpoint_effect [OF w1(1)] have e: "segments w1 = fmempty" "files (wDisk w1) = files d"
    by simp_all
  moreover have "log_ok w1 (\<lambda>_. [])"
    using fresh e by (simp add: log_ok_def names_ok_def no_segments_def)
  moreover have "top_index (segments w1) = 0" using top_index_mem [of "segments w1"] e(1) by auto
  ultimately obtain w where "loadSegments ?w = (None, w)" "faults (wDisk w) = []"
    using rotate_log_clean [of w1 "\<lambda>_. []"] by (auto simp: loadSegments_def)
  with nf show ?thesis by (simp add: Wal_Open_def)
qed

lemma load_loop_clean:
  assumes "faults (wDisk w) = []" and "disk_log (wDisk w) I recs" and "set names \<subseteq> segment_name ` I"
  shows "\<exists>w'. load_loop names w = (None, w') \<and> faults (wDisk w') = []"
  using assms
proof (induction names arbitrary: w)
  case (Cons name names)
  from Cons.prems(3) obtain i where i: "i \<in> I" "name = segment_name i" by auto
  then have b: "0 < i" "i < 2 ^ 63" "fmlookup (files (wDisk w)) name \<noteq> None" "scans_as (content name (wDisk w)) (recs i)"
    using Cons.prems(2) by (auto simp: disk_log_def)
  obtain seg d where o: "openSegment name (wDisk w) = (Inr seg, d)" "faults d = []"
    using openSegment_clean [OF Cons.prems(1) b(4)] by blast
  have "files d = files (wDisk w)" using openSegment_effect(1) [OF o(1)] b(3) by simp
  then have d: "disk_log d I recs" using Cons.prems(2) disk_log_cong by blast
  let ?w = "w\<lparr>segments := fmupd i seg (segments w), wDisk := d,
      nextSeq := (if nextSeq w \<le> sgLast seg then sgLast seg + 1 else nextSeq w)\<rparr>"
  have "\<exists>w'. load_loop names ?w = (None, w') \<and> faults (wDisk w') = []"
    by (rule Cons.IH) (use o(2) d Cons.prems(3) in simp_all)
  then show ?case using segmentIndex_name(1) [OF b(1,2)] i(2) o(1) by simp
qed simp

lemma Wal_Open_clean:
  assumes nf: "faults d = []" and dl: "disk_log d I recs" and ne: "I \<noteq> {}" and cp: "checkpoint_value d = Some v"
  shows "\<exists>w d'. Wal_Open ms d = (Inr w, d') \<and> faults (wDisk w) = []"
proof -
  let ?w = "\<lparr>segments = fmempty, nextSeq = 0, nextReplay = 0, maxSize = ms, wDisk = d\<rparr>"
  let ?names = "sort (filter segment_file (sorted_list_of_fset (fmdom (files d))))"
  have rd: "os_read_dir d = (Inr (sorted_list_of_fset (fmdom (files d))), d)"
    using nf by (simp add: os_read_dir_def next_fault_none)
  have names: "set ?names = segment_name ` I"
    using dl by (auto simp: disk_log_def segment_file_name fmlookup_dom_iff)
  obtain w1 where w1: "load_loop ?names ?w = (None, w1)" "faults (wDisk w1) = []"
    using load_loop_clean [of ?w I recs ?names] nf dl names by auto
  have e: "files (wDisk w1) = files d" "fmdom' (segments w1) = segmentIndexFromPath ` set ?names"
    using load_loop_effect [OF w1(1), of I recs] dl names by (simp_all add: loaded_def)
  have "checkpoint_value (wDisk w1) = Some v" using cp e(1) by (simp add: checkpoint_value_def)
  then obtain w2 where w2: "loadCheckpoint w1 = (None, w2)" "faults (wDisk w2) = []"
    using loadCheckpoint_clean [OF w1(2)] by blast
  have "nextReplay w1 = 0" using load_loop_effect [OF w1(1), of I recs] dl names by (simp add: loaded_def)
  then have "segments w2 = segments w1" using loadCheckpoint_effect(2) [OF w2(1)] by simp
  then have "fmsize (segments w2) \<noteq> 0" using e(2) names ne by (auto simp: fmsize_0_iff)
  then have "loadSegments ?w = (None, w2)" using rd w1(1) w2(1) by (simp add: loadSegments_def)
  with nf w2(2) show ?thesis by (simp add: Wal_Open_def)
qed

end
