(* ===== verification/IngestPipe.thy ===== *)
theory IngestPipe
  imports QueryEngine WalRecovery
begin

text \<open>
  The write path, \<open>internal/ingest\<close>: series registration, the write-ahead log, the memtable,
  shard routing, and the flush of the memtable into storage blocks.

  The pipeline's state is the record \<open>ingest\<close>; the store, the shard manager and the registry
  are the shared \<open>database\<close>. \<open>Append\<close> is the composition of \<open>append_log\<close>, which registers the
  series and writes the log before the pipeline's mutex is taken, and \<open>append_apply\<close>, which
  runs under the mutex; other appends and flushes can run between the two.

  The order functions \<open>ordL\<close>, \<open>ordS\<close> and \<open>ordW\<close> say in which order the \<open>range\<close> loops visit the
  label map, the series maps and the segment map. The semaphore \<open>slots\<close> only limits how many
  appends are between the two steps at once and is not part of the state.
\<close>

type_synonym labels = "(string, string) fmap"
type_synonym label_order = "labels \<Rightarrow> string list"
type_synonym series_order = "series_points \<Rightarrow> uint64 list"
type_synonym segment_order = "(int, segment) fmap \<Rightarrow> int list"

record ingest =
  inIdx :: index
  inWal :: wal
  inMem :: memtable
  inDb :: database
  flushThreshold :: int
  lastFlushSeq :: uint64

record ingest_options =
  optIndex :: "index option"
  optWAL :: "wal option"
  optShards :: "manager option"
  optStore :: "store option"
  optMetrics :: "registry option"
  optFlushThreshold :: int
  optConcurrency :: int

text \<open>\<open>New\<close> returns the pipeline and the number of slots.\<close>

definition Ingest_New :: "ingest_options \<Rightarrow> err + ingest \<times> int" where
  "Ingest_New opts =
     (case (optIndex opts, optWAL opts, optShards opts, optStore opts) of
        (Some ix, Some w, Some m, Some s) \<Rightarrow>
          (let reg = (case optMetrics opts of None \<Rightarrow> NewRegistry | Some r \<Rightarrow> r);
               threshold = (if optFlushThreshold opts \<le> 0 then 4096 else optFlushThreshold opts);
               concurrency = (if optConcurrency opts \<le> 0 then 16 else optConcurrency opts)
           in Inr (\<lparr>inIdx = ix, inWal = w, inMem = NewMem, inDb = \<lparr>dbStore = s, dbShards = m, dbReg = reg\<rparr>,
                    flushThreshold = threshold, lastFlushSeq = 0\<rparr>, concurrency))
      | _ \<Rightarrow> Inl ErrOptions)"

definition count_metric :: "string \<Rightarrow> int64 \<Rightarrow> database \<Rightarrow> database" where
  "count_metric name delta db = db\<lparr>dbReg := Inc name delta (dbReg db)\<rparr>"

definition SeriesOf :: "label_order \<Rightarrow> string \<Rightarrow> labels \<Rightarrow> ingest \<Rightarrow> (err + series_meta) \<times> ingest" where
  "SeriesOf ordL name labels inp =
     (if \<not> ValidName name then (Inl ErrInvalidName, inp)
      else case SanitizeLabels (ordL labels) labels of
        Inl e \<Rightarrow> (Inl e, inp)
      | Inr clean \<Rightarrow>
          (case Lookup (inIdx inp) name clean of
             (meta, True) \<Rightarrow> (Inr meta, inp)
           | (_, False) \<Rightarrow>
               (case Register \<lparr>ID = 0, Name = name, Labels = clean\<rparr> (inIdx inp) of
                  ((registered, created), ix) \<Rightarrow>
                    (Inr registered,
                     inp\<lparr>inIdx := ix,
                         inDb := (if created then count_metric ''series_registered'' 1 (inDb inp)
                                  else inDb inp)\<rparr>))))"

section \<open>Grouping a snapshot by shard\<close>

record grouping =
  grShards :: manager
  grGroups :: "(int64 \<times> int64, series_points) fmap"
  grOrder :: "(int64 \<times> int64) list"

definition group_at :: "grouping \<Rightarrow> int64 \<times> int64 \<Rightarrow> series_points" where
  "group_at g key = (case fmlookup (grGroups g) key of Some grp \<Rightarrow> grp | None \<Rightarrow> fmempty)"

definition group_point :: "uint64 \<Rightarrow> point \<Rightarrow> grouping \<Rightarrow> grouping" where
  "group_point sid pt g =
     (case Route (TS pt) (grShards g) of
        (Inl e, m) \<Rightarrow> g\<lparr>grShards := m\<rparr>
      | (Inr i, m) \<Rightarrow>
          (let sh = shards m ! i;
               key = (shStart sh, shEnd sh);
               order = (if fmlookup (grGroups g) key = None then grOrder g @ [key] else grOrder g);
               grp = group_at g key
           in g\<lparr>grShards := m, grOrder := order,
                grGroups := fmupd key (fmupd sid (series_of grp sid @ [pt]) grp) (grGroups g)\<rparr>))"

definition group_series :: "series_points \<Rightarrow> uint64 \<Rightarrow> grouping \<Rightarrow> grouping" where
  "group_series by_id sid = fold (group_point sid) (series_of by_id sid)"

definition groupByShard :: "series_order \<Rightarrow> series_points \<Rightarrow> manager \<Rightarrow> series_points list \<times> manager" where
  "groupByShard ordS by_id m =
     (let g = fold (group_series by_id) (ordS by_id) \<lparr>grShards = m, grGroups = fmempty, grOrder = []\<rparr>
      in (map (group_at g) (grOrder g), grShards g))"

definition groupMinMax :: "series_order \<Rightarrow> series_points \<Rightarrow> int64 \<times> int64" where
  "groupMinMax ordS grp =
     (let span = fold (\<lambda>sid. fold widen (series_of grp sid)) (ordS grp) no_span
      in (spanMin span, spanMax span))"

section \<open>Flushing\<close>

fun flush_groups :: "series_order \<Rightarrow> series_points list \<Rightarrow> database \<Rightarrow> err option \<times> database" where
  "flush_groups ordS [] db = (None, db)"
| "flush_groups ordS (grp # grps) db =
     (case groupMinMax ordS grp of (mn, mx) \<Rightarrow>
        (case Create grp mn mx (dbStore db) of (bid, s1) \<Rightarrow>
           let db1 = db\<lparr>dbStore := on_block bid Block_Seal s1\<rparr>
           in case Route mn (dbShards db1) of
                (Inl e, m) \<Rightarrow> (Some e, db1\<lparr>dbShards := m\<rparr>)
              | (Inr i, m) \<Rightarrow> flush_groups ordS grps (db1\<lparr>dbShards := on_shard i (AddBlock bid) m\<rparr>)))"

definition flushLocked :: "series_order \<Rightarrow> segment_order \<Rightarrow> uint64 \<Rightarrow> ingest \<Rightarrow> err option \<times> ingest" where
  "flushLocked ordS ordW s inp =
     (if Len (inMem inp) = 0 then (None, inp)
      else case Flush (inMem inp) of (snap, mem) \<Rightarrow>
        (case groupByShard ordS (RawCopy (Some snap)) (dbShards (inDb inp)) of (groups, m) \<Rightarrow>
           (case flush_groups ordS groups ((inDb inp)\<lparr>dbShards := m\<rparr>) of
              (Some e, db) \<Rightarrow> (Some e, inp\<lparr>inMem := mem, inDb := db\<rparr>)
            | (None, db) \<Rightarrow>
                (let inp1 = inp\<lparr>inMem := mem, lastFlushSeq := s,
                       inDb := count_metric ''blocks_flushed'' (of_nat (length groups)) db\<rparr>
                 in case SetReplayStart (s + 1) (inWal inp1) of
                      (Some e, w) \<Rightarrow> (Some e, inp1\<lparr>inWal := w\<rparr>)
                    | (None, w) \<Rightarrow>
                        (case TruncateTo (ordW (segments w)) s w of
                           (e, w1) \<Rightarrow> (e, inp1\<lparr>inWal := w1\<rparr>))))))"

definition Ingest_Flush :: "series_order \<Rightarrow> segment_order \<Rightarrow> ingest \<Rightarrow> err option \<times> ingest" where
  "Ingest_Flush ordS ordW inp =
     (let last_seq = nextSeq (inWal inp)
      in if last_seq = 0 then (None, inp) else flushLocked ordS ordW (last_seq - 1) inp)"

section \<open>Appending\<close>

definition append_log ::
  "label_order \<Rightarrow> string \<Rightarrow> labels \<Rightarrow> int64 \<Rightarrow> float64 \<Rightarrow> ingest \<Rightarrow> (err + uint64 \<times> point) \<times> ingest" where
  "append_log ordL name labels ts value inp =
     (case SeriesOf ordL name labels inp of
        (Inl e, inp1) \<Rightarrow> (Inl e, inp1)
      | (Inr meta, inp1) \<Rightarrow>
          (case Wal_Append \<lparr>rSeq = 0, rSeriesID = ID meta, rTS = ts, rValue = value\<rparr> (inWal inp1) of
             (Inl e, w) \<Rightarrow> (Inl e, inp1\<lparr>inWal := w\<rparr>)
           | (Inr s, w) \<Rightarrow> (Inr (s, \<lparr>TS = ts, Value = value, SeriesID = ID meta\<rparr>), inp1\<lparr>inWal := w\<rparr>)))"

definition append_apply ::
  "series_order \<Rightarrow> segment_order \<Rightarrow> uint64 \<times> point \<Rightarrow> ingest \<Rightarrow> err option \<times> ingest" where
  "append_apply ordS ordW = (\<lambda>(s, pt) inp.
     case Route (TS pt) (dbShards (inDb inp)) of
       (Inl e, m) \<Rightarrow> (Some (ErrRoute e), inp\<lparr>inDb := (inDb inp)\<lparr>dbShards := m\<rparr>\<rparr>)
     | (Inr i, m) \<Rightarrow>
         (let inp1 = inp\<lparr>inMem := Write pt (inMem inp),
                inDb := count_metric ''points_ingested'' 1 ((inDb inp)\<lparr>dbShards := m\<rparr>)\<rparr>
          in if flushThreshold inp1 \<le> int (Len (inMem inp1)) then flushLocked ordS ordW s inp1
             else (None, inp1)))"

definition Ingest_Append ::
  "label_order \<Rightarrow> series_order \<Rightarrow> segment_order \<Rightarrow> string \<Rightarrow> labels \<Rightarrow> int64 \<Rightarrow> float64 \<Rightarrow> ingest
    \<Rightarrow> err option \<times> ingest" where
  "Ingest_Append ordL ordS ordW name labels ts value inp =
     (case append_log ordL name labels ts value inp of
        (Inl e, inp1) \<Rightarrow> (Some e, inp1)
      | (Inr logged_pt, inp1) \<Rightarrow> append_apply ordS ordW logged_pt inp1)"

record bulk_point =
  bpName :: string
  bpLabels :: labels
  bpTS :: int64
  bpValue :: float64

fun AppendBatch ::
  "label_order \<Rightarrow> series_order \<Rightarrow> segment_order \<Rightarrow> bulk_point list \<Rightarrow> ingest \<Rightarrow> err option \<times> ingest" where
  "AppendBatch ordL ordS ordW [] inp = (None, inp)"
| "AppendBatch ordL ordS ordW (pt # pts) inp =
     (case Ingest_Append ordL ordS ordW (bpName pt) (bpLabels pt) (bpTS pt) (bpValue pt) inp of
        (Some e, inp1) \<Rightarrow> (Some e, inp1)
      | (None, inp1) \<Rightarrow> AppendBatch ordL ordS ordW pts inp1)"

section \<open>Recovery\<close>

definition recover_record :: "wal_record \<Rightarrow> memtable \<times> registry \<Rightarrow> err option \<times> memtable \<times> registry" where
  "recover_record rec = (\<lambda>(mem, reg).
     (None, Write \<lparr>TS = rTS rec, Value = rValue rec, SeriesID = rSeriesID rec\<rparr> mem,
      Inc ''points_recovered'' 1 reg))"

definition Recover :: "series_order \<Rightarrow> segment_order \<Rightarrow> ingest \<Rightarrow> err option \<times> ingest" where
  "Recover ordS ordW inp =
     (case ReplayUnflushed recover_record (inMem inp, dbReg (inDb inp)) (inWal inp) of
        ((e, mem, reg), w) \<Rightarrow>
          (let inp1 = inp\<lparr>inMem := mem, inDb := (inDb inp)\<lparr>dbReg := reg\<rparr>, inWal := w\<rparr>
           in case e of Some err \<Rightarrow> (Some err, inp1) | None \<Rightarrow> Ingest_Flush ordS ordW inp1))"

definition FlushedSeq :: "ingest \<Rightarrow> uint64" where
  "FlushedSeq inp = lastFlushSeq inp"

definition BufferLen :: "ingest \<Rightarrow> nat" where
  "BufferLen inp = Len (inMem inp)"

section \<open>Grouping when every point has been routed\<close>

text \<open>
  \<open>routed m by_id\<close>: no point lies at or after the end of the active window, which holds of a
  memtable all of whose points went through \<open>Route\<close>. Then grouping changes no shard and keeps
  exactly the points of the active window, as one group.
\<close>

definition recent :: "manager \<Rightarrow> point \<Rightarrow> bool" where
  "recent m p \<longleftrightarrow> shStart (last (shards m)) \<le>s TS p"

definition routed :: "manager \<Rightarrow> series_points \<Rightarrow> bool" where
  "routed m by_id \<longleftrightarrow> (\<forall>sid. \<forall>p \<in> set (series_of by_id sid). TS p <s shEnd (last (shards m)))"

definition kept :: "manager \<Rightarrow> series_points \<Rightarrow> series_points" where
  "kept m by_id =
     fmfilter (\<lambda>sid. filter (recent m) (series_of by_id sid) \<noteq> []) (fmmap (filter (recent m)) by_id)"

lemma kept_lookup:
  "fmlookup (kept m by_id) sid =
     (if filter (recent m) (series_of by_id sid) = [] then None
      else Some (filter (recent m) (series_of by_id sid)))"
  by (auto simp: kept_def series_of_def split: option.splits)

lemma series_of_kept [simp]: "series_of (kept m by_id) sid = filter (recent m) (series_of by_id sid)"
  by (auto simp: series_of_def [of "kept m by_id"] kept_lookup)

lemma kept_empty: "kept m by_id = fmempty \<longleftrightarrow> (\<forall>sid. filter (recent m) (series_of by_id sid) = [])"
  by (metis fmempty_lookup fmap_ext kept_lookup option.distinct(1))

definition active_key :: "manager \<Rightarrow> int64 \<times> int64" where
  "active_key m = (shStart (last (shards m)), shEnd (last (shards m)))"

definition one_group :: "manager \<Rightarrow> series_points \<Rightarrow> grouping" where
  "one_group m grp =
     \<lparr>grShards = m,
      grGroups = (if grp = fmempty then fmempty else fmupd (active_key m) grp fmempty),
      grOrder = (if grp = fmempty then [] else [active_key m])\<rparr>"

definition add_points :: "uint64 \<Rightarrow> point list \<Rightarrow> series_points \<Rightarrow> series_points" where
  "add_points sid pts grp = (if pts = [] then grp else fmupd sid (series_of grp sid @ pts) grp)"

lemma Route_routed:
  assumes "shards m \<noteq> []" and "TS p <s shEnd (last (shards m))"
  shows "Route (TS p) m =
    (if recent m p then Inr (length (shards m) - 1)
     else Inl (ErrBeforeActive (TS p) (shStart (last (shards m)))), m)"
  using assms by (auto simp: recent_def Route_def go_int)

lemma fmupd_nonempty [simp]: "fmupd k v m \<noteq> fmempty"
  by (metis fmempty_lookup fmupd_lookup option.distinct(1))

lemma fmupd_twice: "fmupd k v (fmupd k v' m) = fmupd k v m"
  by (auto intro: fmap_ext)

lemma group_at_one: "group_at (one_group m grp) (active_key m) = grp"
  by (simp add: group_at_def one_group_def)

lemma group_point_routed:
  assumes "shards m \<noteq> []" and "TS p <s shEnd (last (shards m))"
  shows "group_point sid p (one_group m grp) = one_group m (add_points sid (filter (recent m) [p]) grp)"
proof (cases "recent m p")
  case True
  have key: "(shStart (shards m ! (length (shards m) - 1)), shEnd (shards m ! (length (shards m) - 1))) = active_key m"
    using assms(1) by (simp add: active_key_def last_conv_nth)
  have sh: "grShards (one_group m grp) = m" by (simp add: one_group_def)
  have "group_point sid p (one_group m grp) =
      (one_group m grp)\<lparr>grShards := m,
        grOrder := (if fmlookup (grGroups (one_group m grp)) (active_key m) = None
                    then grOrder (one_group m grp) @ [active_key m] else grOrder (one_group m grp)),
        grGroups := fmupd (active_key m) (fmupd sid (series_of grp sid @ [p]) grp) (grGroups (one_group m grp))\<rparr>"
    using True by (simp only: group_point_def sh Route_routed [OF assms] prod.case sum.case Let_def key group_at_one if_True)
  then show ?thesis using True by (simp add: one_group_def add_points_def fmupd_twice)
next
  case False
  then show ?thesis by (simp add: group_point_def Route_routed [OF assms] one_group_def add_points_def)
qed

lemma add_points_append: "add_points sid ys (add_points sid xs grp) = add_points sid (xs @ ys) grp"
  by (simp add: add_points_def fmupd_twice)

lemma fold_group_point:
  assumes "shards m \<noteq> []" and "\<forall>p \<in> set pts. TS p <s shEnd (last (shards m))"
  shows "fold (group_point sid) pts (one_group m grp) = one_group m (add_points sid (filter (recent m) pts) grp)"
  using assms(2)
proof (induction pts arbitrary: grp)
  case (Cons p pts)
  then show ?case by (simp add: group_point_routed [OF assms(1)] add_points_append del: filter.simps) simp
qed (simp add: add_points_def)

lemma fold_group_series:
  assumes "shards m \<noteq> []" and "routed m by_id"
  shows "fold (group_series by_id) ks (one_group m grp)
    = one_group m (fold (\<lambda>sid. add_points sid (filter (recent m) (series_of by_id sid))) ks grp)"
proof (induction ks arbitrary: grp)
  case (Cons k ks)
  have "\<forall>p \<in> set (series_of by_id k). TS p <s shEnd (last (shards m))" using assms(2) by (simp add: routed_def)
  with Cons show ?case by (simp add: group_series_def fold_group_point [OF assms(1)])
qed simp

lemma fold_add_points:
  "distinct ks \<Longrightarrow> \<forall>k \<in> set ks. fmlookup grp k = None \<Longrightarrow>
   fmlookup (fold (\<lambda>sid. add_points sid (f sid)) ks grp) k =
     (if k \<in> set ks then (if f k = [] then None else Some (f k)) else fmlookup grp k)"
proof (induction ks arbitrary: grp)
  case (Cons a ks)
  have "fmlookup (add_points a (f a) grp) j = fmlookup grp j" if "j \<noteq> a" for j
    using that by (simp add: add_points_def)
  moreover have "fmlookup (add_points a (f a) grp) a = (if f a = [] then None else Some (f a))"
    using Cons.prems(2) by (simp add: add_points_def series_of_def)
  moreover have "\<forall>k \<in> set ks. fmlookup (add_points a (f a) grp) k = None"
    using Cons.prems calculation(1) by (metis distinct.simps(2) list.set_intros(2))
  ultimately show ?case using Cons.IH [of "add_points a (f a) grp"] Cons.prems(1) by auto
qed simp

lemma groupByShard_routed:
  assumes ord: "iterates ordS" and ne: "shards m \<noteq> []" and r: "routed m by_id"
  shows "groupByShard ordS by_id m = ((if kept m by_id = fmempty then [] else [kept m by_id]), m)"
proof -
  let ?f = "\<lambda>sid. filter (recent m) (series_of by_id sid)"
  let ?all = "fold (\<lambda>sid. add_points sid (?f sid)) (ordS by_id) fmempty"
  have v: "visits (ordS by_id) by_id" by (rule iterates_visits [OF ord])
  have "fmlookup ?all sid = fmlookup (kept m by_id) sid" for sid
  proof -
    have "?f sid = []" if "sid \<notin> set (ordS by_id)"
      using that visits_mem [OF v, of sid] by (simp add: series_of_def split: option.splits)
    moreover have "fmlookup ?all sid = (if sid \<in> set (ordS by_id) then (if ?f sid = [] then None else Some (?f sid)) else None)"
      using fold_add_points [of "ordS by_id" fmempty ?f sid] visits_distinct [OF v] by simp
    ultimately show ?thesis by (simp add: kept_lookup)
  qed
  then have all: "?all = kept m by_id" by (rule fmap_ext)
  have start: "\<lparr>grShards = m, grGroups = fmempty, grOrder = []\<rparr> = one_group m fmempty" by (simp add: one_group_def)
  have "groupByShard ordS by_id m = (let g = one_group m (kept m by_id) in (map (group_at g) (grOrder g), grShards g))"
    by (simp only: groupByShard_def start fold_group_series [OF ne r] all)
  then show ?thesis by (simp add: group_at_one Let_def) (simp add: one_group_def group_at_def)
qed

section \<open>The effect of a flush\<close>

text \<open>\<open>store_kept ordS by_id db\<close>: the database with the active window's points in a new block.\<close>

definition store_kept :: "series_order \<Rightarrow> series_points \<Rightarrow> database \<Rightarrow> database" where
  "store_kept ordS by_id db =
     (let m = dbShards db; grp = kept m by_id; bid = sNextID (dbStore db) + 1
      in if grp = fmempty then db
         else db\<lparr>dbStore := on_block bid Block_Seal
                    (snd (Create grp (fst (groupMinMax ordS grp)) (snd (groupMinMax ordS grp)) (dbStore db))),
                 dbShards := on_shard (length (shards m) - 1) (AddBlock bid) m\<rparr>)"

lemma fold_concat_map: "fold (\<lambda>x. fold f (g x)) xs s = fold f (concat (map g xs)) s"
  by (induction xs arbitrary: s) simp_all

lemma groupMinMax_spans:
  assumes "iterates ordS" and "series_of grp sid \<noteq> []"
  obtains p q sidp sidq where "p \<in> set (series_of grp sidp)" "q \<in> set (series_of grp sidq)"
    "groupMinMax ordS grp = (TS p, TS q)"
    "\<And>r sid. r \<in> set (series_of grp sid) \<Longrightarrow> TS p \<le>s TS r \<and> TS r \<le>s TS q"
proof -
  let ?P = "set (concat (map (series_of grp) (ordS grp)))"
  let ?s = "fold widen (concat (map (series_of grp) (ordS grp))) no_span"
  have v: "visits (ordS grp) grp" by (rule iterates_visits [OF assms(1)])
  have inP: "r \<in> ?P" if "r \<in> set (series_of grp k)" for r k
  proof -
    from that obtain pts where "fmlookup grp k = Some pts" by (cases "fmlookup grp k") (auto simp: series_of_def)
    with visits_mem [OF v, of k] that show ?thesis by auto
  qed
  have "?P \<noteq> {}" using assms(2) inP by (metis empty_iff last_in_set)
  moreover have "spans ?s ?P" using fold_widen_spans [OF spans_none, of "concat (map (series_of grp) (ordS grp))"] by simp
  ultimately have sp: "spanMin ?s \<in> TS ` ?P" "spanMax ?s \<in> TS ` ?P"
      "\<forall>p \<in> ?P. spanMin ?s \<le>s TS p \<and> TS p \<le>s spanMax ?s"
    unfolding spans_def by blast+
  obtain p where p: "p \<in> ?P" "spanMin ?s = TS p" using sp(1) by blast
  obtain q where q: "q \<in> ?P" "spanMax ?s = TS q" using sp(2) by blast
  from p(1) obtain sp where "p \<in> set (series_of grp sp)" by auto
  moreover from q(1) obtain sq where "q \<in> set (series_of grp sq)" by auto
  moreover have "groupMinMax ordS grp = (TS p, TS q)"
    by (simp add: groupMinMax_def fold_concat_map p(2) q(2))
  moreover have "TS p \<le>s TS r \<and> TS r \<le>s TS q" if "r \<in> set (series_of grp k)" for r k
    using sp(3) inP [OF that] p(2) q(2) by metis
  ultimately show ?thesis using that by blast
qed

lemma flush_groups_routed:
  assumes ord: "iterates ordS" and ne: "shards (dbShards db) \<noteq> []" and r: "routed (dbShards db) by_id"
  shows "flush_groups ordS (fst (groupByShard ordS by_id (dbShards db)))
      (db\<lparr>dbShards := snd (groupByShard ordS by_id (dbShards db))\<rparr>) = (None, store_kept ordS by_id db)"
proof -
  let ?m = "dbShards db" and ?grp = "kept (dbShards db) by_id"
  show ?thesis
  proof (cases "?grp = fmempty")
    case True
    then show ?thesis by (simp add: groupByShard_routed [OF ord ne r] store_kept_def)
  next
    case False
    then obtain sid where sid: "series_of ?grp sid \<noteq> []" by (auto simp: kept_empty)
    obtain p q sp sq where p: "p \<in> set (series_of ?grp sp)" and "q \<in> set (series_of ?grp sq)"
        and mm: "groupMinMax ordS ?grp = (TS p, TS q)"
      by (rule groupMinMax_spans [OF ord sid])
    have "recent ?m p" "TS p <s shEnd (last (shards ?m))"
      using p r by (auto simp: routed_def)
    then have "Route (TS p) ?m = (Inr (length (shards ?m) - 1), ?m)"
      using Route_routed [OF ne] by simp
    with False show ?thesis
      by (simp add: groupByShard_routed [OF ord ne r] mm Create_spec Let_def store_kept_def)
  qed
qed

text \<open>
  What a flush of the pipeline does: the memtable is swapped out and its points of the active
  window become a block; then the log is told, and only the log can fail.
\<close>

lemma flushLocked_effect:
  assumes ord: "iterates ordS" and ne: "shards (dbShards (inDb inp)) \<noteq> []"
    and r: "routed (dbShards (inDb inp)) (byID (current (inMem inp)))" and len: "Len (inMem inp) \<noteq> 0"
    and f: "flushLocked ordS ordW s inp = (e, inp')"
  obtains ew w n where "SetReplayStart (s + 1) (inWal inp) = (ew, w)"
    "ew = None \<longrightarrow> TruncateTo (ordW (segments w)) s w = (e, inWal inp')"
    "ew \<noteq> None \<longrightarrow> e = ew \<and> inWal inp' = w"
    "inDb inp' = count_metric ''blocks_flushed'' n (store_kept ordS (byID (current (inMem inp))) (inDb inp))"
    "inMem inp' = snd (Flush (inMem inp))" "inIdx inp' = inIdx inp" "lastFlushSeq inp' = s"
    "flushThreshold inp' = flushThreshold inp"
proof -
  let ?b = "byID (current (inMem inp))" and ?db = "inDb inp"
  obtain groups m where g: "groupByShard ordS ?b (dbShards ?db) = (groups, m)" by (rule prod.exhaust)
  have fg: "flush_groups ordS groups (?db\<lparr>dbShards := m\<rparr>) = (None, store_kept ordS ?b ?db)"
    using flush_groups_routed [OF ord ne r] g by simp
  obtain ew w where w: "SetReplayStart (s + 1) (inWal inp) = (ew, w)" by (rule prod.exhaust)
  obtain e1 w1 where t: "TruncateTo (ordW (segments w)) s w = (e1, w1)" by (rule prod.exhaust)
  show ?thesis
    using f len g fg w t
    by (intro that [OF w]; cases ew) (auto simp: flushLocked_def Flush_def Let_def)
qed

section \<open>What a query sees of the pipeline\<close>

definition refs_ok :: "database \<Rightarrow> bool" where
  "refs_ok db \<longleftrightarrow> (\<forall>sh \<in> set (shards (dbShards db)). \<forall>bid \<in> set (shBlocks sh). bid \<le> sNextID (dbStore db))"

definition stored_points :: "uint64 \<Rightarrow> query_range \<Rightarrow> database \<Rightarrow> point list" where
  "stored_points sid rng db =
     concat (map (block_points sid rng (dbStore db)) (covering_blocks rng (dbShards db)))"

definition visible :: "uint64 \<Rightarrow> query_range \<Rightarrow> ingest \<Rightarrow> point list" where
  "visible sid rng inp = matching_points sid rng (inMem inp) (dbShards (inDb inp)) (dbStore (inDb inp))"

lemma visible_parts:
  "visible sid rng inp =
     filter (in_range rng) (series_of (byID (current (inMem inp))) sid) @ stored_points sid rng (inDb inp)"
  by (simp add: visible_def matching_points_def stored_points_def)

lemma stored_points_count [simp]: "stored_points sid rng (count_metric name n db) = stored_points sid rng db"
  by (simp add: stored_points_def count_metric_def)

lemma upt_last: "0 < n \<Longrightarrow> [0..<n] = [0..<n - 1] @ [n - 1]"
  by (metis Suc_diff_1 upt_Suc_append zero_le)

lemma covering_blocks_add:
  assumes "shards m \<noteq> []"
  shows "covering_blocks rng (on_shard (length (shards m) - 1) (AddBlock bid) m) =
    covering_blocks rng m
    @ (if shStart (last (shards m)) <s End rng \<and> Start rng <s shEnd (last (shards m)) then [bid] else [])"
proof -
  let ?n = "length (shards m)" and ?m = "on_shard (length (shards m) - 1) (AddBlock bid) m"
  let ?P = "\<lambda>i. shStart (shards m ! i) <s End rng \<and> Start rng <s shEnd (shards m ! i)"
  have len: "length (shards ?m) = ?n" by (simp add: on_shard_def)
  have at: "shStart (shards ?m ! i) = shStart (shards m ! i)" "shEnd (shards ?m ! i) = shEnd (shards m ! i)" for i
    using assms by (auto simp: on_shard_def nth_list_update split: if_splits)
  have old: "Shard_Blocks (shards ?m ! i) = Shard_Blocks (shards m ! i)" if "i < ?n - 1" for i
    using that by (simp add: on_shard_def)
  have new: "Shard_Blocks (shards ?m ! (?n - 1)) = Shard_Blocks (shards m ! (?n - 1)) @ [bid]"
    using assms by (simp add: on_shard_def Shard_Blocks_def AddBlock_def)
  have up: "[0..<?n] = [0..<?n - 1] @ [?n - 1]" using assms by (intro upt_last) simp
  have "concat (map (\<lambda>i. Shard_Blocks (shards ?m ! i)) (filter ?P [0..<?n - 1])) =
      concat (map (\<lambda>i. Shard_Blocks (shards m ! i)) (filter ?P [0..<?n - 1]))"
    by (intro arg_cong [of _ _ concat] map_cong) (auto simp: old simp del: One_nat_def)
  then show ?thesis
    using assms by (simp add: covering_blocks_def ShardsCovering_def len at up new last_conv_nth del: One_nat_def)
qed

lemma readable_store_kept:
  assumes "kept (dbShards db) by_id \<noteq> fmempty"
  shows "readable (dbStore (store_kept ordS by_id db)) bid =
    (if bid = sNextID (dbStore db) + 1 then Some (kept (dbShards db) by_id) else readable (dbStore db) bid)"
  using assms readable_on_block [of Block_Seal] by (simp add: store_kept_def Let_def readable_Create)

lemma stored_points_kept:
  assumes ne: "shards (dbShards db) \<noteq> []" and r: "routed (dbShards db) by_id"
    and refs: "refs_ok db" and fresh: "sNextID (dbStore db) + 1 \<noteq> 0"
  shows "stored_points sid rng (store_kept ordS by_id db) =
    stored_points sid rng db @ filter (in_range rng) (filter (recent (dbShards db)) (series_of by_id sid))"
proof (cases "kept (dbShards db) by_id = fmempty")
  case True
  then have "filter (recent (dbShards db)) (series_of by_id sid) = []" by (simp add: kept_empty)
  with True show ?thesis by (simp add: store_kept_def)
next
  case False
  let ?m = "dbShards db" and ?new = "sNextID (dbStore db) + 1" and ?db' = "store_kept ordS by_id db"
  have m': "dbShards ?db' = on_shard (length (shards ?m) - 1) (AddBlock ?new) ?m"
    using False by (simp add: store_kept_def Let_def)
  have old: "block_points sid rng (dbStore ?db') bid = block_points sid rng (dbStore db) bid"
    if "bid \<in> set (covering_blocks rng ?m)" for bid
  proof -
    from that obtain i where "i < length (shards ?m)" "bid \<in> set (shBlocks (shards ?m ! i))"
      by (auto simp: covering_blocks_def ShardsCovering_mem Shard_Blocks_def)
    with refs have "bid \<le> sNextID (dbStore db)" by (auto simp: refs_ok_def)
    with less_self_succ [OF fresh] have "bid \<noteq> ?new" by auto
    then show ?thesis by (simp add: block_points_def readable_store_kept [OF False])
  qed
  have new: "block_points sid rng (dbStore ?db') ?new =
      filter (in_range rng) (filter (recent ?m) (series_of by_id sid))"
    by (simp add: block_points_def readable_store_kept [OF False])
  have miss: "filter (in_range rng) (filter (recent ?m) (series_of by_id sid)) = []"
    if "\<not> (shStart (last (shards ?m)) <s End rng \<and> Start rng <s shEnd (last (shards ?m)))"
    using that r by (fastforce simp: filter_empty_conv in_range_def recent_def routed_def go_int)
  have "concat (map (block_points sid rng (dbStore ?db')) (covering_blocks rng ?m)) = stored_points sid rng db"
    unfolding stored_points_def by (intro arg_cong [of _ _ concat] map_cong) (simp_all add: old)
  then show ?thesis
    using miss new by (simp add: stored_points_def [of _ _ ?db'] m' covering_blocks_add [OF ne] del: One_nat_def)
qed

end
