(* ===== verification/WalGuarantees.thy ===== *)
theory WalGuarantees
  imports WalRecovery
begin

text \<open>
  What the write-ahead log guarantees, and where it does not. The first section completes the
  statement that on a disk without faults every operation of the log succeeds; the properties
  then follow a log through appends, synchronisation, truncation, a stop and a reopening.
\<close>

section \<open>Truncation on a disk without faults\<close>

lemma os_write_file_ok: "faults d = [] \<Longrightarrow> os_write_file name bs d = (None, d\<lparr>files := fmupd name bs (files d)\<rparr>)"
  by (simp add: os_write_file_def next_fault_none)

lemma os_rename_ok:
  "faults d = [] \<Longrightarrow> fmlookup (files d) old = Some bs \<Longrightarrow>
   os_rename old new d = (None, d\<lparr>files := fmupd new bs (fmdrop old (files d))\<rparr>)"
  by (simp add: os_rename_def next_fault_none)

lemma os_remove_ok:
  "faults d = [] \<Longrightarrow> fmlookup (files d) name \<noteq> None \<Longrightarrow>
   os_remove name d = (None, d\<lparr>files := fmdrop name (files d)\<rparr>)"
  by (simp add: os_remove_def next_fault_none)

lemma os_create_trunc_ok:
  "faults d = [] \<Longrightarrow> os_create_trunc name d = (None, d\<lparr>files := fmupd name [] (files d)\<rparr>)"
  by (simp add: os_create_trunc_def next_fault_none)

lemma SetReplayStart_clean:
  assumes "faults (wDisk w) = []"
  shows "\<exists>w'. SetReplayStart s w = (None, w') \<and> faults (wDisk w') = []"
  using assms by (simp add: SetReplayStart_def persistReplayLocked_def Let_def os_write_file_ok os_rename_ok)

lemma drop_segments_clean:
  assumes "log_ok w recs" and "faults (wDisk w) = []"
  shows "\<exists>w'. drop_segments old ks w = (None, w') \<and> faults (wDisk w') = []"
  using assms
proof (induction ks arbitrary: w)
  case (Cons i ks)
  show ?case
  proof (cases "fmlookup (segments w) i")
    case None
    with Cons show ?thesis by simp
  next
    case (Some seg)
    show ?thesis
    proof (cases "old seg")
      case False
      with Cons Some show ?thesis by simp
    next
      case True
      obtain w1 where f: "flush_at i seg w = (None, w1)" "faults (wDisk w1) = []"
        using flush_at_clean [OF Cons.prems(1) Some Cons.prems(2)] by blast
      note e = flush_at_effect [OF Cons.prems(1) Some f(1)]
      have "seg_at w1 recs i (seg\<lparr>sgWriter := new_writer\<rparr>)"
        using wal_ok_seg [OF e(1)] e(2) by simp
      then have "fmlookup (files (wDisk w1)) (sgName seg) \<noteq> None" by (auto simp: seg_at_def seg_ok_def)
      note rm = os_remove_ok [OF f(2) this]
      let ?w = "w1\<lparr>segments := fmdrop i (segments w1), wDisk := (wDisk w1)\<lparr>files := fmdrop (sgName seg) (files (wDisk w1))\<rparr>\<rparr>"
      have "log_ok ?w recs"
        by (rule drop_one_effect(1) [OF Cons.prems(1) Some f(1) os_call_ok [OF f(2)] rm refl])
      then obtain w' where "drop_segments old ks ?w = (None, w')" "faults (wDisk w') = []"
        using Cons.IH [of ?w] f(2) by auto
      with Some True flush_close_clean [OF f] rm show ?thesis by (simp add: fmdrop_fmupd_same)
    qed
  qed
qed simp

lemma write_records_clean:
  "faults d = [] \<Longrightarrow> sound wr \<Longrightarrow> \<exists>wr' d'. write_records name rs wr d = (None, wr', d')
     \<and> faults d' = [] \<and> sound wr'"
proof (induction rs arbitrary: wr d)
  case (Cons r rs)
  obtain wr1 d1 where w: "bufio_write name (encodeRecord r) wr d = (None, wr1, d1)" "faults d1 = []"
    using bufio_write_ok [OF Cons.prems] by blast
  have "sound wr1"
    using wrote_sound [of name wr d "encodeRecord r" wr1 d1] bufio_write_wrote [of name wr d "encodeRecord r"] w(1) Cons.prems(2)
    by (simp add: sound_def)
  with Cons.IH w show ?case by simp
qed simp

lemma write_tmp_clean:
  assumes "faults d = []"
  shows "\<exists>d'. write_tmp name rs d = (None, d') \<and> faults d' = []"
proof -
  obtain wr1 d1 where w: "write_records name rs new_writer d = (None, wr1, d1)" "faults d1 = []" "sound wr1"
    using write_records_clean [OF assms sound_simps(1)] by blast
  obtain wr2 d2 where "bufio_flush name wr1 d1 = (None, wr2, d2)" "faults d2 = []"
    using bufio_flush_ok [OF w(2,3)] by blast
  with w show ?thesis by (simp add: write_tmp_def Let_def)
qed

lemma swap_in_clean:
  assumes ok: "wal_ok w recs" and at: "fmlookup (segments w) (top_index (segments w)) = Some cur"
    and tmp: "tmp = tmp_name (sgName cur)" "fmlookup (files (wDisk w)) tmp = Some (logged keep)"
    and nf: "faults (wDisk w) = []"
  shows "\<exists>w'. swap_in tmp (top_index (segments w)) cur w = (None, w') \<and> faults (wDisk w') = []"
proof -
  obtain w1 where f: "flush_at (top_index (segments w)) cur w = (None, w1)" "faults (wDisk w1) = []"
    using flush_at_clean [OF wal_ok_log [OF ok] at nf] by blast
  note e = flush_at_effect [OF wal_ok_log [OF ok] at f(1)]
  have "fmlookup (files (wDisk w1)) tmp = Some (logged keep)"
    using e(6) [of tmp] tmp not_segment_file(2) by simp
  note rn = os_rename_ok [OF f(2) this, of "sgName cur"]
  let ?d = "(wDisk w1)\<lparr>files := fmupd (sgName cur) (logged keep) (fmdrop tmp (files (wDisk w1)))\<rparr>"
  have "scans_as (content (sgName cur) ?d) keep" using scans_as_logged [of keep] by (simp add: content_def)
  moreover have "faults ?d = []" using f(2) by simp
  ultimately obtain seg d' where "openSegment (sgName cur) ?d = (Inr seg, d')" "faults d' = []"
    using openSegment_clean by blast
  with flush_close_clean [OF f] rn show ?thesis by (simp add: swap_in_def)
qed

lemma rewrite_current_clean:
  assumes ok: "wal_ok w recs" and nf: "faults (wDisk w) = []"
  shows "\<exists>w'. rewrite_current s w = (None, w') \<and> faults (wDisk w') = []"
proof -
  let ?top = "top_index (segments w)"
  obtain cur where c: "currentLocked w = Some (?top, cur)" and at: "fmlookup (segments w) ?top = Some cur"
    and sa: "seg_at w recs ?top cur" by (rule wal_ok_current [OF ok])
  then have nm: "sgName cur = segment_name ?top" "fmlookup (files (wDisk w)) (sgName cur) \<noteq> None"
    by (auto simp: seg_at_def seg_ok_def)
  let ?tmp = "tmp_name (sgName cur)"
  obtain rs1 where "scans_as (content (sgName cur) (wDisk w)) rs1" using current_scans [OF ok] nm(1) by auto
  note scan = scanRecords_scans_as [OF this, of "s + 1" "\<lambda>rec keep. (None, keep @ [rec])" "[]", unfolded deliver_collect]
  let ?keep = "[] @ filter (\<lambda>r. frame_safe r \<and> s + 1 \<le> rSeq r) rs1"
  let ?d2 = "(wDisk w)\<lparr>files := fmupd ?tmp [] (files (wDisk w))\<rparr>"
  obtain d3 where d3: "write_tmp ?tmp ?keep ?d2 = (None, d3)" "faults d3 = []"
    using write_tmp_clean [of ?d2 ?tmp ?keep] nf by auto
  have tmp: "content ?tmp d3 = logged ?keep"
    using write_tmp_effect(1) [OF d3(1)] by (simp add: content_def)
  have ex: "fmlookup (files d3) ?tmp \<noteq> None" using write_tmp_keeps [OF d3(1)] by simp
  have "log_ok (w\<lparr>wDisk := d3\<rparr>) recs"
  proof (rule log_ok_frame [OF wal_ok_log [OF ok]])
    fix n assume "segment_file n"
    then have "n \<noteq> ?tmp" using not_segment_file(2) by blast
    with write_tmp_effect(2) [OF d3(1) this]
    show "fmlookup (files (wDisk (w\<lparr>wDisk := d3\<rparr>))) n = fmlookup (files (wDisk w)) n" by simp
  qed simp
  then have ok3: "wal_ok (w\<lparr>wDisk := d3\<rparr>) recs" using ok by (simp add: wal_ok_def)
  have look: "fmlookup (files d3) ?tmp = Some (logged ?keep)"
    using ex tmp by (auto simp: content_def)
  obtain w' where "swap_in ?tmp ?top cur (w\<lparr>wDisk := d3\<rparr>) = (None, w')" "faults (wDisk w') = []"
    using swap_in_clean [OF ok3, of cur ?tmp ?keep] at look d3(2) by auto
  with c nm(2) nf scan d3 show ?thesis
    by (simp add: rewrite_current_def os_create_trunc_ok Let_def)
qed

lemma TruncateTo_clean:
  assumes ok: "wal_ok w recs" and ks: "visits ks (segments w)" and nf: "faults (wDisk w) = []"
  shows "\<exists>w'. TruncateTo ks s w = (None, w') \<and> faults (wDisk w') = []"
proof -
  obtain w1 where d: "drop_segments (\<lambda>seg. sgLast seg \<le> s) ks w = (None, w1)" "faults (wDisk w1) = []"
    using drop_segments_clean [OF wal_ok_log [OF ok] nf] by blast
  have l: "log_ok w1 recs" by (rule TruncateTo_drop(1) [OF ok ks d(1)])
  show ?thesis
  proof (cases "segments w1 = fmempty")
    case True
    then have "top_index (segments w1) = 0" using top_index_mem [of "segments w1"] by auto
    then obtain w2 where "rotate_log w1 = (None, w2)" "faults (wDisk w2) = []"
      using rotate_log_clean [OF l _ d(2)] by auto
    with d True show ?thesis by (simp add: TruncateTo_def)
  next
    case False
    then have "wal_ok w1 recs" using l by (simp add: wal_ok_def)
    then obtain w2 where "rewrite_current s w1 = (None, w2)" "faults (wDisk w2) = []"
      using rewrite_current_clean d(2) by blast
    with d False show ?thesis by (simp add: TruncateTo_def fmsize_0_iff)
  qed
qed

lemma key_order_single: "fmdom' m = {i} \<Longrightarrow> key_order m = [i]"
  using key_order_unique [of "[i]" m] by simp

section \<open>Reopening a synchronised log\<close>

text \<open>A log whose buffers are empty when the process stops is, once reopened, the same log.\<close>

lemma Wal_Open_synced:
  assumes ok: "wal_ok w recs" and sy: "all_synced w" and d: "files d = files (wDisk w)"
    and o: "Wal_Open ms d = (Inr w', d')"
  shows "wal_ok w' recs" "all_synced w'" "wal_entries w' recs = wal_entries w recs"
    "fmdom' (segments w') = fmdom' (segments w)" "checkpoint_value (wDisk w) = Some (nextReplay w')"
    "loaded (fmdom' (segments w)) recs (segments w')" "maxSize w' = ms"
proof -
  let ?I = "fmdom' (segments w)"
  have dl: "disk_log d ?I recs" using crash_disk_log [OF ok d] sy by metis
  have ne: "?I \<noteq> {}" by (rule wal_ok_current [OF ok]) (auto dest: fmdom'I)
  note e = Wal_Open_effect [OF dl ne o]
  show "fmdom' (segments w') = ?I" "loaded ?I recs (segments w')" "maxSize w' = ms" by (rule e)+
  show "checkpoint_value (wDisk w) = Some (nextReplay w')" using e(4) d by (simp add: checkpoint_value_def)
  show sy': "all_synced w'" using e(5) by (auto simp: all_synced_def loaded_def fmpred_iff new_writer_def)
  have at: "seg_at w' recs i seg" if l: "fmlookup (segments w') i = Some seg" for i seg
  proof -
    from l e(5) have s: "i \<in> ?I" "sgName seg = segment_name i" "sgWriter seg = new_writer" "sgLast seg = last_of recs i"
      by (auto simp: loaded_def fmpred_iff)
    from s(1) obtain seg0 where seg0: "fmlookup (segments w) i = Some seg0" by (auto simp: fmlookup_dom'_iff)
    from wal_ok_seg [OF ok seg0] have a: "seg_at w recs i seg0" .
    moreover have "wBuf (sgWriter seg0) = []" using sy seg0 by (auto simp: all_synced_def fmpred_iff)
    ultimately have "content (segment_name i) (wDisk w) = logged (recs i)"
      "fmlookup (files (wDisk w)) (segment_name i) \<noteq> None" "0 < i" "i < 2 ^ 63"
      by (auto simp: seg_at_def seg_ok_def)
    then show ?thesis
      using s e(3) d by (auto simp: seg_at_def seg_ok_def new_writer_def content_def last_of_def max_seq_def intro!: fold_max_ge)
  qed
  have "names_ok w'"
    unfolding names_ok_def
  proof (intro allI impI)
    fix name assume "segment_file name" "fmlookup (files (wDisk w')) name \<noteq> None"
    then obtain i seg where "fmlookup (segments w) i = Some seg" "name = segment_name i"
      using wal_ok_log [OF ok] e(3) d unfolding log_ok_def names_ok_def by metis
    moreover from this have "i \<in> fmdom' (segments w')" by (simp add: e(1) fmdom'I)
    ultimately show "\<exists>i seg. fmlookup (segments w') i = Some seg \<and> name = segment_name i"
      by (auto simp: fmlookup_dom'_iff)
  qed
  moreover have "segments w' \<noteq> fmempty" using e(1) ne by auto
  ultimately show "wal_ok w' recs" using at by (simp add: wal_ok_def log_ok_def fmpred_iff)
  show "wal_entries w' recs = wal_entries w recs" using same_keys_order [OF e(1)] by (simp add: wal_entries_def)
qed

lemma fresh_wal:
  obtains w d' where "Wal_Open 1024 \<lparr>files = fmempty, faults = []\<rparr> = (Inr w, d')" "wal_ok w (\<lambda>_. [])"
    "top_index (segments w) = 1" "faults (wDisk w) = []" "nextSeq w = 0" "nextReplay w = 0"
    "wal_entries w (\<lambda>_. []) = []" "checkpoint_value (wDisk w) = Some 0"
proof -
  let ?d = "\<lparr>files = fmempty, faults = []\<rparr> :: disk"
  have n: "no_segments ?d" and "checkpoint_value ?d = Some 0"
    by (simp_all add: no_segments_def checkpoint_value_def)
  then obtain w d' where o: "Wal_Open 1024 ?d = (Inr w, d')" "faults (wDisk w) = []"
    using Wal_Open_fresh_clean [of ?d 0 1024] by auto
  note e = Wal_Open_fresh [OF n o(1)]
  from e(1) obtain seg where "fmlookup (segments w) (top_index (segments w)) = Some seg"
    by (rule wal_ok_current)
  with e(3) have "top_index (segments w) = 1" by (metis fmdom'I singletonD)
  moreover have "checkpoint_value (wDisk w) = checkpoint_value ?d"
    using e(8) [of checkpointName] not_segment_file(1) by (simp add: checkpoint_value_def)
  ultimately show ?thesis using e(1,2,4,5) o n by (intro that) (simp_all add: checkpoint_value_def)
qed

lemma Wal_Open_files:
  assumes ok: "wal_ok w recs" and "all_synced w" and d: "files d = files (wDisk w)" and o: "Wal_Open ms d = (Inr w', d')"
  shows "files (wDisk w') = files d"
proof -
  obtain recs' where "disk_log d (fmdom' (segments w)) recs'" using crash_disk_log [OF ok d] by blast
  moreover have "fmdom' (segments w) \<noteq> {}" by (rule wal_ok_current [OF ok]) (auto dest: fmdom'I)
  ultimately show ?thesis using Wal_Open_effect(3) [OF _ _ o] by blast
qed

lemma reopen_clean:
  assumes "wal_ok w recs" and "faults (wDisk w) = []" and "checkpoint_value (wDisk w) = Some v"
  obtains w' d' where "Wal_Open ms (wDisk w) = (Inr w', d')" "faults (wDisk w') = []"
proof -
  obtain recs' where "disk_log (wDisk w) (fmdom' (segments w)) recs'" using crash_disk_log [OF assms(1) refl] by blast
  moreover have "fmdom' (segments w) \<noteq> {}" by (rule wal_ok_current [OF assms(1)]) (auto dest: fmdom'I)
  ultimately show ?thesis using Wal_Open_clean [OF assms(2) _ _ assms(3), of _ _ ms] that by blast
qed

definition old_record :: wal_record where
  "old_record = \<lparr>rSeq = 0, rSeriesID = 7, rTS = 100, rValue = 1\<rparr>"

text \<open>Two records on a clean disk, appended and synchronised.\<close>

lemma demo_log:
  obtains w0 d0 w1 w recs where "Wal_Open 1024 \<lparr>files = fmempty, faults = []\<rparr> = (Inr w0, d0)"
    "append_all [old_record, demo_record] w0 = (None, w1)" "Sync w1 = (None, w)"
    "wal_ok w recs" "all_synced w" "faults (wDisk w) = []" "nextSeq w = 2" "nextReplay w = 0"
    "wal_entries w recs = [old_record, demo_record]" "checkpoint_value (wDisk w) = Some 0"
    "wal_ok w1 recs" "faults (wDisk w1) = []" "checkpoint_value (wDisk w1) = Some 0"
proof -
  obtain w d0 where o: "Wal_Open 1024 \<lparr>files = fmempty, faults = []\<rparr> = (Inr w, d0)"
      and w: "wal_ok w (\<lambda>_. [])" "top_index (segments w) = 1" "faults (wDisk w) = []" "nextSeq w = 0"
      "nextReplay w = 0" "wal_entries w (\<lambda>_. []) = []" "checkpoint_value (wDisk w) = Some 0" by (rule fresh_wal)
  have idx: "top_index (segments w) + int (length [old_record, demo_record]) < 2 ^ 63" using w(2) by simp
  obtain w1 where a: "append_all [old_record, demo_record] w = (None, w1)" "faults (wDisk w1) = []"
    using append_all_clean [OF w(1) idx w(3)] by blast
  from append_all_effect [OF w(1) idx a(1)] obtain recs where r: "wal_ok w1 recs"
      "wal_entries w1 recs = [old_record, demo_record]" "nextSeq w1 = 2" "nextReplay w1 = 0"
      "\<And>k. \<not> segment_file k \<Longrightarrow> fmlookup (files (wDisk w1)) k = fmlookup (files (wDisk w)) k"
    by (auto simp: w old_record_def demo_record_def)
  obtain w2 where s: "Sync w1 = (None, w2)" "faults (wDisk w2) = []" using Sync_clean [OF r(1) a(2)] by blast
  note e = Sync_effect [OF r(1) s(1)]
  have "checkpoint_value (wDisk w1) = Some 0" "checkpoint_value (wDisk w2) = Some 0"
    using w(7) r(5) [of checkpointName] e(8) [of checkpointName] not_segment_file(1) by (simp_all add: checkpoint_value_def)
  then show ?thesis
    using e r(1-4) a(2) by (intro that [OF o a(1) s(1) e(1,2) s(2)]) simp_all
qed

lemma demo_seqs [simp]: "old_record\<lparr>rSeq := 0\<rparr> = old_record" "demo_record\<lparr>rSeq := 1\<rparr> = demo_record"
  by (simp_all add: old_record_def demo_record_def)

lemma numbered_seqs: "r \<in> set (numbered n rs) \<Longrightarrow> \<exists>i < length rs. rSeq r = n + of_nat i"
proof (induction rs arbitrary: n)
  case (Cons a rs)
  then consider "rSeq r = n" | i where "i < length rs" "rSeq r = n + 1 + of_nat i" by fastforce
  then show ?case
  proof cases
    case 2
    then show ?thesis by (intro exI [of _ "Suc i"]) (simp add: add.assoc)
  qed (auto intro: exI [of _ 0])
qed simp

text \<open>Reopening a log that was truncated to one empty segment: numbering starts again at 1.\<close>

lemma reopen_truncated:
  assumes ok: "wal_ok w recs" "recs 1 = []" and sy: "all_synced w" and one: "fmdom' (segments w) = {1}"
    and d: "files d = files (wDisk w)" and o: "Wal_Open ms d = (Inr w', d')"
  shows "nextSeq w' = 1"
proof -
  have "disk_log d {1} recs" using crash_disk_log [OF ok(1) d] sy one by metis
  from Wal_Open_effect(7) [OF this _ o] obtain names where n: "set names = {segment_name 1}"
      "nextSeq w' = fold (\<lambda>l n. if n \<le> l then l + 1 else n) (map (\<lambda>name. last_of recs (segmentIndexFromPath name)) names) 0"
    by auto
  have "last_of recs (segmentIndexFromPath name) = 0" if "name \<in> set names" for name
    using that n(1) segmentIndex_name(2) [of 1] by (simp add: last_of_def max_seq_def ok(2))
  then have z: "map (\<lambda>name. last_of recs (segmentIndexFromPath name)) names = map (\<lambda>_. 0) names" by simp
  have one: "fold (\<lambda>l n. if n \<le> l then l + 1 else n) (map (\<lambda>_. 0) xs) (1 :: uint64) = 1" for xs :: "string list"
    by (induction xs) simp_all
  from n(1) obtain a names' where "names = a # names'" by (cases names) auto
  then show ?thesis unfolding n(2) z by (simp add: one)
qed

section \<open>Properties\<close>

text \<open>
  C26. Durability: records appended to a log opened on an empty directory and then synchronised
  survive a stop of the process at that point. Reopening and replaying from the start delivers
  them in order, numbered from zero, each once, except the ones whose bytes the line framing
  cannot carry.
\<close>

theorem synced_run_replays:
  assumes "no_segments d" and "int (length rs) + 1 < 2 ^ 63"
    and run: "Wal_Open ms d = (Inr w0, d0)" "append_all rs w0 = (None, w1)" "Sync w1 = (None, w2)"
    and restart: "files d2 = files (wDisk w2)" "Wal_Open ms' d2 = (Inr w3, d3)" "faults (wDisk w3) = []"
  shows "fst (Replay 0 fn st w3) = deliver fn (filter frame_safe (numbered 0 rs)) st"
proof -
  note f = Wal_Open_fresh [OF assms(1) run(1)]
  from f(1) obtain seg where "fmlookup (segments w0) (top_index (segments w0)) = Some seg" by (rule wal_ok_current)
  with f(3) have "top_index (segments w0) = 1" by (metis fmdom'I singletonD)
  with assms(2) have "top_index (segments w0) + int (length rs) < 2 ^ 63" by simp
  from append_all_effect [OF f(1) this run(2)] obtain recs where
      r: "wal_ok w1 recs" "wal_entries w1 recs = numbered 0 rs" by (auto simp: f(2,4))
  note s = Sync_effect [OF r(1) run(3)]
  obtain m where "fst (Replay 0 fn st w3) = deliver fn (found 0 (take m (wal_entries w2 recs))) st"
      "all_synced w2 \<longrightarrow> take m (wal_entries w2 recs) = wal_entries w2 recs"
    using crash_replay [OF s(1) restart, of 0 fn st] by blast
  with s(2,3) r(2) show ?thesis by (simp add: found_def)
qed

theorem synced_run_replays_witness:
  "\<exists>w0 d0 w1 w2 w3 d3. Wal_Open 1024 \<lparr>files = fmempty, faults = []\<rparr> = (Inr w0, d0)
    \<and> append_all [old_record, demo_record] w0 = (None, w1) \<and> Sync w1 = (None, w2)
    \<and> Wal_Open 1024 (wDisk w2) = (Inr w3, d3)
    \<and> demo_record \<in> set (snd (fst (Replay 0 (\<lambda>r rs. (None, rs @ [r])) [] w3)))"
proof -
  let ?d = "\<lparr>files = fmempty, faults = []\<rparr> :: disk"
  obtain w0 d0 w1 w2 recs where o: "Wal_Open 1024 ?d = (Inr w0, d0)"
      "append_all [old_record, demo_record] w0 = (None, w1)" "Sync w1 = (None, w2)" "wal_ok w2 recs" "all_synced w2"
      "faults (wDisk w2) = []" "checkpoint_value (wDisk w2) = Some 0"
    by (rule demo_log)
  obtain w3 d3 where r: "Wal_Open 1024 (wDisk w2) = (Inr w3, d3)" "faults (wDisk w3) = []"
    by (rule reopen_clean [OF o(4,6,7)])
  have "no_segments ?d" by (simp add: no_segments_def)
  from synced_run_replays [OF this _ o(1-3) refl r, of "\<lambda>r rs. (None, rs @ [r])" "[]"]
  have "fst (Replay 0 (\<lambda>r rs. (None, rs @ [r])) [] w3) = (None, filter frame_safe [old_record, demo_record])"
    by (simp add: deliver_collect [of _ "[]", simplified])
  with o r show ?thesis by (auto simp: demo_record_safe intro!: exI)
qed

text \<open>
  C27. Without the synchronisation, a stop at any moment loses at most a suffix: a reopened log
  replays the frames of a prefix of the appended records, and never a record out of order.
\<close>

theorem unsynced_run_prefix:
  assumes "no_segments d" and "int (length rs) + 1 < 2 ^ 63"
    and run: "Wal_Open ms d = (Inr w0, d0)" "append_all rs w0 = (None, w1)"
    and restart: "files d2 = files (wDisk w1)" "Wal_Open ms' d2 = (Inr w3, d3)" "faults (wDisk w3) = []"
  shows "\<exists>m. fst (Replay 0 fn st w3) = deliver fn (filter frame_safe (take m (numbered 0 rs))) st"
proof -
  note f = Wal_Open_fresh [OF assms(1) run(1)]
  from f(1) obtain seg where "fmlookup (segments w0) (top_index (segments w0)) = Some seg" by (rule wal_ok_current)
  with f(3) have "top_index (segments w0) = 1" by (metis fmdom'I singletonD)
  with assms(2) have "top_index (segments w0) + int (length rs) < 2 ^ 63" by simp
  from append_all_effect [OF f(1) this run(2)] obtain recs where
      r: "wal_ok w1 recs" "wal_entries w1 recs = numbered 0 rs" by (auto simp: f(2,4))
  from crash_replay [OF r(1) restart, of 0 fn st] r(2) show ?thesis by (auto simp: found_def)
qed

theorem unsynced_run_prefix_witness:
  "\<exists>w3 m. fst (Replay 0 (\<lambda>r rs. (None, rs @ [r])) [] w3)
    = (None, filter frame_safe (take m [old_record, demo_record]))"
proof -
  let ?d = "\<lparr>files = fmempty, faults = []\<rparr> :: disk"
  obtain w0 d0 w1 recs where o: "Wal_Open 1024 ?d = (Inr w0, d0)"
      "append_all [old_record, demo_record] w0 = (None, w1)" "wal_ok w1 recs"
      "faults (wDisk w1) = []" "checkpoint_value (wDisk w1) = Some 0"
    by (rule demo_log)
  obtain w3 d3 where r: "Wal_Open 1024 (wDisk w1) = (Inr w3, d3)" "faults (wDisk w3) = []"
    by (rule reopen_clean [OF o(3-5)])
  have "no_segments ?d" by (simp add: no_segments_def)
  from unsynced_run_prefix [OF this _ o(1,2) refl r, of "\<lambda>r rs. (None, rs @ [r])" "[]"]
  show ?thesis by (auto simp: deliver_collect [of _ "[]", simplified])
qed

text \<open>
  C28. Truncation of a synchronised log at \<open>s\<close> loses no record after \<open>s\<close>: a replay from \<open>s + 1\<close> finds
  the same records before and after, and the log is synchronised again.
\<close>

theorem TruncateTo_keeps_later:
  assumes "wal_ok w recs" and "all_synced w" and "visits ks (segments w)" and "s + 1 \<noteq> 0"
    and t: "TruncateTo ks s w = (None, w')" and nf: "faults (wDisk w) = []" "faults (wDisk w') = []"
  shows "fst (Replay (s + 1) fn st w') = fst (Replay (s + 1) fn st w) \<and> all_synced w'"
proof -
  from TruncateTo_synced [OF assms(1-4) t] obtain recs' where r: "wal_ok w' recs'" "all_synced w'"
      "found (s + 1) (wal_entries w' recs') = found (s + 1) (wal_entries w recs)" by blast
  then show ?thesis
    using Replay_readable [OF synced_readable [OF assms(1,2)] nf(1), of "s + 1" fn st]
      Replay_readable [OF synced_readable [OF r(1,2)] nf(2), of "s + 1" fn st] by simp
qed

theorem TruncateTo_keeps_later_witness:
  "\<exists>w w'. TruncateTo (key_order (segments w)) 0 w = (None, w')
    \<and> fst (Replay 1 (\<lambda>r rs. (None, rs @ [r])) [] w') = (None, [demo_record])"
proof -
  obtain w recs where w: "wal_ok w recs" "all_synced w" "faults (wDisk w) = []"
      "wal_entries w recs = [old_record, demo_record]" by (rule demo_log)
  have v: "visits (key_order (segments w)) (segments w)" by (rule iterates_visits [OF iterates_key_order])
  obtain w' where t: "TruncateTo (key_order (segments w)) 0 w = (None, w')" "faults (wDisk w') = []"
    using TruncateTo_clean [OF w(1) v w(3)] by blast
  have f: "found 1 [old_record, demo_record] = [demo_record]"
    using demo_record_safe by (simp add: found_def) (simp add: old_record_def demo_record_def)
  have "fst (Replay 1 (\<lambda>r rs. (None, rs @ [r])) [] w) = (None, [demo_record])"
    using Replay_readable [OF synced_readable [OF w(1,2)] w(3), of 1 "\<lambda>r rs. (None, rs @ [r])" "[]"]
    by (simp add: w(4) f)
  with TruncateTo_keeps_later [OF w(1,2) v _ t(1) w(3) t(2), of "\<lambda>r rs. (None, rs @ [r])" "[]"] t(1)
  show ?thesis by auto
qed

text \<open>
  C29. Truncation of a log that is not synchronised can lose later records: \<open>TruncateTo\<close> collects
  the records to keep from the file before it flushes the writer. When all records of a log of
  one segment are still in the writer's buffer and one of them lies after the truncation point,
  the rewritten file replaces them all, whatever their numbers.
\<close>

theorem TruncateTo_loses_buffered:
  assumes ok: "wal_ok w recs" and one: "fmdom' (segments w) = {1}"
    and buffered: "content (segment_name 1) (wDisk w) = []"
    and later: "r \<in> set (wal_entries w recs)" "frame_safe r" "s < rSeq r"
    and ks: "visits ks (segments w)" and t: "TruncateTo ks s w = (None, w')"
  shows "\<exists>recs'. wal_ok w' recs' \<and> wal_entries w' recs' = []"
proof -
  obtain seg where top: "fmlookup (segments w) (top_index (segments w)) = Some seg"
    and sa: "seg_at w recs (top_index (segments w)) seg" by (rule wal_ok_current [OF ok])
  then have ti: "top_index (segments w) = 1" using one by (metis fmdom'I singletonD)
  have ko: "key_order (segments w) = [1]" by (rule key_order_single [OF one])
  with later(1) have r: "r \<in> set (recs 1)" by (simp add: wal_entries_def)
  with sa later(2) ti have "rSeq r \<le> sgLast seg" by (auto simp: seg_at_def seg_ok_def)
  with later(3) have last: "s < sgLast seg" by simp
  obtain w1 where w1: "drop_segments (\<lambda>seg. sgLast seg \<le> s) ks w = (None, w1)" "wal_ok w1 recs"
      "rewrite_current s w1 = (None, w')" "top_index (segments w) = 1 \<Longrightarrow> top_index (segments w1) = 1"
    using TruncateTo_some [OF ok ks top [unfolded ti] last t] by metis
  note dr = TruncateTo_drop [OF ok ks w1(1)]
  have l1: "fmlookup (segments w1) 1 = Some seg" using dr(2) [of 1] top ti last by simp
  have nm: "sgName seg = segment_name 1" using sa ti by (simp add: seg_at_def)
  have "content (segment_name 1) (wDisk w1) = []" using dr(8) [OF l1] nm buffered by simp
  then have sc: "scans_as (content (segment_name (top_index (segments w1))) (wDisk w1)) []"
    using scans_as_logged [of "[]"] w1(4) [OF ti] by (simp add: logged_def)
  note e = rewrite_current_effect [OF w1(2) sc w1(3)]
  have "key_order (segments w') = filter (\<lambda>i. s < sgLast (the (fmlookup (segments w) i))) [1]"
    using e(6) dr(3) ko by simp
  also have "\<dots> = [1]" using top ti last by simp
  finally have "wal_entries w' (recs(1 := [])) = []" by (simp add: wal_entries_def)
  with e(1) w1(4) [OF ti] show ?thesis by (intro exI [of _ "recs(1 := [])"]) (simp add: found_def)
qed

text \<open>A log whose only record, number 1, is still in the writer's buffer.\<close>

definition buffered_wal :: wal where
  "buffered_wal =
     \<lparr>segments = fmupd 1 \<lparr>sgName = segment_name 1, sgWriter = \<lparr>wBuf = logged [demo_record], wBroken = False, wClosed = False\<rparr>,
        sgFirst = 1, sgLast = 1, sgSize = 37\<rparr> fmempty,
      nextSeq = 2, nextReplay = 0, maxSize = 1024,
      wDisk = \<lparr>files = fmupd (segment_name 1) [] fmempty, faults = []\<rparr>\<rparr>"

lemma buffered_ok:
  "wal_ok buffered_wal (\<lambda>_. [demo_record])" "wal_entries buffered_wal (\<lambda>_. [demo_record]) = [demo_record]"
proof -
  have ti: "top_index (segments buffered_wal) = 1"
    by (rule top_index_eqI [of _ 1]) (auto simp: buffered_wal_def split: if_splits)
  show "wal_ok buffered_wal (\<lambda>_. [demo_record])"
    using ti by (auto simp: wal_ok_def log_ok_def fmpred_iff seg_at_def seg_ok_def names_ok_def buffered_wal_def
        content_def demo_record_def split: if_splits)
  have "key_order (segments buffered_wal) = [1]" by (rule key_order_single) (simp add: buffered_wal_def)
  then show "wal_entries buffered_wal (\<lambda>_. [demo_record]) = [demo_record]" by (simp add: wal_entries_def)
qed

theorem TruncateTo_loses_buffered_witness:
  "\<exists>w' recs'. TruncateTo [1] 0 buffered_wal = (None, w') \<and> wal_ok w' recs' \<and> wal_entries w' recs' = []"
proof -
  have v: "visits [1] (segments buffered_wal)" by (simp add: visits_iff buffered_wal_def)
  have c: "fmdom' (segments buffered_wal) = {1}" "content (segment_name 1) (wDisk buffered_wal) = []"
    "faults (wDisk buffered_wal) = []" by (simp_all add: buffered_wal_def content_def)
  obtain w' where t: "TruncateTo [1] 0 buffered_wal = (None, w')"
    using TruncateTo_clean [OF buffered_ok(1) v c(3)] by blast
  from TruncateTo_loses_buffered [OF buffered_ok(1) c(1,2) _ demo_record_safe _ v t] t
  show ?thesis by (simp add: buffered_ok(2)) (simp add: demo_record_def)
qed

text \<open>
  C30. After a flush has truncated the whole log, a restart numbers new records from 1 although the
  checkpoint asks for replay from \<open>s + 1\<close>. Records appended and synchronised after that restart
  are skipped by the next one: until the numbering passes \<open>s\<close>, nothing is replayed.
\<close>

theorem restart_skips_new_records:
  assumes ok: "wal_ok w recs" and old: "fmpred (\<lambda>_ seg. sgLast seg \<le> s) (segments w)" and s: "s + 1 \<noteq> 0"
    and flush: "SetReplayStart (s + 1) w = (None, w1)" "visits ks (segments w1)" "TruncateTo ks s w1 = (None, w2)"
    and first: "files d2 = files (wDisk w2)" "Wal_Open ms d2 = (Inr w3, d3)"
    and run: "append_all rs w3 = (None, w4)" "Sync w4 = (None, w5)" "length rs \<le> unat s" "int (length rs) + 1 < 2 ^ 63"
    and second: "files d5 = files (wDisk w5)" "Wal_Open ms' d5 = (Inr w6, d6)" "faults (wDisk w6) = []"
  shows "fst (ReplayUnflushed fn st w6) = (None, st)"
proof -
  note r = SetReplayStart_effect [OF flush(1)]
  have ok1: "wal_ok w1 recs" using ok log_ok_frame [of w recs w1] r(1,6) by (simp add: wal_ok_def)
  have old1: "fmpred (\<lambda>_ seg. sgLast seg \<le> s) (segments w1)" using old r(1) by simp
  note t = TruncateTo_all [OF ok1 flush(2) old1 flush(3)]
  note o3 = Wal_Open_synced [OF t(1,8) first]
  have n3: "nextSeq w3 = 1" by (rule reopen_truncated [OF t(1) _ t(8,3) first]) simp
  have w3: "wal_entries w3 (recs(1 := [])) = []" using o3(3) t(2) by simp
  from o3(1) obtain seg where "fmlookup (segments w3) (top_index (segments w3)) = Some seg" by (rule wal_ok_current)
  then have "top_index (segments w3) = 1" using o3(4) t(3) by (metis fmdom'I singletonD)
  with run(4) have "top_index (segments w3) + int (length rs) < 2 ^ 63" by simp
  from append_all_effect [OF o3(1) this run(1)] obtain recs4 where r4: "wal_ok w4 recs4"
      "wal_entries w4 recs4 = numbered 1 rs" "\<And>k. \<not> segment_file k \<Longrightarrow> fmlookup (files (wDisk w4)) k = fmlookup (files (wDisk w3)) k"
    by (auto simp: n3 w3)
  note e5 = Sync_effect [OF r4(1) run(2)]
  note o6 = Wal_Open_synced [OF e5(1,2) second(1,2)]
  have f3: "files (wDisk w3) = files (wDisk w2)"
    using Wal_Open_files [OF t(1) t(8) first] first(1) by simp
  have "checkpoint_value (wDisk w5) = checkpoint_value (wDisk w2)"
    using e5(8) [of checkpointName] r4(3) [of checkpointName] f3 not_segment_file(1) by (simp add: checkpoint_value_def)
  then have "nextReplay w6 = nextReplay w1" using o6(5) t(7) r(5) by simp
  moreover have "s + 1 \<le> nextReplay w1" using r(3) by simp
  ultimately have wm: "s < nextReplay w6" using less_le_trans [OF less_self_succ [OF s], of "nextReplay w1"] by simp
  have "rSeq x \<le> s" if x: "x \<in> set (numbered 1 rs)" for x
  proof -
    from numbered_seqs [OF x] obtain i where i: "i < length rs" "rSeq x = of_nat (Suc i)" by auto
    then have "Suc i \<le> unat s" using run(3) by simp
    moreover have "unat (of_nat (Suc i) :: uint64) \<le> Suc i" by (simp only: unat_of_nat mod_less_eq_dividend)
    ultimately show ?thesis unfolding i(2) word_le_nat_alt by (rule order_trans [rotated])
  qed
  then have "found (nextReplay w6) (numbered 1 rs) = []"
    using wm by (fastforce simp: found_def filter_empty_conv)
  moreover have "wal_entries w6 recs4 = numbered 1 rs" using o6(3) e5(3) r4(2) by simp
  ultimately show ?thesis
    using Replay_readable [OF synced_readable [OF o6(1,2)] second(3), of "nextReplay w6" fn st]
    by (simp add: ReplayUnflushed_def)
qed

lemma top_index_single: "fmdom' m = {i} \<Longrightarrow> 0 < i \<Longrightarrow> top_index m = i"
  using top_index_mem [of m] top_index_ge(1) [of m i] by (fastforce simp: fmlookup_dom'_iff)

theorem restart_skips_new_records_witness:
  "\<exists>w3 w4 w5 w6. append_all [old_record] w3 = (None, w4) \<and> Sync w4 = (None, w5)
    \<and> nextSeq w3 = 1 \<and> fst (ReplayUnflushed (\<lambda>r rs. (None, rs @ [r])) [] w6) = (None, [])"
proof -
  have nf: "faults (wDisk buffered_wal) = []" by (simp add: buffered_wal_def)
  have old: "fmpred (\<lambda>_ seg. sgLast seg \<le> 1) (segments buffered_wal)"
    by (simp add: buffered_wal_def fmpred_iff)
  obtain w1 where w1: "SetReplayStart (1 + 1) buffered_wal = (None, w1)" "faults (wDisk w1) = []"
    using SetReplayStart_clean [OF nf] by blast
  note r = SetReplayStart_effect [OF w1(1)]
  have ok1: "wal_ok w1 (\<lambda>_. [demo_record])"
    using buffered_ok(1) log_ok_frame [of buffered_wal _ w1] r(1,6) by (simp add: wal_ok_def)
  have v: "visits [1] (segments w1)" using r(1) by (simp add: visits_iff buffered_wal_def)
  obtain w2 where w2: "TruncateTo [1] 1 w1 = (None, w2)" "faults (wDisk w2) = []"
    using TruncateTo_clean [OF ok1 v w1(2)] by blast
  have old1: "fmpred (\<lambda>_ seg. sgLast seg \<le> 1) (segments w1)" using old r(1) by simp
  note t = TruncateTo_all [OF ok1 v old1 w2(1)]
  obtain w3 d3 where w3: "Wal_Open 1024 (wDisk w2) = (Inr w3, d3)" "faults (wDisk w3) = []"
    by (rule reopen_clean [OF t(1) w2(2)]) (use t(7) r(5) in simp)
  note o3 = Wal_Open_synced [OF t(1,8) refl w3(1)]
  have n3: "nextSeq w3 = 1" by (rule reopen_truncated [OF t(1) _ t(8,3) refl w3(1)]) simp
  have "top_index (segments w3) = 1" using o3(4) t(3) by (intro top_index_single) simp_all
  then have idx: "top_index (segments w3) + int (length [old_record]) < 2 ^ 63" by simp
  obtain w4 where w4: "append_all [old_record] w3 = (None, w4)" "faults (wDisk w4) = []"
    using append_all_clean [OF o3(1) idx w3(2)] by blast
  from append_all_effect [OF o3(1) idx w4(1)] obtain recs4 where r4: "wal_ok w4 recs4"
      "\<And>k. \<not> segment_file k \<Longrightarrow> fmlookup (files (wDisk w4)) k = fmlookup (files (wDisk w3)) k" by auto
  obtain w5 where w5: "Sync w4 = (None, w5)" "faults (wDisk w5) = []" using Sync_clean [OF r4(1) w4(2)] by blast
  note e5 = Sync_effect [OF r4(1) w5(1)]
  have "checkpoint_value (wDisk w5) = checkpoint_value (wDisk w2)"
    using e5(8) [of checkpointName] r4(2) [of checkpointName] not_segment_file(1)
      Wal_Open_files [OF t(1) t(8) refl w3(1)] by (simp add: checkpoint_value_def)
  then have cp: "checkpoint_value (wDisk w5) = Some (nextReplay w1)" using t(7) r(5) by simp
  obtain w6 d6 where w6: "Wal_Open 1024 (wDisk w5) = (Inr w6, d6)" "faults (wDisk w6) = []"
    by (rule reopen_clean [OF e5(1) w5(2) cp])
  from restart_skips_new_records [OF buffered_ok(1) old _ w1(1) v w2(1) refl w3(1) w4(1) w5(1) _ _ refl w6,
      of "\<lambda>r rs. (None, rs @ [r])" "[]"]
  show ?thesis using w4(1) w5(1) n3 by auto
qed

text \<open>
  A write error is permanent: once the current segment's writer has failed, every append,
  rotation included, and every synchronisation reports an error, assigns no sequence number
  and leaves the files as they are.
\<close>

theorem broken_writer_rejects:
  assumes c: "currentLocked w = Some (i, seg)" and b: "wBroken (sgWriter seg)"
  shows "\<exists>w'. Wal_Append r w = (Inl ErrIO, w') \<and> nextSeq w' = nextSeq w \<and> wDisk w' = wDisk w
    \<and> currentLocked w' = Some (i, seg) \<and> Sync w = (Some ErrIO, w')"
proof -
  have at: "fmlookup (segments w) (top_index (segments w)) = Some seg" and i: "i = top_index (segments w)"
    using c by (auto simp: currentLocked_def Let_def split: option.splits)
  let ?w = "w\<lparr>segments := fmupd i seg (segments w), wDisk := wDisk w\<rparr>"
  have f: "flush_at i seg w = (Some ErrIO, ?w)"
    using b by (simp add: flush_at_def seg_flush_def bufio_flush_def)
  have "write_current (r\<lparr>rSeq := nextSeq w\<rparr>) w = (Inl ErrIO, ?w)"
    using b c by (simp add: write_current_def seg_write_def bufio_write.simps Let_def)
  then have "Wal_Append r w = (Inl ErrIO, ?w)" using c f by (simp add: Wal_Append_def rotateLocked_def Let_def)
  moreover have "currentLocked ?w = Some (i, seg)"
    using top_index_update [OF at, of seg] by (simp add: currentLocked_def Let_def i)
  moreover have "Sync w = (Some ErrIO, ?w)" using c f by (simp add: Sync_def)
  ultimately show ?thesis by (intro exI [of _ ?w]) simp
qed

definition broken_wal :: wal where
  "broken_wal = buffered_wal\<lparr>segments := fmupd 1 \<lparr>sgName = segment_name 1, sgWriter = \<lparr>wBuf = [], wBroken = True, wClosed = False\<rparr>,
     sgFirst = 1, sgLast = 1, sgSize = 37\<rparr> fmempty\<rparr>"

theorem broken_writer_rejects_witness:
  "\<exists>w'. Wal_Append demo_record broken_wal = (Inl ErrIO, w') \<and> Sync broken_wal = (Some ErrIO, w')"
proof -
  have "top_index (segments broken_wal) = 1" by (rule top_index_single) (simp_all add: broken_wal_def)
  then obtain seg where "currentLocked broken_wal = Some (1, seg)" "wBroken (sgWriter seg)"
    by (simp add: currentLocked_def Let_def) (simp add: broken_wal_def)
  from broken_writer_rejects [OF this, of demo_record] show ?thesis by blast
qed

text \<open>A segment whose file has been closed fails every flush.\<close>

lemma drop_segments_skip:
  "\<nexists>seg. fmlookup (segments w) i = Some seg \<and> old seg \<Longrightarrow> drop_segments old (i # ks) w = drop_segments old ks w"
  by (cases "fmlookup (segments w) i") simp_all

lemma drop_segments_subset:
  "fmlookup (segments (snd (drop_segments old ks w))) j \<noteq> None \<Longrightarrow> fmlookup (segments w) j \<noteq> None"
proof (induction ks arbitrary: w)
  case (Cons i ks)
  show ?case
  proof (cases "\<exists>s. fmlookup (segments w) i = Some s \<and> old s")
    case False
    with drop_segments_skip [OF this, of ks] Cons show ?thesis by simp
  next
    case True
    then obtain s where s: "fmlookup (segments w) i = Some s" "old s" by blast
    obtain e w1 where f: "flush_close i s w = (e, w1)" by (rule prod.exhaust)
    obtain e2 d where r: "os_remove (sgName s) (wDisk w1) = (e2, d)" by (rule prod.exhaust)
    show ?thesis
    proof (cases "j = i")
      case True
      with s show ?thesis by simp
    next
      case False
      then have "fmlookup (segments w1) j = fmlookup (segments w) j" using flush_close_others [of j i s w] f by simp
      with Cons.prems s f r False Cons.IH [of "w1\<lparr>segments := fmdrop i (segments w1), wDisk := d\<rparr>"] show ?thesis
        by (cases e; cases e2) simp_all
    qed
  qed
qed simp

lemma rewrite_closed:
  assumes "currentLocked w = Some (i, seg)" and "wClosed (sgWriter seg)"
  shows "fst (rewrite_current s w) \<noteq> None"
proof -
  have "fst (swap_in tmp i seg w) \<noteq> None" for tmp w
    using closed_flush_close [OF assms(2), of i w] by (cases "flush_close i seg w") (auto simp: swap_in_def)
  with assms(1) show ?thesis by (auto simp: rewrite_current_def Let_def split: prod.splits option.splits)
qed

lemma drop_segments_closed:
  assumes "fmlookup (segments w) i = Some seg" and "wClosed (sgWriter seg)" and "drop_segments old ks w = (None, w')"
  shows "fmlookup (segments w') i = Some seg \<and> (i \<in> set ks \<longrightarrow> \<not> old seg)"
  using assms
proof (induction ks arbitrary: w)
  case (Cons j ks)
  show ?case
  proof (cases "\<exists>s. fmlookup (segments w) j = Some s \<and> old s")
    case False
    from Cons.prems(3) have "drop_segments old ks w = (None, w')" by (simp only: drop_segments_skip [OF False])
    from Cons.IH [OF Cons.prems(1,2) this] False Cons.prems(1) show ?thesis by auto
  next
    case True
    then obtain s where s: "fmlookup (segments w) j = Some s" "old s" by blast
    then obtain w2 d where fc: "flush_close j s w = (None, w2)"
      and rest: "drop_segments old ks (w2\<lparr>segments := fmdrop j (segments w2), wDisk := d\<rparr>) = (None, w')"
      using Cons.prems(3) by (auto split: prod.splits option.splits)
    have open_s: "\<not> wClosed (sgWriter s)" using closed_flush_close [of s j w] fc by auto
    then have "i \<noteq> j" using Cons.prems(1,2) s(1) by auto
    then have "fmlookup (segments (w2\<lparr>segments := fmdrop j (segments w2), wDisk := d\<rparr>)) i = Some seg"
      using Cons.prems(1) flush_close_others [of i j s w] fc by simp
    from Cons.IH [OF this Cons.prems(2) rest] \<open>i \<noteq> j\<close> show ?thesis by simp
  qed
qed simp

text \<open>
  So is a truncation that fails after it has closed the current segment's file: the segment
  stays the current one with its file closed. From then on no synchronisation and no truncation
  succeeds, whatever the system does, and no synchronisation changes a file.
\<close>

theorem closed_segment_stuck:
  assumes c: "currentLocked w = Some (i, seg)" and b: "wClosed (sgWriter seg)"
  shows "\<exists>w' seg'. Sync w = (Some ErrIO, w') \<and> wDisk w' = wDisk w
      \<and> currentLocked w' = Some (i, seg') \<and> wClosed (sgWriter seg')"
    and "visits ks (segments w) \<Longrightarrow> fst (TruncateTo ks s w) \<noteq> None"
proof -
  have at: "fmlookup (segments w) i = Some seg" and i: "i = top_index (segments w)"
    using c by (auto simp: currentLocked_def Let_def split: option.splits)
  obtain seg' where f: "seg_flush seg (wDisk w) = (Some ErrIO, seg', wDisk w)" "wClosed (sgWriter seg')"
    using closed_seg_flush [OF b] by blast
  let ?w = "w\<lparr>segments := fmupd i seg' (segments w), wDisk := wDisk w\<rparr>"
  have "Sync w = (Some ErrIO, ?w)" using c f(1) by (simp add: Sync_def flush_at_def)
  moreover have "currentLocked ?w = Some (i, seg')"
    using top_index_update [OF at, of seg'] by (simp add: currentLocked_def Let_def flip: i)
  ultimately show "\<exists>w' seg'. Sync w = (Some ErrIO, w') \<and> wDisk w' = wDisk w
      \<and> currentLocked w' = Some (i, seg') \<and> wClosed (sgWriter seg')"
    using f(2) by (intro exI [of _ ?w] exI [of _ seg']) simp
  show "fst (TruncateTo ks s w) \<noteq> None" if ks: "visits ks (segments w)"
  proof
    assume "fst (TruncateTo ks s w) = None"
    then obtain w1 where d: "drop_segments (\<lambda>seg. sgLast seg \<le> s) ks w = (None, w1)"
      and r: "fst (if fmsize (segments w1) = 0 then rotate_log w1 else rewrite_current s w1) = None"
      by (auto simp: TruncateTo_def split: prod.splits option.splits)
    note keep = drop_segments_closed [OF at b d]
    have in_ks: "i \<in> set ks" using visits_mem [OF ks, of i] at by simp
    have "fmsize (segments w1) \<noteq> 0" using keep by (metis fmempty_lookup fmsize_0_iff option.distinct(1))
    moreover have "top_index (segments w1) = i"
    proof (rule top_index_eqI [of _ _ seg])
      fix j t
      assume "fmlookup (segments w1) j = Some t"
      then have "fmlookup (segments w) j \<noteq> None" using drop_segments_subset [of "\<lambda>seg. sgLast seg \<le> s" ks w j] d by simp
      then show "j \<le> i" using top_index_ge(1) i by auto
    qed (use keep top_index_ge(2) i in auto)
    then have "currentLocked w1 = Some (i, seg)" using keep by (simp add: currentLocked_def)
    ultimately show False using r rewrite_closed [OF _ b] by simp
  qed
qed

text \<open>The same log when the rename at the end of the truncation fails, and no call after it.\<close>

definition unlucky_wal :: wal where
  "unlucky_wal = buffered_wal\<lparr>wDisk := (wDisk buffered_wal)\<lparr>faults := replicate 8 None @ [Some 0]\<rparr>\<rparr>"

theorem closed_segment_stuck_witness:
  "\<exists>w1. TruncateTo [1] 0 unlucky_wal = (Some ErrIO, w1) \<and> faults (wDisk w1) = []
    \<and> fst (Sync w1) = Some ErrIO \<and> fst (TruncateTo [1] 0 w1) \<noteq> None"
proof -
  have "top_index (segments unlucky_wal) = 1"
    by (rule top_index_single) (simp_all add: unlucky_wal_def buffered_wal_def)
  moreover have "scanRecords [] (0 + 1) f s = (None, s)" for f and s :: "wal_record list"
    by (simp add: scanRecords_def scan_lines.simps)
  moreover have "logged [demo_record] \<noteq> []" by (simp add: encodeRecord_def)
  moreover have "fmsize (fmupd (1 :: int) (seg :: segment) fmempty) \<noteq> 0" for seg
    by (metis fmempty_lookup fmsize_0_iff fmupd_lookup option.distinct(1))
  moreover have "tmp_name (segment_name 1) \<noteq> segment_name 1" by (simp add: tmp_name_def)
  ultimately obtain w1 seg where t: "TruncateTo [1] 0 unlucky_wal = (Some ErrIO, w1)" "faults (wDisk w1) = []"
      "segments w1 = fmupd 1 seg fmempty" "wClosed (sgWriter seg)"
    by (simp add: TruncateTo_def unlucky_wal_def buffered_wal_def rewrite_current_def currentLocked_def Let_def
        os_open_def os_read_def os_create_trunc_def next_fault_def content_def write_tmp_def bufio_flush_def new_writer_def
        os_call_def swap_in_def flush_close_def seg_flush_def file_write_def os_append_def append_bytes_def seg_close_def
        os_rename_def numeral_eq_Suc del: logged_simps)
  from t(3) have top: "top_index (segments w1) = 1" by (intro top_index_single) simp_all
  then have c: "currentLocked w1 = Some (1, seg)" using t(3) by (simp add: currentLocked_def)
  have v: "visits [1] (segments w1)" using t(3) by (simp add: visits_iff)
  have "fst (Sync w1) = Some ErrIO" using closed_segment_stuck(1) [OF c t(4)] by auto
  moreover have "fst (TruncateTo [1] 0 w1) \<noteq> None" by (rule closed_segment_stuck(2) [OF c t(4) v])
  ultimately show ?thesis using t(1,2) by blast
qed

text \<open>
  C31. On a disk without faults the log never gets stuck: from every well-formed state, whose
  segments' files are open and whose writers hold no error, append, synchronisation, moving the
  watermark and truncation all return without an error. (What failing calls
  can do is another matter, see \<open>closed_segment_stuck\<close> above.)
\<close>

theorem log_never_stuck:
  assumes "wal_ok w recs" and "faults (wDisk w) = []" and "top_index (segments w) + 1 < 2 ^ 63" and "visits ks (segments w)"
  shows "(\<exists>w'. Wal_Append r w = (Inr (nextSeq w), w')) \<and> (\<exists>w'. Sync w = (None, w'))
    \<and> (\<exists>w'. SetReplayStart s w = (None, w')) \<and> (\<exists>w'. TruncateTo ks s w = (None, w'))"
  using Wal_Append_clean [OF assms(1,3,2)] Sync_clean [OF assms(1,2)] SetReplayStart_clean [OF assms(2)]
    TruncateTo_clean [OF assms(1,4,2)] by blast

theorem log_never_stuck_witness:
  "(\<exists>w'. Wal_Append demo_record buffered_wal = (Inr 2, w')) \<and> (\<exists>w'. TruncateTo [1] 0 buffered_wal = (None, w'))"
proof -
  have v: "visits [1] (segments buffered_wal)" by (simp add: visits_iff buffered_wal_def)
  have "top_index (segments buffered_wal) = 1"
    by (rule top_index_eqI [of _ 1]) (auto simp: buffered_wal_def split: if_splits)
  with log_never_stuck [OF buffered_ok(1) _ _ v, of demo_record 0] show ?thesis
    by (simp add: buffered_wal_def)
qed

end
