(* ===== verification/IngestFlow.thy ===== *)
theory IngestFlow
  imports IngestPipe WalGuarantees
begin

text \<open>
  The invariant of the write path and what its operations do to the points a query sees:
  an acknowledged append is visible, a flush keeps the points of the active window and drops
  the others, recovery does the same to the replayed log, and an append that is between its
  log record and its memtable write when a flush runs is no longer on the log afterwards.
\<close>

section \<open>The invariant\<close>

definition ingest_inv :: "ingest \<Rightarrow> bool" where
  "ingest_inv inp \<longleftrightarrow> index_inv (inIdx inp) \<and> mem_inv (inMem inp) \<and> db_inv (inDb inp)
     \<and> blocks_sorted (dbStore (inDb inp)) \<and> refs_ok (inDb inp)
     \<and> routed (dbShards (inDb inp)) (byID (current (inMem inp)))"

definition room :: "ingest \<Rightarrow> bool" where
  "room inp \<longleftrightarrow> ixNextID (inIdx inp) + 1 \<noteq> 0 \<and> sNextID (dbStore (inDb inp)) + 1 \<noteq> 0"

lemma ingest_inv_shards: "ingest_inv inp \<Longrightarrow> shards (dbShards (inDb inp)) \<noteq> []"
  by (simp add: ingest_inv_def db_inv_def mgr_inv_def)

lemma count_metric_frame [simp]:
  "dbStore (count_metric n d db) = dbStore db" "dbShards (count_metric n d db) = dbShards db"
  by (simp_all add: count_metric_def)

lemma inv_count [simp]:
  "db_inv (count_metric n d db) = db_inv db" "refs_ok (count_metric n d db) = refs_ok db"
  by (simp_all add: db_inv_def refs_ok_def)

lemma SeriesOf_effect:
  assumes "ingest_inv inp" and "room inp" and s: "SeriesOf ordL name labels inp = (r, inp')"
  shows "ingest_inv inp'" "inWal inp' = inWal inp" "inMem inp' = inMem inp"
    "flushThreshold inp' = flushThreshold inp" "lastFlushSeq inp' = lastFlushSeq inp"
    "dbStore (inDb inp') = dbStore (inDb inp)" "dbShards (inDb inp') = dbShards (inDb inp)"
    "r = Inr meta \<Longrightarrow> \<exists>clean. SanitizeLabels (ordL labels) labels = Inr clean
       \<and> entry (inIdx inp') (LabelsKey \<lparr>ID = 0, Name = name, Labels = clean\<rparr>) = Some meta"
proof -
  consider (bad) e where "r = Inl e" "inp' = inp"
    | (hit) clean meta where "SanitizeLabels (ordL labels) labels = Inr clean" "r = Inr meta" "inp' = inp"
        "entry (inIdx inp) (LabelsKey \<lparr>ID = 0, Name = name, Labels = clean\<rparr>) = Some meta"
    | (new) clean e c ix where "SanitizeLabels (ordL labels) labels = Inr clean"
        "Register \<lparr>ID = 0, Name = name, Labels = clean\<rparr> (inIdx inp) = ((e, c), ix)" "r = Inr e"
        "inp' = inp\<lparr>inIdx := ix, inDb := (if c then count_metric ''series_registered'' 1 (inDb inp) else inDb inp)\<rparr>"
  proof (cases "ValidName name")
    case False
    with s show ?thesis by (intro that(1) [of ErrInvalidName]) (simp_all add: SeriesOf_def)
  next
    case True
    show ?thesis
    proof (cases "SanitizeLabels (ordL labels) labels")
      case (Inl e)
      with s True show ?thesis by (intro that(1) [of e]) (simp_all add: SeriesOf_def)
    next
      case (Inr clean)
      let ?m = "\<lparr>ID = 0, Name = name, Labels = clean\<rparr>"
      show ?thesis
      proof (cases "entry (inIdx inp) (LabelsKey ?m)")
        case (Some e)
        with s True Inr show ?thesis by (intro that(2) [OF Inr, of e]) (simp_all add: SeriesOf_def Lookup_entry)
      next
        case None
        obtain e c ix where "Register ?m (inIdx inp) = ((e, c), ix)" by (metis prod.exhaust)
        with s True Inr None show ?thesis
          by (intro that(3) [OF Inr, of e c ix]) (simp_all add: SeriesOf_def Lookup_entry)
      qed
    qed
  qed
  then have "ingest_inv inp' \<and> inWal inp' = inWal inp \<and> inMem inp' = inMem inp
    \<and> flushThreshold inp' = flushThreshold inp \<and> lastFlushSeq inp' = lastFlushSeq inp
    \<and> dbStore (inDb inp') = dbStore (inDb inp) \<and> dbShards (inDb inp') = dbShards (inDb inp)
    \<and> (r = Inr meta \<longrightarrow> (\<exists>clean. SanitizeLabels (ordL labels) labels = Inr clean
       \<and> entry (inIdx inp') (LabelsKey \<lparr>ID = 0, Name = name, Labels = clean\<rparr>) = Some meta))"
  proof cases
    case new
    have "entry ix (LabelsKey \<lparr>ID = 0, Name = name, Labels = clean\<rparr>) = Some e \<and> index_inv ix"
      using ix.register_stored [OF _ _ new(2)] assms(1,2) by (simp add: ingest_inv_def room_def)
    with new assms(1) show ?thesis by (auto simp: ingest_inv_def)
  qed (use assms(1) in auto)
  then show "ingest_inv inp'" "inWal inp' = inWal inp" "inMem inp' = inMem inp"
    "flushThreshold inp' = flushThreshold inp" "lastFlushSeq inp' = lastFlushSeq inp"
    "dbStore (inDb inp') = dbStore (inDb inp)" "dbShards (inDb inp') = dbShards (inDb inp)"
    "r = Inr meta \<Longrightarrow> \<exists>clean. SanitizeLabels (ordL labels) labels = Inr clean
       \<and> entry (inIdx inp') (LabelsKey \<lparr>ID = 0, Name = name, Labels = clean\<rparr>) = Some meta"
    by blast+
qed

text \<open>Routing keeps the windows' ends: what was routed stays routed.\<close>

lemma Route_end:
  assumes "mgr_inv m" and "fits m ts"
  shows "shEnd (last (shards m)) \<le>s shEnd (last (shards (snd (Route ts m))))"
    and "fst (Route ts m) = Inr i \<Longrightarrow> ts <s shEnd (last (shards (snd (Route ts m))))"
    and "fst (Route ts m) = Inr i \<Longrightarrow> shStart (last (shards (snd (Route ts m)))) \<le>s ts"
proof -
  have inv: "mgr_inv (snd (Route ts m))" by (rule Route_inv [OF assms])
  have c: "covers (last (shards (snd (Route ts m)))) ts" if "fst (Route ts m) = Inr i" for i
  proof -
    have "Route ts m = (Inr i, snd (Route ts m))" using that by (simp add: prod_eq_iff)
    from Route_covers [OF assms this] have "covers (shards (snd (Route ts m)) ! (length (shards (snd (Route ts m))) - 1)) ts"
      by blast
    moreover have "shards (snd (Route ts m)) \<noteq> []" using inv by (simp add: mgr_inv_def)
    ultimately show ?thesis by (simp add: last_conv_nth)
  qed
  show "fst (Route ts m) = Inr i \<Longrightarrow> ts <s shEnd (last (shards (snd (Route ts m))))"
    "fst (Route ts m) = Inr i \<Longrightarrow> shStart (last (shards (snd (Route ts m)))) \<le>s ts"
    using c by (simp_all add: covers_def)
  consider "snd (Route ts m) = m" | "shEnd (last (shards m)) \<le>s ts" "fst (Route ts m) = Inr (length (shards m))"
    by (rule Route_cases [OF assms(1), of ts]) simp_all
  then show "shEnd (last (shards m)) \<le>s shEnd (last (shards (snd (Route ts m))))"
  proof cases
    case 2
    from c [OF this(2)] 2(1) show ?thesis by (simp add: covers_def go_int)
  qed (simp add: go_int)
qed

lemma routed_mono:
  "routed m by_id \<Longrightarrow> shEnd (last (shards m)) \<le>s shEnd (last (shards m')) \<Longrightarrow> routed m' by_id"
  by (fastforce simp: routed_def go_int)

lemma Route_blocks:
  assumes "mgr_inv m" and "sh \<in> set (shards (snd (Route ts m)))" and "bid \<in> set (shBlocks sh)"
  shows "\<exists>sh0 \<in> set (shards m). bid \<in> set (shBlocks sh0)"
  by (rule Route_cases [OF assms(1), of ts]) (use assms(2,3) in \<open>auto simp: new_shard_def\<close>)

lemma write_points_subset: "set (write_points p pts) \<subseteq> insert p (set pts) \<union> (\<lambda>q. q\<lparr>Value := Value p\<rparr>) ` set pts"
proof
  fix x
  assume x: "x \<in> set (write_points p pts)"
  let ?i = "mem_lb pts (TS p)"
  show "x \<in> insert p (set pts) \<union> (\<lambda>q. q\<lparr>Value := Value p\<rparr>) ` set pts"
  proof (cases "?i < length pts \<and> TS (pts ! ?i) = TS p")
    case True
    with x have "x \<in> set (pts[?i := (pts ! ?i)\<lparr>Value := Value p\<rparr>])" by (simp add: write_points_def Let_def)
    with set_update_subset_insert have "x = (pts ! ?i)\<lparr>Value := Value p\<rparr> \<or> x \<in> set pts" by fastforce
    with True show ?thesis by auto
  next
    case False
    with x show ?thesis by (auto simp: write_points_def Let_def dest: in_set_takeD in_set_dropD)
  qed
qed

lemma routed_Write:
  assumes "routed m (byID (current mem))" and "TS p <s shEnd (last (shards m))"
  shows "routed m (byID (current (Write p mem)))"
proof -
  have "TS q <s shEnd (last (shards m))"
    if "q \<in> set (write_points p (series_of (byID (current mem)) sid))" for q sid
    using that write_points_subset [of p "series_of (byID (current mem)) sid"] assms
    by (auto simp: routed_def)
  with assms(1) show ?thesis by (auto simp: routed_def Write_current)
qed

lemma Len_Write [simp]: "Len (Write p m) = Suc (Len m)"
  by (simp add: Len_def Write_current)

section \<open>Flushing keeps the invariant\<close>

lemma routed_empty [simp]: "routed m fmempty"
  by (simp add: routed_def)

lemma store_kept_inv:
  assumes "db_inv db" and "blocks_sorted (dbStore db)" and "refs_ok db"
    and fresh: "sNextID (dbStore db) + 1 \<noteq> 0" and srt: "\<And>sid. time_sorted (series_of by_id sid)"
  shows "db_inv (store_kept ordS by_id db)" "blocks_sorted (dbStore (store_kept ordS by_id db))"
    "refs_ok (store_kept ordS by_id db)"
proof -
  let ?grp = "kept (dbShards db) by_id" and ?db' = "store_kept ordS by_id db"
  have "db_inv ?db' \<and> blocks_sorted (dbStore ?db') \<and> refs_ok ?db'"
  proof (cases "?grp = fmempty")
    case True
    with assms show ?thesis by (simp add: store_kept_def)
  next
    case False
    obtain mn mx where mm: "groupMinMax ordS ?grp = (mn, mx)" by (rule prod.exhaust)
    let ?s' = "snd (Create ?grp mn mx (dbStore db))"
    have db': "dbStore ?db' = on_block (sNextID (dbStore db) + 1) Block_Seal ?s'"
        "dbShards ?db' = on_shard (length (shards (dbShards db)) - 1) (AddBlock (sNextID (dbStore db) + 1)) (dbShards db)"
      using False mm by (simp_all add: store_kept_def Let_def)
    have "store_inv ?s'" using assms(1) fresh by (simp add: db_inv_def Create_inv)
    then have "store_inv (dbStore ?db')" unfolding db' by (rule on_block_inv) simp
    moreover have "mgr_inv (dbShards ?db')"
      using assms(1) by (simp add: db'(2) db_inv_def on_shard_inv)
    moreover have "time_sorted (filter (recent (dbShards db)) (series_of by_id sid))" for sid
      using srt [of sid] by (simp add: time_sorted_def sorted_wrt_filter)
    then have "fmpred (\<lambda>_. time_sorted) ?grp" by (auto simp: fmpred_iff kept_lookup split: if_splits)
    then have "blocks_sorted (dbStore ?db')"
      using assms(2) by (auto simp: db'(1) blocks_sorted_def fmpred_iff on_block_lookup Create_spec split: if_splits)
    moreover have "refs_ok ?db'"
    proof -
      have next_id: "sNextID (dbStore ?db') = sNextID (dbStore db) + 1" by (simp add: db'(1) Create_spec)
      have "bid \<le> sNextID (dbStore db) + 1" if "bid \<le> sNextID (dbStore db)" for bid
        using that less_succ_iff [OF fresh, of bid] by simp
      moreover have "sh \<in> set (shards (dbShards db)) \<or> sh = AddBlock (sNextID (dbStore db) + 1) (last (shards (dbShards db)))"
        if "sh \<in> set (shards (dbShards ?db'))" for sh
        using that assms(1) set_update_subset_insert [of "shards (dbShards db)"]
        by (auto simp: db'(2) on_shard_def db_inv_def mgr_inv_def last_conv_nth)
      moreover have "last (shards (dbShards db)) \<in> set (shards (dbShards db))"
        using assms(1) by (simp add: db_inv_def mgr_inv_def)
      ultimately show ?thesis
        using assms(3) unfolding refs_ok_def next_id by (fastforce simp: AddBlock_def)
    qed
    ultimately show ?thesis by (simp add: db_inv_def)
  qed
  then show "db_inv ?db'" "blocks_sorted (dbStore ?db')" "refs_ok ?db'" by blast+
qed

lemma flushLocked_inv:
  assumes ord: "iterates ordS" and inv: "ingest_inv inp" and fresh: "sNextID (dbStore (inDb inp)) + 1 \<noteq> 0"
    and f: "flushLocked ordS ordW s inp = (e, inp')"
  shows "ingest_inv inp'" "inIdx inp' = inIdx inp"
    "visible sid rng inp' = (if Len (inMem inp) = 0 then visible sid rng inp
      else stored_points sid rng (inDb inp) @ filter (in_range rng)
        (filter (recent (dbShards (inDb inp))) (series_of (byID (current (inMem inp))) sid)))"
    "Len (inMem inp') = 0"
proof -
  note ne = ingest_inv_shards [OF inv]
  have parts: "index_inv (inIdx inp)" "mem_inv (inMem inp)" "db_inv (inDb inp)" "blocks_sorted (dbStore (inDb inp))"
      "refs_ok (inDb inp)" "routed (dbShards (inDb inp)) (byID (current (inMem inp)))"
    using inv by (simp_all add: ingest_inv_def)
  have "ingest_inv inp' \<and> inIdx inp' = inIdx inp \<and> Len (inMem inp') = 0
    \<and> visible sid rng inp' = (if Len (inMem inp) = 0 then visible sid rng inp
      else stored_points sid rng (inDb inp) @ filter (in_range rng)
        (filter (recent (dbShards (inDb inp))) (series_of (byID (current (inMem inp))) sid)))"
  proof (cases "Len (inMem inp) = 0")
    case True
    with f inv show ?thesis by (simp add: flushLocked_def)
  next
    case False
    obtain n where n: "inDb inp' = count_metric ''blocks_flushed'' n
          (store_kept ordS (byID (current (inMem inp))) (inDb inp))"
        "inMem inp' = snd (Flush (inMem inp))" "inIdx inp' = inIdx inp"
      by (rule flushLocked_effect [OF ord ne parts(6) False f])
    note k = store_kept_inv [OF parts(3-5) fresh mem_inv_sorted [OF parts(2)], of ordS]
    have e: "byID (current (snd (Flush (inMem inp)))) = fmempty" "Len (snd (Flush (inMem inp))) = 0"
      by (simp_all add: Flush_def empty_snapshot_def Len_def)
    have "ingest_inv inp'"
      using parts(1) k Flush_inv [of "inMem inp"] by (simp add: ingest_inv_def n e)
    moreover have "visible sid rng inp' = stored_points sid rng (store_kept ordS (byID (current (inMem inp))) (inDb inp))"
      by (simp add: visible_parts n e)
    ultimately show ?thesis
      using False n e by (simp add: stored_points_kept [OF ne parts(6,5) fresh])
  qed
  then show "ingest_inv inp'" "inIdx inp' = inIdx inp" "Len (inMem inp') = 0"
    "visible sid rng inp' = (if Len (inMem inp) = 0 then visible sid rng inp
      else stored_points sid rng (inDb inp) @ filter (in_range rng)
        (filter (recent (dbShards (inDb inp))) (series_of (byID (current (inMem inp))) sid)))"
    by blast+
qed

section \<open>Appending\<close>

text \<open>The state after a routed write, before the flush the threshold may trigger.\<close>

definition written :: "point \<Rightarrow> ingest \<Rightarrow> ingest" where
  "written pt inp = inp\<lparr>inMem := Write pt (inMem inp),
     inDb := count_metric ''points_ingested'' 1
       ((inDb inp)\<lparr>dbShards := snd (Route (TS pt) (dbShards (inDb inp)))\<rparr>)\<rparr>"

lemma append_apply_cases:
  assumes "append_apply ordS ordW (s, pt) inp = (e, inp')"
  obtains (rejected) err where "fst (Route (TS pt) (dbShards (inDb inp))) = Inl err" "e = Some (ErrRoute err)" "inp' = inp"
  | (buffered) i where "fst (Route (TS pt) (dbShards (inDb inp))) = Inr i" "e = None" "inp' = written pt inp"
  | (flushed) i where "fst (Route (TS pt) (dbShards (inDb inp))) = Inr i"
      "flushLocked ordS ordW s (written pt inp) = (e, inp')"
proof -
  obtain r m where rm: "Route (TS pt) (dbShards (inDb inp)) = (r, m)" by (rule prod.exhaust)
  show ?thesis
  proof (cases r)
    case (Inl err)
    with rm Route_error_state [of "TS pt" "dbShards (inDb inp)"] assms show ?thesis
      by (intro that(1) [of err]) (auto simp: append_apply_def)
  next
    case (Inr i)
    have w: "written pt inp = inp\<lparr>inMem := Write pt (inMem inp),
        inDb := count_metric ''points_ingested'' 1 ((inDb inp)\<lparr>dbShards := m\<rparr>)\<rparr>"
      by (simp add: written_def rm)
    show ?thesis
      using assms rm Inr that(2,3)
      by (cases "flushThreshold inp \<le> int (Len (Write pt (inMem inp)))")
        (simp_all add: append_apply_def Let_def w del: Len_Write)
  qed
qed

lemma written_inv:
  assumes inv: "ingest_inv inp" and fits: "fits (dbShards (inDb inp)) (TS pt)"
    and r: "fst (Route (TS pt) (dbShards (inDb inp))) = Inr i"
  shows "ingest_inv (written pt inp)" "inIdx (written pt inp) = inIdx inp"
    "dbStore (inDb (written pt inp)) = dbStore (inDb inp)"
    "recent (dbShards (inDb (written pt inp))) pt"
proof -
  let ?m = "dbShards (inDb inp)" and ?m' = "snd (Route (TS pt) (dbShards (inDb inp)))"
  have m: "mgr_inv ?m" using inv by (simp add: ingest_inv_def db_inv_def)
  note e = Route_end [OF m fits]
  have "routed ?m' (byID (current (inMem inp)))"
    using inv e(1) by (auto simp: ingest_inv_def intro: routed_mono)
  then have "routed ?m' (byID (current (Write pt (inMem inp))))" using e(2) [OF r] by (rule routed_Write)
  moreover have "refs_ok ((inDb inp)\<lparr>dbShards := ?m'\<rparr>)"
    using inv Route_blocks [OF m, of _ "TS pt"] by (fastforce simp: ingest_inv_def refs_ok_def)
  ultimately show "ingest_inv (written pt inp)"
    using inv Write_inv [of "inMem inp" pt] Route_inv [OF m fits]
    by (simp add: ingest_inv_def written_def db_inv_def)
  show "recent (dbShards (inDb (written pt inp))) pt"
    using e(3) [OF r] by (simp add: recent_def written_def)
qed (simp_all add: written_def)

lemma written_member:
  assumes "mem_inv (inMem inp)"
  shows "pt \<in> set (series_of (byID (current (inMem (written pt inp)))) (SeriesID pt))"
proof -
  have inv: "mem_inv (Write pt (inMem inp))" using assms by (rule Write_inv)
  have "mem_value (Write pt (inMem inp)) (SeriesID pt) (TS pt) = Some (Value pt)"
    using Write_value [OF assms, of pt] by simp
  then obtain q where q: "q \<in> set (series_of (byID (current (Write pt (inMem inp)))) (SeriesID pt))"
      "TS q = TS pt" "Value q = Value pt"
    using mem_value_Some [OF inv] by blast
  moreover have "SeriesID q = SeriesID pt"
    using q(1) series_ok_ids [of "byID (current (Write pt (inMem inp)))"] inv by (auto simp: mem_inv_def)
  ultimately have "q = pt" by simp
  with q(1) show ?thesis by (simp add: written_def)
qed

lemma append_log_effect:
  assumes "ingest_inv inp" and "room inp" and a: "append_log ordL name labels ts v inp = (r, inp')"
  shows "ingest_inv inp'" "dbStore (inDb inp') = dbStore (inDb inp)" "dbShards (inDb inp') = dbShards (inDb inp)"
    "inMem inp' = inMem inp"
    "r = Inr (s, pt) \<Longrightarrow> TS pt = ts \<and> Value pt = v \<and> (\<exists>clean meta. SanitizeLabels (ordL labels) labels = Inr clean
       \<and> entry (inIdx inp') (LabelsKey \<lparr>ID = 0, Name = name, Labels = clean\<rparr>) = Some meta \<and> SeriesID pt = ID meta)"
proof -
  obtain r1 inp1 where s: "SeriesOf ordL name labels inp = (r1, inp1)" by (rule prod.exhaust)
  note e = SeriesOf_effect [OF assms(1,2) s]
  obtain w where w: "inp' = inp1\<lparr>inWal := w\<rparr>"
      "r = Inr (s, pt) \<Longrightarrow> \<exists>meta. r1 = Inr meta \<and> pt = \<lparr>TS = ts, Value = v, SeriesID = ID meta\<rparr>"
  proof (cases r1)
    case (Inl err)
    with a s show ?thesis by (intro that [of "inWal inp1"]) (simp_all add: append_log_def)
  next
    case (Inr meta)
    obtain r2 w where "Wal_Append \<lparr>rSeq = 0, rSeriesID = ID meta, rTS = ts, rValue = v\<rparr> (inWal inp1) = (r2, w)"
      by (rule prod.exhaust)
    with a s Inr show ?thesis by (intro that [of w]; cases r2) (auto simp: append_log_def)
  qed
  show "ingest_inv inp'" using e(1) by (simp add: w(1) ingest_inv_def)
  show "dbStore (inDb inp') = dbStore (inDb inp)" "dbShards (inDb inp') = dbShards (inDb inp)"
    "inMem inp' = inMem inp" using e by (simp_all add: w(1))
  assume "r = Inr (s, pt)"
  then obtain meta where "r1 = Inr meta" "pt = \<lparr>TS = ts, Value = v, SeriesID = ID meta\<rparr>" using w(2) by blast
  with e(8) [of meta] show "TS pt = ts \<and> Value pt = v \<and> (\<exists>clean meta. SanitizeLabels (ordL labels) labels = Inr clean
       \<and> entry (inIdx inp') (LabelsKey \<lparr>ID = 0, Name = name, Labels = clean\<rparr>) = Some meta \<and> SeriesID pt = ID meta)"
    by (auto simp: w(1))
qed

section \<open>A small pipeline\<close>

definition idle_wal :: wal where
  "idle_wal = \<lparr>segments = fmempty, nextSeq = 1, nextReplay = 0, maxSize = 1024,
     wDisk = \<lparr>files = fmempty, faults = []\<rparr>\<rparr>"

definition idle_ingest :: ingest where
  "idle_ingest = \<lparr>inIdx = NewIndex 4, inWal = idle_wal, inMem = NewMem, inDb = demo_db,
     flushThreshold = 4096, lastFlushSeq = 0\<rparr>"

lemma demo_inv: "mgr_inv demo_manager" "db_inv demo_db" "refs_ok demo_db"
  by (simp_all add: demo_manager_def mgr_inv_def new_shard_def window_ok_def ascending_def db_inv_def demo_facts
      refs_ok_def go_int)

lemma idle_inv: "ingest_inv idle_ingest" "room idle_ingest"
  using NewIndex_inv [of 4] demo_inv NewMem_inv demo_query_facts(2)
  by (simp_all add: ingest_inv_def idle_ingest_def demo_facts room_def NewMem_def empty_snapshot_def)
     (simp add: NewIndex_def)

definition busy_point :: point where
  "busy_point = \<lparr>TS = 100, Value = 0x3FF0000000000000, SeriesID = 7\<rparr>"

definition busy_ingest :: ingest where
  "busy_ingest = written busy_point idle_ingest"

lemma busy_route: "Route 100 demo_manager = (Inr 0, demo_manager)"
  by (simp add: demo_manager_def Route_def new_shard_def go_int)

lemma busy_inv: "ingest_inv busy_ingest" "sNextID (dbStore (inDb busy_ingest)) + 1 \<noteq> 0"
    "Len (inMem busy_ingest) = 1" "series_of (byID (current (inMem busy_ingest))) 7 = [busy_point]"
    "dbShards (inDb busy_ingest) = demo_manager" "inWal busy_ingest = idle_wal"
proof -
  have f: "fits (dbShards (inDb idle_ingest)) (TS busy_point)"
    "fst (Route (TS busy_point) (dbShards (inDb idle_ingest))) = Inr 0"
    by (simp_all add: fits_def idle_ingest_def demo_facts busy_point_def busy_route)
       (simp add: demo_manager_def go_int)
  show "ingest_inv busy_ingest" unfolding busy_ingest_def by (rule written_inv(1) [OF idle_inv(1) f])
qed (simp_all add: busy_ingest_def written_def idle_ingest_def demo_facts Len_def NewMem_def Write_current
    busy_point_def empty_snapshot_def write_points_def mem_lb_def sort_search_def search_loop_stop busy_route)

text \<open>A point in the first window, then one in the next: the first window is sealed by the second append.\<close>

definition late_point :: point where
  "late_point = \<lparr>TS = 4000, Value = 0x4008000000000000, SeriesID = 7\<rparr>"

definition two_windows :: ingest where
  "two_windows = written late_point busy_ingest"

lemma late_route:
  "Route 4000 demo_manager = (Inr 1, \<lparr>window = 3600,
     shards = [seal_before 3600 (new_shard 1 0 3600), new_shard 2 3600 3600], mNextID = 3\<rparr>)"
proof -
  have "aligned 3600 4000 = 3600"
    by (simp add: aligned_def bucket_start_def go_rem_def signed_modulo_int_def)
  then show ?thesis by (simp add: demo_manager_def Route_def new_shard_def go_int)
qed

lemma two_windows_facts:
  "ingest_inv two_windows" "sNextID (dbStore (inDb two_windows)) + 1 \<noteq> 0"
  "Len (inMem two_windows) = 2" "nextSeq (inWal two_windows) = 1"
  "series_of (byID (current (inMem two_windows))) 7 = [busy_point, late_point]"
  "dbShards (inDb two_windows) = \<lparr>window = 3600,
     shards = [seal_before 3600 (new_shard 1 0 3600), new_shard 2 3600 3600], mNextID = 3\<rparr>"
proof -
  have r: "fits (dbShards (inDb busy_ingest)) (TS late_point)"
    "fst (Route (TS late_point) (dbShards (inDb busy_ingest))) = Inr 1"
    by (simp_all add: busy_inv fits_def late_point_def late_route) (simp add: demo_manager_def go_int)
  note w = written_inv [OF busy_inv(1) r]
  show "ingest_inv two_windows" using w(1) by (simp add: two_windows_def)
  show "sNextID (dbStore (inDb two_windows)) + 1 \<noteq> 0" using busy_inv(2) w(3) by (simp add: two_windows_def)
  have "write_points late_point [busy_point] = [busy_point, late_point]"
  proof -
    have "mem_lb [busy_point] 4000 = 1"
      by (simp add: mem_lb_def sort_search_def busy_point_def search_loop_step search_loop_stop go_int)
    then show ?thesis by (simp add: write_points_def late_point_def Let_def)
  qed
  then show "series_of (byID (current (inMem two_windows))) 7 = [busy_point, late_point]"
    using busy_inv(4) by (simp add: two_windows_def written_def Write_current late_point_def)
  show "Len (inMem two_windows) = 2" "nextSeq (inWal two_windows) = 1"
    using busy_inv(3,6) by (simp_all add: two_windows_def written_def idle_wal_def)
  show "dbShards (inDb two_windows) = \<lparr>window = 3600,
     shards = [seal_before 3600 (new_shard 1 0 3600), new_shard 2 3600 3600], mNextID = 3\<rparr>"
    using busy_inv(5) by (simp add: two_windows_def written_def late_point_def late_route)
qed

lemma Append_inv:
  assumes "iterates ordS" and "ingest_inv inp" and "room inp" and "fits (dbShards (inDb inp)) ts"
  shows "ingest_inv (snd (Ingest_Append ordL ordS ordW name labels ts v inp))"
proof -
  obtain r inp1 where l: "append_log ordL name labels ts v inp = (r, inp1)" by (rule prod.exhaust)
  note e = append_log_effect [OF assms(2,3) l]
  show ?thesis
  proof (cases r)
    case (Inl err)
    with l e(1) show ?thesis by (simp add: Ingest_Append_def)
  next
    case (Inr sp)
    obtain s pt where sp: "sp = (s, pt)" by (rule prod.exhaust)
    obtain res inp2 where a: "append_apply ordS ordW (s, pt) inp1 = (res, inp2)" by (rule prod.exhaust)
    have fits: "fits (dbShards (inDb inp1)) (TS pt)" using assms(4) e(3) e(5) [of s pt] Inr sp by simp
    have "ingest_inv inp2"
      using a
    proof (cases rule: append_apply_cases)
      case (flushed i)
      note w = written_inv [OF e(1) fits flushed(1)]
      have "sNextID (dbStore (inDb (written pt inp1))) + 1 \<noteq> 0"
        using assms(3) e(2) by (simp add: w(3) room_def)
      from flushLocked_inv(1) [OF assms(1) w(1) this flushed(2)] show ?thesis .
    qed (use e(1) written_inv(1) [OF e(1) fits] in auto)
    with l Inr sp a show ?thesis by (simp add: Ingest_Append_def)
  qed
qed

lemma Append_stored:
  assumes "iterates ordS" and "ingest_inv inp" and "room inp" and "fits (dbShards (inDb inp)) ts"
    and a: "Ingest_Append ordL ordS ordW name labels ts v inp = (None, inp')"
    and "Start rng \<le>s ts" and "ts <s End rng"
  shows "\<exists>clean meta. SanitizeLabels (ordL labels) labels = Inr clean
    \<and> entry (inIdx inp') (LabelsKey \<lparr>ID = 0, Name = name, Labels = clean\<rparr>) = Some meta
    \<and> \<lparr>TS = ts, Value = v, SeriesID = ID meta\<rparr> \<in> set (visible (ID meta) rng inp')"
proof -
  obtain r inp1 where l: "append_log ordL name labels ts v inp = (r, inp1)" by (rule prod.exhaust)
  note e = append_log_effect [OF assms(2,3) l]
  obtain s pt where r: "r = Inr (s, pt)" and ap: "append_apply ordS ordW (s, pt) inp1 = (None, inp')"
    using a l by (cases r) (auto simp: Ingest_Append_def)
  obtain clean meta where cm: "TS pt = ts" "Value pt = v" "SanitizeLabels (ordL labels) labels = Inr clean"
      "entry (inIdx inp1) (LabelsKey \<lparr>ID = 0, Name = name, Labels = clean\<rparr>) = Some meta" "SeriesID pt = ID meta"
    using e(5) [OF r] by blast
  have pt: "pt = \<lparr>TS = ts, Value = v, SeriesID = ID meta\<rparr>" using cm by simp
  have fits: "fits (dbShards (inDb inp1)) (TS pt)" using assms(4) e(3) cm(1) by simp
  have rng: "in_range rng pt" using assms(6,7) cm(1) by (simp add: in_range_def)
  have mem: "pt \<in> set (series_of (byID (current (inMem (written pt inp1)))) (ID meta))"
    using written_member [of inp1 pt] e(1) cm(5) by (simp add: ingest_inv_def)
  have "pt \<in> set (visible (ID meta) rng inp') \<and> inIdx inp' = inIdx inp1"
    using ap
  proof (cases rule: append_apply_cases)
    case (buffered i)
    then show ?thesis using mem rng by (simp add: visible_parts) (simp add: written_def)
  next
    case (flushed i)
    note w = written_inv [OF e(1) fits flushed(1)]
    have "sNextID (dbStore (inDb (written pt inp1))) + 1 \<noteq> 0"
      using assms(3) e(2) by (simp add: w(3) room_def)
    note f = flushLocked_inv(2,3) [OF assms(1) w(1) this flushed(2)]
    have "Len (inMem (written pt inp1)) \<noteq> 0" by (simp add: written_def)
    with f mem rng w(2,4) show ?thesis by simp
  qed simp
  with cm pt show ?thesis by auto
qed

section \<open>Properties\<close>

text \<open>
  Every append, whatever it returns, keeps the pipeline's invariant: the index and the
  memtable stay well formed, the windows stay disjoint, shards list only blocks that were
  created, and no buffered point lies beyond the active window.
\<close>

theorem Append_keeps_invariant:
  assumes "iterates ordS" and "ingest_inv inp" and "room inp" and "fits (dbShards (inDb inp)) ts"
  shows "ingest_inv (snd (Ingest_Append ordL ordS ordW name labels ts v inp))"
  by (rule Append_inv [OF assms])

theorem Append_keeps_invariant_witness:
  "ingest_inv (snd (Ingest_Append key_order key_order key_order ''cpu.load'' fmempty 100 0 idle_ingest))"
  by (rule Append_keeps_invariant [OF iterates_key_order idle_inv])
     (simp add: fits_def idle_ingest_def demo_facts demo_manager_def go_int)

text \<open>
  An append that returns no error is visible at once: under the id the index holds for the
  name and the cleaned labels, every query range around the timestamp collects the point,
  from the memtable or, when the append triggered a flush, from the block it made.
\<close>

theorem Append_visible:
  assumes "iterates ordS" and "ingest_inv inp" and "room inp" and "fits (dbShards (inDb inp)) ts"
    and a: "Ingest_Append ordL ordS ordW name labels ts v inp = (None, inp')"
    and "Start rng \<le>s ts" and "ts <s End rng"
  shows "\<exists>clean meta. SanitizeLabels (ordL labels) labels = Inr clean
    \<and> entry (inIdx inp') (LabelsKey \<lparr>ID = 0, Name = name, Labels = clean\<rparr>) = Some meta
    \<and> \<lparr>TS = ts, Value = v, SeriesID = ID meta\<rparr> \<in> set (visible (ID meta) rng inp')"
  by (rule Append_stored [OF assms])

lemma cpu_load:
  assumes "ingest_inv inp" and "room inp" and "inIdx inp = NewIndex 4" and "wal_ok (inWal inp) recs"
    and "top_index (segments (inWal inp)) + 1 < 2 ^ 63" and "faults (wDisk (inWal inp)) = []"
  obtains meta :: series_meta and inp1 where "append_log key_order ''cpu.load'' fmempty ts v inp
      = (Inr (nextSeq (inWal inp), \<lparr>TS = ts, Value = v, SeriesID = ID meta\<rparr>), inp1)"
    "flushThreshold inp1 = flushThreshold inp" "\<exists>recs'. wal_ok (inWal inp1) recs'"
    "nextSeq (inWal inp1) = nextSeq (inWal inp) + 1" "faults (wDisk (inWal inp1)) = []"
proof -
  have "ValidName ''cpu.load''" by (simp add: ValidName_def name_char_def alnum_def less_eq_char_def)
  moreover have "key_order (fmempty :: labels) = []" using set_key_order [of "fmempty :: labels"] by simp
  moreover obtain e c jx where "Register \<lparr>ID = 0, Name = ''cpu.load'', Labels = fmempty\<rparr> (inIdx inp) = ((e, c), jx)"
    by (metis prod.exhaust)
  ultimately obtain inp1 where s: "SeriesOf key_order ''cpu.load'' fmempty inp = (Inr e, inp1)"
    by (simp add: SeriesOf_def SanitizeLabels_def Lookup_entry assms(3) NewIndex_entry)
  note f = SeriesOf_effect(2,4) [OF assms(1,2) s]
  obtain w where w: "Wal_Append \<lparr>rSeq = 0, rSeriesID = ID e, rTS = ts, rValue = v\<rparr> (inWal inp) = (Inr (nextSeq (inWal inp)), w)"
      "faults (wDisk w) = []"
    using Wal_Append_clean [OF assms(4-6)] by blast
  note we = Wal_Append_effect(1,3) [OF assms(4,5) w(1)]
  from we(1) have ok: "\<exists>recs'. wal_ok w recs'" by blast
  from w ok we(2) s f show ?thesis by (intro that [of e "inp1\<lparr>inWal := w\<rparr>"]) (simp_all add: append_log_def)
qed

theorem Append_visible_witness:
  "\<exists>w inp' (meta :: series_meta). Ingest_Append key_order key_order key_order ''cpu.load'' fmempty 100 5 (idle_ingest\<lparr>inWal := w\<rparr>)
      = (None, inp')
    \<and> \<lparr>TS = 100, Value = 5, SeriesID = ID meta\<rparr> \<in> set (visible (ID meta) \<lparr>Start = 0, End = 200\<rparr> inp')"
proof -
  obtain w where w: "wal_ok w (\<lambda>_. [])" "top_index (segments w) = 1" "faults (wDisk w) = []" by (rule fresh_wal)
  let ?inp = "idle_ingest\<lparr>inWal := w\<rparr>"
  have inv: "ingest_inv ?inp" "room ?inp" using idle_inv by (simp_all add: ingest_inv_def room_def)
  obtain meta :: series_meta and inp1 where l: "append_log key_order ''cpu.load'' fmempty 100 5 ?inp
      = (Inr (nextSeq (inWal ?inp), \<lparr>TS = 100, Value = 5, SeriesID = ID meta\<rparr>), inp1)"
      "flushThreshold inp1 = flushThreshold ?inp"
    by (rule cpu_load [OF inv, of "\<lambda>_. []" 100 5]) (use w in \<open>simp_all add: idle_ingest_def\<close>)
  note e = append_log_effect [OF inv l(1)]
  have "Route 100 (dbShards (inDb inp1)) = (Inr 0, demo_manager)"
    using e(3) busy_route by (simp add: idle_ingest_def demo_facts)
  moreover have "Len (inMem inp1) = 0" using e(4) by (simp add: idle_ingest_def NewMem_def Len_def)
  ultimately obtain inp2 where "Ingest_Append key_order key_order key_order ''cpu.load'' fmempty 100 5 ?inp = (None, inp2)"
    using l by (simp add: Ingest_Append_def append_apply_def Let_def idle_ingest_def)
  moreover have "fits (dbShards (inDb ?inp)) 100"
    by (simp add: fits_def idle_ingest_def demo_facts demo_manager_def go_int)
  ultimately obtain meta :: series_meta where "Ingest_Append key_order key_order key_order ''cpu.load'' fmempty 100 5 ?inp = (None, inp2)"
      "\<lparr>TS = 100, Value = 5, SeriesID = ID meta\<rparr> \<in> set (visible (ID meta) \<lparr>Start = 0, End = 200\<rparr> inp2)"
    using Append_visible [OF iterates_key_order inv, of 100 key_order key_order "''cpu.load''" fmempty 5 inp2
        "\<lparr>Start = 0, End = 200\<rparr>"]
    by (simp add: go_int) metis
  then show ?thesis by blast
qed

text \<open>
  C23. A flush that finds points in memory leaves a query with the stored points it had and the
  buffered points of the active window only: the buffered points of earlier windows, which
  were acknowledged when their window was active, are in no block afterwards, the memtable is
  empty, and no later flush brings them back. It does so whether or not the log reports an error.
\<close>

theorem Flush_visible:
  assumes "iterates ordS" and "ingest_inv inp" and "sNextID (dbStore (inDb inp)) + 1 \<noteq> 0"
    and "nextSeq (inWal inp) \<noteq> 0" and "Len (inMem inp) \<noteq> 0" and f: "Ingest_Flush ordS ordW inp = (e, inp')"
  shows "visible sid rng inp' = stored_points sid rng (inDb inp)
      @ filter (in_range rng) (filter (recent (dbShards (inDb inp))) (series_of (byID (current (inMem inp))) sid))
    \<and> Len (inMem inp') = 0 \<and> ingest_inv inp'"
  using flushLocked_inv(1,4) [OF assms(1-3), of ordW "nextSeq (inWal inp) - 1" e inp']
    flushLocked_inv(3) [OF assms(1-3), of ordW "nextSeq (inWal inp) - 1" e inp' sid rng] f assms(4,5)
  by (simp add: Ingest_Flush_def Let_def)

theorem Flush_visible_witness:
  "visible 7 \<lparr>Start = 0, End = 9999\<rparr> two_windows = [busy_point, late_point]
   \<and> visible 7 \<lparr>Start = 0, End = 9999\<rparr> (snd (Ingest_Flush key_order key_order two_windows)) = [late_point]"
proof -
  obtain e inp' where f: "Ingest_Flush key_order key_order two_windows = (e, inp')" by (rule prod.exhaust)
  have st: "stored_points 7 \<lparr>Start = 0, End = 9999\<rparr> (inDb two_windows) = []"
    by (simp add: stored_points_def covering_blocks_def ShardsCovering_def two_windows_facts Shard_Blocks_def
        Shard_Seal_def seal_before_def new_shard_def)
  have "recent (dbShards (inDb two_windows)) busy_point = False" "recent (dbShards (inDb two_windows)) late_point"
    by (simp_all add: recent_def two_windows_facts busy_point_def late_point_def new_shard_def go_int)
  moreover have "in_range \<lparr>Start = 0, End = 9999\<rparr> busy_point" "in_range \<lparr>Start = 0, End = 9999\<rparr> late_point"
    by (simp_all add: in_range_def busy_point_def late_point_def go_int)
  ultimately show ?thesis
    using Flush_visible [OF iterates_key_order two_windows_facts(1,2) _ _ f, of 7 "\<lparr>Start = 0, End = 9999\<rparr>"]
      st f by (simp add: visible_parts [of _ _ two_windows] two_windows_facts)
qed

text \<open>
  C24. While all buffered points lie in the active window, a flush does not change what any
  query collects, as a multiset of points.
\<close>

theorem Flush_keeps_queries:
  assumes "iterates ordS" and "ingest_inv inp" and "sNextID (dbStore (inDb inp)) + 1 \<noteq> 0"
    and "\<forall>p \<in> set (series_of (byID (current (inMem inp))) sid). recent (dbShards (inDb inp)) p"
  shows "mset (visible sid rng (snd (Ingest_Flush ordS ordW inp))) = mset (visible sid rng inp)"
proof -
  obtain e inp' where f: "Ingest_Flush ordS ordW inp = (e, inp')" by (rule prod.exhaust)
  have "filter (recent (dbShards (inDb inp))) (series_of (byID (current (inMem inp))) sid)
      = series_of (byID (current (inMem inp))) sid" using assms(4) by simp
  then show ?thesis
    using f flushLocked_inv(3) [OF assms(1-3), of ordW "nextSeq (inWal inp) - 1" e inp' sid rng]
    by (cases "nextSeq (inWal inp) = 0") (auto simp: Ingest_Flush_def Let_def visible_parts)
qed

theorem Flush_keeps_queries_witness:
  "mset (visible 7 \<lparr>Start = 0, End = 200\<rparr> (snd (Ingest_Flush key_order key_order busy_ingest))) = mset (visible 7 \<lparr>Start = 0, End = 200\<rparr> busy_ingest)"
  by (rule Flush_keeps_queries [OF iterates_key_order busy_inv(1,2)])
     (simp add: busy_inv, simp add: recent_def demo_manager_def new_shard_def busy_point_def go_int)

section \<open>Recovery\<close>

text \<open>The last value the log holds for a series and timestamp.\<close>

definition last_value :: "wal_record list \<Rightarrow> uint64 \<Rightarrow> int64 \<Rightarrow> float64 option" where
  "last_value rs sid ts = map_option rValue (find (\<lambda>r. rSeriesID r = sid \<and> rTS r = ts) (rev rs))"

definition write_record :: "wal_record \<Rightarrow> memtable \<Rightarrow> memtable" where
  "write_record rec = Write \<lparr>TS = rTS rec, Value = rValue rec, SeriesID = rSeriesID rec\<rparr>"

lemma deliver_recover:
  "\<exists>reg'. deliver recover_record rs (mem, reg) = (None, fold write_record rs mem, reg')"
  by (induction rs arbitrary: mem reg) (simp_all add: recover_record_def write_record_def)

lemma last_value_append: "last_value (rs @ [r]) sid ts =
    (if rSeriesID r = sid \<and> rTS r = ts then Some (rValue r) else last_value rs sid ts)"
  by (simp add: last_value_def)

lemma replayed_memtable:
  assumes "mem_inv mem"
  shows "mem_inv (fold write_record rs mem)
    \<and> mem_value (fold write_record rs mem) sid ts
      = (case last_value rs sid ts of Some v \<Rightarrow> Some v | None \<Rightarrow> mem_value mem sid ts)"
proof (induction rs rule: rev_induct)
  case Nil
  then show ?case using assms by (simp add: last_value_def)
next
  case (snoc r rs)
  let ?m = "fold write_record rs mem"
  have step: "fold write_record (rs @ [r]) mem
      = Write \<lparr>TS = rTS r, Value = rValue r, SeriesID = rSeriesID r\<rparr> ?m"
    by simp (simp add: write_record_def)
  have m: "mem_inv ?m" using snoc by blast
  show ?case
    unfolding step using snoc Write_inv [OF m] Write_value [OF m]
    by (auto simp: last_value_append)
qed

lemma replayed_routed:
  assumes "routed m (byID (current mem))" and "\<forall>r \<in> set rs. rTS r <s shEnd (last (shards m))"
  shows "routed m (byID (current (fold write_record rs mem)))"
  using assms
proof (induction rs arbitrary: mem)
  case (Cons r rs)
  then show ?case by (simp add: write_record_def routed_Write)
qed simp

lemma mem_member:
  assumes "mem_inv mem"
  shows "p \<in> set (series_of (byID (current mem)) sid) \<longleftrightarrow> SeriesID p = sid \<and> mem_value mem sid (TS p) = Some (Value p)"
proof
  assume p: "p \<in> set (series_of (byID (current mem)) sid)"
  with assms series_ok_ids have "SeriesID p = sid" by (auto simp: mem_inv_def)
  with p mem_value_Some [OF assms, of sid "TS p" "Value p"] show "SeriesID p = sid \<and> mem_value mem sid (TS p) = Some (Value p)"
    by blast
next
  assume r: "SeriesID p = sid \<and> mem_value mem sid (TS p) = Some (Value p)"
  then obtain q where q: "q \<in> set (series_of (byID (current mem)) sid)" "TS q = TS p" "Value q = Value p"
    using mem_value_Some [OF assms] by blast
  moreover have "SeriesID q = sid" using q(1) assms series_ok_ids by (auto simp: mem_inv_def)
  ultimately have "q = p" using r by simp
  with q(1) show "p \<in> set (series_of (byID (current mem)) sid)" by simp
qed

lemma empty_memtable:
  assumes "mem_inv mem" and "Len mem = 0"
  shows "byID (current mem) = fmempty" "mem_value mem = (\<lambda>_ _. None)"
proof -
  show e: "byID (current mem) = fmempty" using assms by (simp add: mem_inv_def Len_def)
  show "mem_value mem = (\<lambda>_ _. None)" by (intro ext) (simp add: mem_value_def e)
qed

lemma Recover_sees:
  assumes "iterates ordS" and inv: "ingest_inv inp" and "Len (inMem inp) = 0"
    and fresh: "sNextID (dbStore (inDb inp)) + 1 \<noteq> 0"
    and log: "log_readable (inWal inp) recs" "faults (wDisk (inWal inp)) = []" "nextSeq (inWal inp) \<noteq> 0"
    and past: "\<forall>r \<in> set (found (nextReplay (inWal inp)) (wal_entries (inWal inp) recs)).
        rTS r <s shEnd (last (shards (dbShards (inDb inp))))"
  shows "p \<in> set (visible sid rng (snd (Recover ordS ordW inp))) \<longleftrightarrow>
      p \<in> set (stored_points sid rng (inDb inp))
      \<or> in_range rng p \<and> recent (dbShards (inDb inp)) p \<and> SeriesID p = sid
        \<and> last_value (found (nextReplay (inWal inp)) (wal_entries (inWal inp) recs)) sid (TS p) = Some (Value p)"
proof -
  let ?rs = "found (nextReplay (inWal inp)) (wal_entries (inWal inp) recs)"
  let ?mem = "fold write_record ?rs (inMem inp)"
  obtain out w where rp: "ReplayUnflushed recover_record (inMem inp, dbReg (inDb inp)) (inWal inp) = (out, w)"
    by (rule prod.exhaust)
  obtain reg where out: "out = (None, ?mem, reg)"
    using rp Replay_readable [OF log(1,2), of "nextReplay (inWal inp)" recover_record "(inMem inp, dbReg (inDb inp))"]
      deliver_recover [of ?rs "inMem inp" "dbReg (inDb inp)"]
    by (auto simp: ReplayUnflushed_def)
  have ns: "nextSeq w = nextSeq (inWal inp)"
    using Replay_counters [of "nextReplay (inWal inp)" recover_record "(inMem inp, dbReg (inDb inp))" "inWal inp"] rp
    by (simp add: ReplayUnflushed_def)
  let ?inp = "inp\<lparr>inMem := ?mem, inDb := (inDb inp)\<lparr>dbReg := reg\<rparr>, inWal := w\<rparr>"
  have m: "mem_inv (inMem inp)" using inv by (simp add: ingest_inv_def)
  note rm = replayed_memtable [OF m, of ?rs] and em = empty_memtable [OF m assms(3)]
  have "routed (dbShards (inDb inp)) (byID (current ?mem))"
    using inv past by (intro replayed_routed) (simp_all add: ingest_inv_def)
  then have inv': "ingest_inv ?inp"
    using inv rm by (auto simp: ingest_inv_def db_inv_def refs_ok_def)
  obtain e inp' where fl: "flushLocked ordS ordW (nextSeq w - 1) ?inp = (e, inp')" by (rule prod.exhaust)
  have st: "stored_points sid rng ((inDb inp)\<lparr>dbReg := reg\<rparr>) = stored_points sid rng (inDb inp)"
    by (simp add: stored_points_def)
  have "Recover ordS ordW inp = (e, inp')"
    using rp out fl ns log(3) by (simp add: Recover_def Let_def Ingest_Flush_def)
  moreover have "visible sid rng inp' = stored_points sid rng (inDb inp)
      @ filter (in_range rng) (filter (recent (dbShards (inDb inp))) (series_of (byID (current ?mem)) sid))"
  proof (cases "Len ?mem = 0")
    case True
    then have "byID (current ?mem) = fmempty" using empty_memtable(1) rm by blast
    with True flushLocked_inv(3) [OF assms(1) inv' _ fl, of sid rng] fresh st show ?thesis
      by (simp add: visible_parts)
  next
    case False
    with flushLocked_inv(3) [OF assms(1) inv' _ fl, of sid rng] fresh st show ?thesis by simp
  qed
  ultimately show ?thesis
    using mem_member [of ?mem p sid] rm by (auto simp: em(2) split: option.splits)
qed

text \<open>
  Recovery on a readable log, into an empty memtable, with no record dated after the
  current window: every query then collects what the blocks held and, of the replayed
  records, exactly the last value per series and timestamp of those dated in the current
  window. Records of earlier windows are dropped, and the memtable is empty again.
\<close>

theorem Recover_visible:
  assumes "iterates ordS" and inv: "ingest_inv inp" and "Len (inMem inp) = 0"
    and fresh: "sNextID (dbStore (inDb inp)) + 1 \<noteq> 0"
    and log: "log_readable (inWal inp) recs" "faults (wDisk (inWal inp)) = []" "nextSeq (inWal inp) \<noteq> 0"
    and past: "\<forall>r \<in> set (found (nextReplay (inWal inp)) (wal_entries (inWal inp) recs)).
        rTS r <s shEnd (last (shards (dbShards (inDb inp))))"
  shows "p \<in> set (visible sid rng (snd (Recover ordS ordW inp))) \<longleftrightarrow>
      p \<in> set (stored_points sid rng (inDb inp))
      \<or> in_range rng p \<and> recent (dbShards (inDb inp)) p \<and> SeriesID p = sid
        \<and> last_value (found (nextReplay (inWal inp)) (wal_entries (inWal inp) recs)) sid (TS p) = Some (Value p)"
  by (rule Recover_sees [OF assms])

theorem Recover_visible_witness:
  "\<exists>w. let inp = idle_ingest\<lparr>inWal := w, inDb := demo_db\<lparr>dbShards := late_manager\<rparr>\<rparr>;
         seen = set (visible 7 \<lparr>Start = 0, End = 9999\<rparr> (snd (Recover key_order key_order inp)))
     in \<lparr>TS = 7300, Value = 0, SeriesID = 7\<rparr> \<in> seen \<and> \<lparr>TS = 100, Value = 1, SeriesID = 7\<rparr> \<notin> seen"
proof -
  obtain w recs where w: "wal_ok w recs" "all_synced w" "faults (wDisk w) = []" "nextSeq w = 2" "nextReplay w = 0"
      "wal_entries w recs = [old_record, demo_record]" by (rule demo_log)
  let ?inp = "idle_ingest\<lparr>inWal := w, inDb := demo_db\<lparr>dbShards := late_manager\<rparr>\<rparr>"
  have late: "mgr_inv late_manager" "shards late_manager = [new_shard 1 7200 3600]"
    by (simp_all add: late_manager_def mgr_inv_def new_shard_def window_ok_def ascending_def go_int)
  have inv: "ingest_inv ?inp" "Len (inMem ?inp) = 0" "sNextID (dbStore (inDb ?inp)) + 1 \<noteq> 0"
    using idle_inv(1) late
    by (simp_all add: ingest_inv_def db_inv_def demo_facts refs_ok_def new_shard_def idle_ingest_def NewMem_def
        empty_snapshot_def Len_def)
  have f: "found 0 [old_record, demo_record] = (if frame_safe old_record then [old_record, demo_record] else [demo_record])"
    by (simp add: found_def demo_record_safe)
  have past: "\<forall>r \<in> set (found (nextReplay (inWal ?inp)) (wal_entries (inWal ?inp) recs)).
        rTS r <s shEnd (last (shards (dbShards (inDb ?inp))))"
  proof -
    have "found (nextReplay (inWal ?inp)) (wal_entries (inWal ?inp) recs)
        = (if frame_safe old_record then [old_record, demo_record] else [demo_record])" by (simp add: w f)
    then show ?thesis
      using late(2) by (simp add: new_shard_def) (simp add: old_record_def demo_record_def go_int)
  qed
  have st: "stored_points 7 rng (inDb ?inp) = []" for rng
    by (simp add: stored_points_def covering_blocks_def ShardsCovering_def late new_shard_def Shard_Blocks_def)
  have lv: "last_value (found 0 [old_record, demo_record]) 7 7300 = Some 0"
    unfolding f by (simp add: last_value_def demo_record_def)
  note v = Recover_visible [OF iterates_key_order inv _ _ _ past, of _ 7 "\<lparr>Start = 0, End = 9999\<rparr>" key_order]
  have "\<lparr>TS = 7300, Value = 0, SeriesID = 7\<rparr> \<in> set (visible 7 \<lparr>Start = 0, End = 9999\<rparr> (snd (Recover key_order key_order ?inp)))"
    using v [of "\<lparr>TS = 7300, Value = 0, SeriesID = 7\<rparr>"] synced_readable [OF w(1,2)] w lv late(2)
    by (simp add: in_range_def recent_def new_shard_def go_int)
  moreover have "\<lparr>TS = 100, Value = 1, SeriesID = 7\<rparr> \<notin> set (visible 7 \<lparr>Start = 0, End = 9999\<rparr> (snd (Recover key_order key_order ?inp)))"
    using v [of "\<lparr>TS = 100, Value = 1, SeriesID = 7\<rparr>"] synced_readable [OF w(1,2)] w late(2) st
    by (simp add: recent_def new_shard_def go_int)
  ultimately show ?thesis by (intro exI [of _ w]) (simp add: Let_def)
qed

section \<open>An append between its two steps\<close>

lemma flush_moves_watermark:
  assumes ord: "iterates ordS" "iterates ordW" and inv: "ingest_inv inp" and ok: "wal_ok (inWal inp) recs"
    and f: "Ingest_Flush ordS ordW inp = (None, inp')" "nextSeq (inWal inp) \<noteq> 0" "Len (inMem inp) \<noteq> 0"
  shows "(\<exists>recs'. wal_ok (inWal inp') recs') \<and> nextSeq (inWal inp) \<le> nextReplay (inWal inp')
    \<and> checkpoint_value (wDisk (inWal inp')) = Some (nextReplay (inWal inp'))"
proof -
  have r: "routed (dbShards (inDb inp)) (byID (current (inMem inp)))" using inv by (simp add: ingest_inv_def)
  let ?s = "nextSeq (inWal inp) - 1"
  have fl: "flushLocked ordS ordW ?s inp = (None, inp')" using f by (simp add: Ingest_Flush_def Let_def)
  obtain ew w where w: "SetReplayStart (?s + 1) (inWal inp) = (ew, w)"
      "ew = None \<longrightarrow> TruncateTo (ordW (segments w)) ?s w = (None, inWal inp')"
      "ew \<noteq> None \<longrightarrow> None = ew \<and> inWal inp' = w"
    by (rule flushLocked_effect [OF ord(1) ingest_inv_shards [OF inv] r f(3) fl])
  then have "ew = None" by blast
  with w have "SetReplayStart (?s + 1) (inWal inp) = (None, w)"
    "TruncateTo (ordW (segments w)) ?s w = (None, inWal inp')" by simp_all
  from flush_log [OF ok this(1) iterates_visits [OF ord(2)] this(2)] show ?thesis by auto
qed

text \<open>
  C25. The log record of an append and its memtable write are two steps, and a flush can run
  between them. A flush that finds other points in memory moves the replay mark past every
  record of the log, the record of the append in flight included; the append then completes
  without an error. If the process stops before the next flush, the point is lost: however
  much of the log reached the disk, recovery replays only records with later sequence
  numbers.
\<close>

theorem inflight_record_lost:
  assumes ord: "iterates ordS" "iterates ordW" and inv: "ingest_inv inp1" "wal_ok (inWal inp1) recs"
    and logged: "append_log ordL name labels ts v inp = (Inr (s, pt), inp1)" "s < nextSeq (inWal inp1)"
    and flush: "Ingest_Flush ordS ordW inp1 = (None, inp2)" "Len (inMem inp1) \<noteq> 0"
    and resume: "append_apply ordS ordW (s, pt) inp2 = (None, inp3)" "1 < flushThreshold inp2" "Len (inMem inp2) = 0"
    and stop: "files d = files (wDisk (inWal inp3))" "Wal_Open ms d = (Inr w, d')" "faults (wDisk w) = []"
  shows "\<exists>rs. fst (ReplayUnflushed fn st w) = deliver fn rs st \<and> (\<forall>r \<in> set rs. s < rSeq r)"
proof -
  have "nextSeq (inWal inp1) \<noteq> 0" using logged(2) by auto
  from flush_moves_watermark [OF ord inv flush(1) this flush(2)] obtain recs' where
      ok: "wal_ok (inWal inp2) recs'" and
      wm: "nextSeq (inWal inp1) \<le> nextReplay (inWal inp2)"
        "checkpoint_value (wDisk (inWal inp2)) = Some (nextReplay (inWal inp2))" by blast
  have "inp3 = written pt inp2"
    using resume(1)
  proof (cases rule: append_apply_cases)
    case (flushed i)
    have "flushThreshold (written pt inp2) = flushThreshold inp2" "Len (inMem (written pt inp2)) = 1"
      using resume(3) by (simp_all add: written_def)
    moreover obtain m where "Route (TS pt) (dbShards (inDb inp2)) = (Inr i, m)"
      using flushed(1) by (metis fst_conv surj_pair)
    ultimately show ?thesis
      using resume by (auto simp: append_apply_def Let_def written_def)
  qed simp_all
  then have w3: "inWal inp3 = inWal inp2" by (simp add: written_def)
  have d: "files d = files (wDisk (inWal inp2))" using stop(1) w3 by simp
  have nr: "nextReplay w = nextReplay (inWal inp2)" using reopen_watermark [OF ok d stop(2)] wm(2) by simp
  obtain m where "fst (Replay (nextReplay w) fn st w) = deliver fn (found (nextReplay w) (take m (wal_entries (inWal inp2) recs'))) st"
    using crash_replay [OF ok d stop(2,3), of "nextReplay w" fn st] by blast
  moreover have "s < rSeq r" if "r \<in> set (found (nextReplay w) rs)" for r rs
    using that logged(2) wm(1) nr by (auto simp: found_def)
  ultimately show ?thesis by (auto simp: ReplayUnflushed_def)
qed

text \<open>On a disk without faults a flush reports no error.\<close>

lemma flush_clean:
  assumes ord: "iterates ordS" "iterates ordW" and inv: "ingest_inv inp" and ok: "wal_ok (inWal inp) recs"
    and nf: "faults (wDisk (inWal inp)) = []" and n: "nextSeq (inWal inp) \<noteq> 0" "Len (inMem inp) \<noteq> 0"
  obtains inp' k where "Ingest_Flush ordS ordW inp = (None, inp')" "faults (wDisk (inWal inp')) = []"
    "flushThreshold inp' = flushThreshold inp" "Len (inMem inp') = 0"
    "inDb inp' = count_metric ''blocks_flushed'' k (store_kept ordS (byID (current (inMem inp))) (inDb inp))"
proof -
  have r: "routed (dbShards (inDb inp)) (byID (current (inMem inp)))" using inv by (simp add: ingest_inv_def)
  let ?s = "nextSeq (inWal inp) - 1"
  obtain e inp' where fl: "flushLocked ordS ordW ?s inp = (e, inp')" by (rule prod.exhaust)
  obtain ew w k where w: "SetReplayStart (?s + 1) (inWal inp) = (ew, w)"
      "ew = None \<longrightarrow> TruncateTo (ordW (segments w)) ?s w = (e, inWal inp')"
      "inDb inp' = count_metric ''blocks_flushed'' k (store_kept ordS (byID (current (inMem inp))) (inDb inp))"
      "inMem inp' = snd (Flush (inMem inp))" "flushThreshold inp' = flushThreshold inp"
    by (rule flushLocked_effect [OF ord(1) ingest_inv_shards [OF inv] r n(2) fl])
  obtain w1 where w1: "SetReplayStart (?s + 1) (inWal inp) = (None, w1)" "faults (wDisk w1) = []"
    using SetReplayStart_clean [OF nf] by blast
  have ok1: "wal_ok w1 recs"
    using ok log_ok_frame [of "inWal inp" recs w1] SetReplayStart_effect(1,6) [OF w1(1)] by (simp add: wal_ok_def)
  obtain w2 where "TruncateTo (ordW (segments w1)) ?s w1 = (None, w2)" "faults (wDisk w2) = []"
    using TruncateTo_clean [OF ok1 iterates_visits [OF ord(2)] w1(2)] by blast
  with w w1(1) have "e = None" "faults (wDisk (inWal inp')) = []" by simp_all
  moreover have "Len (inMem inp') = 0" using w(4) by (simp add: Flush_def Len_def)
  ultimately show ?thesis
    using fl n(1) w(3,5) by (intro that [of inp' k]) (simp_all add: Ingest_Flush_def Let_def)
qed

lemma Route_store_kept:
  assumes "shards (dbShards db) \<noteq> []" and "covers (last (shards (dbShards db))) ts"
  shows "\<exists>i m. Route ts (dbShards (store_kept ordS by_id db)) = (Inr i, m)"
proof -
  have "covers (last (shards (dbShards (store_kept ordS by_id db)))) ts"
    using assms by (auto simp: store_kept_def Let_def on_shard_def covers_def last_list_update last_conv_nth)
  then show ?thesis using Route_hit by blast
qed

theorem inflight_record_lost_witness:
  "\<exists>inp1 inp2 inp3 w pt. Ingest_Flush key_order key_order inp1 = (None, inp2)
    \<and> append_apply key_order key_order (0, pt) inp2 = (None, inp3)
    \<and> (\<forall>r \<in> set (snd (fst (ReplayUnflushed (\<lambda>r rs. (None, rs @ [r])) [] w))). 0 < rSeq r)"
proof -
  obtain w0 where w0: "wal_ok w0 (\<lambda>_. [])" "top_index (segments w0) = 1" "faults (wDisk w0) = []" "nextSeq w0 = 0"
    by (rule fresh_wal)
  let ?inp = "busy_ingest\<lparr>inWal := w0\<rparr>"
  have inv: "ingest_inv ?inp" "room ?inp" and ix: "inIdx ?inp = NewIndex 4"
    using busy_inv(1,2) idle_inv(2)
    by (simp_all add: ingest_inv_def room_def) (simp_all add: busy_ingest_def written_def idle_ingest_def)
  obtain meta :: series_meta and inp1 where l: "append_log key_order ''cpu.load'' fmempty 100 5 ?inp
      = (Inr (nextSeq (inWal ?inp), \<lparr>TS = 100, Value = 5, SeriesID = ID meta\<rparr>), inp1)"
      "flushThreshold inp1 = flushThreshold ?inp" "\<exists>recs'. wal_ok (inWal inp1) recs'"
      "nextSeq (inWal inp1) = nextSeq (inWal ?inp) + 1" "faults (wDisk (inWal inp1)) = []"
    by (rule cpu_load [OF inv ix, of "\<lambda>_. []" 100 5]) (use w0 in simp_all)
  let ?pt = "\<lparr>TS = 100, Value = 5, SeriesID = ID meta\<rparr>"
  from l(3) obtain recs1 where ok1: "wal_ok (inWal inp1) recs1" by blast
  note e = append_log_effect [OF inv l(1)]
  have n1: "nextSeq (inWal inp1) = 1" using l(4) w0(4) by simp
  have len: "Len (inMem inp1) \<noteq> 0" using e(4) busy_inv(3) by simp
  obtain inp2 k where f: "Ingest_Flush key_order key_order inp1 = (None, inp2)" "faults (wDisk (inWal inp2)) = []"
      "flushThreshold inp2 = flushThreshold inp1" "Len (inMem inp2) = 0"
      "inDb inp2 = count_metric ''blocks_flushed'' k (store_kept key_order (byID (current (inMem inp1))) (inDb inp1))"
    by (rule flush_clean [OF iterates_key_order iterates_key_order e(1) ok1 l(5) _ len]) (simp add: n1)
  have thr: "flushThreshold inp2 = 4096"
    using f(3) l(2) by (simp add: busy_ingest_def written_def idle_ingest_def)
  have sh1: "dbShards (inDb inp1) = demo_manager" using e(3) busy_inv(5) by simp
  have "covers (last (shards demo_manager)) 100" by (simp add: covers_def demo_manager_def new_shard_def go_int)
  then obtain i m where "Route 100 (dbShards (inDb inp2)) = (Inr i, m)"
    using Route_store_kept [of "inDb inp1" 100 key_order "byID (current (inMem inp1))"] sh1 f(5)
      ingest_inv_shards [OF e(1)] by auto
  then obtain inp3 where a: "append_apply key_order key_order (nextSeq (inWal ?inp), ?pt) inp2 = (None, inp3)"
      "inWal inp3 = inWal inp2"
    using thr f(4) by (simp add: append_apply_def Let_def)
  have "nextSeq (inWal inp1) \<noteq> 0" by (simp add: n1)
  from flush_moves_watermark [OF iterates_key_order iterates_key_order e(1) ok1 f(1) this len]
  obtain recs2 where ok2: "wal_ok (inWal inp2) recs2" "checkpoint_value (wDisk (inWal inp2)) = Some (nextReplay (inWal inp2))"
    by blast
  obtain w d' where o: "Wal_Open 1024 (wDisk (inWal inp2)) = (Inr w, d')" "faults (wDisk w) = []"
    by (rule reopen_clean [OF ok2(1) f(2) ok2(2)])
  have "\<exists>rs. fst (ReplayUnflushed (\<lambda>r rs. (None, rs @ [r])) [] w) = deliver (\<lambda>r rs. (None, rs @ [r])) rs []
      \<and> (\<forall>r \<in> set rs. nextSeq (inWal ?inp) < rSeq r)"
    by (rule inflight_record_lost [OF iterates_key_order iterates_key_order e(1) ok1 l(1) _ f(1) len a(1) _ f(4) _ o])
       (use n1 w0(4) thr a(2) in simp_all)
  then have "\<forall>r \<in> set (snd (fst (ReplayUnflushed (\<lambda>r rs. (None, rs @ [r])) [] w))). 0 < rSeq r"
    by (auto simp: deliver_collect [of _ "[]", simplified] w0(4))
  with f(1) a(1) w0(4) show ?thesis by auto
qed

end
