(* ===== verification/Compactor.thy ===== *)
theory Compactor
  imports Database Windows
begin

text \<open>
  The compactor, \<open>internal/compact\<close>: downsample a block's points to one point per window and
  put the result in a new block in place of the old one.

  \<open>Compact\<close> opens the source, which keeps it from being reclaimed by the reclaim pass it runs
  itself, and closes it on every way out. Its two iteration orders, over the source's series
  and over the store's blocks, are the arguments \<open>ordS\<close> and \<open>ordB\<close>; each block \<open>CompactAll\<close>
  visits comes with the orders its own compaction uses.
\<close>

section \<open>Downsampling\<close>

record cacc =
  cts :: int64
  csum :: float64
  ccount :: nat

definition cinit :: "int64 \<Rightarrow> point \<Rightarrow> cacc" where
  "cinit start p = \<lparr>cts = start, csum = Value p, ccount = 1\<rparr>"

definition cupd :: "cacc \<Rightarrow> point \<Rightarrow> cacc" where
  "cupd a p = a\<lparr>csum := fadd (csum a) (Value p), ccount := ccount a + 1\<rparr>"

definition compact_step :: "int64 \<Rightarrow> cacc list \<Rightarrow> point \<Rightarrow> cacc list" where
  "compact_step step ws p =
     (let start = bucket_start step (TS p)
      in if ws = [] \<or> cts (last ws) \<noteq> start then ws @ [cinit start p]
         else butlast ws @ [cupd (last ws) p])"

definition window_point :: "uint64 \<Rightarrow> cacc \<Rightarrow> point" where
  "window_point sid w = \<lparr>TS = cts w, Value = fdiv (csum w) (f_of_nat (ccount w)), SeriesID = sid\<rparr>"

definition aggregateWindow :: "point list \<Rightarrow> int64 \<Rightarrow> point list" where
  "aggregateWindow pts step =
     (if pts = [] then []
      else map (window_point (SeriesID (hd pts))) (foldl (compact_step step) [] pts))"

definition compact_series ::
  "int64 \<Rightarrow> series_points \<Rightarrow> uint64 \<Rightarrow> series_points \<times> time_span \<Rightarrow> series_points \<times> time_span" where
  "compact_series step raw sid = (\<lambda>(out, span).
     let agg = aggregateWindow (series_of raw sid) step
     in if agg = [] then (out, span) else (fmupd sid agg out, fold widen agg span))"

definition downsample :: "int64 \<Rightarrow> uint64 list \<Rightarrow> series_points \<Rightarrow> series_points \<times> time_span" where
  "downsample step ks raw = fold (compact_series step raw) ks (fmempty, no_span)"

section \<open>Compacting one block\<close>

definition finish_source ::
  "((block_id, block) fmap \<Rightarrow> block_id list) \<Rightarrow> block_id \<Rightarrow> store \<Rightarrow> store" where
  "finish_source ordB src s =
     (let s1 = on_block src Block_MarkArchived s in snd (Reclaim (ordB (blocks s1)) s1))"

definition compact_held ::
  "(series_points \<Rightarrow> uint64 list) \<Rightarrow> ((block_id, block) fmap \<Rightarrow> block_id list) \<Rightarrow> downsample_policy
    \<Rightarrow> block_id \<Rightarrow> block \<Rightarrow> database \<Rightarrow> (err + block_id) \<times> database" where
  "compact_held ordS ordB pol src b db =
     (let raw = Raw b;
          (min_ts, max_ts) = Block_MinMax b;
          step = effective_step (Window pol);
          (out, span) = downsample step (ordS raw) raw;
          s1 = on_block src MarkCompacting (dbStore db)
      in if fmsize out = 0
         then (Inr 0, db\<lparr>dbStore := finish_source ordB src s1,
                         dbReg := Inc ''blocks_compacted'' 1 (dbReg db)\<rparr>)
         else (case Create out (spanMin span) (spanMax span) s1 of (bid, s2) \<Rightarrow>
                 let s3 = on_block bid Block_Seal s2
                 in (case Route min_ts (dbShards db) of
                       (Inl e, m1) \<Rightarrow> (Inl e, db\<lparr>dbStore := s3, dbShards := m1\<rparr>)
                     | (Inr i, m1) \<Rightarrow>
                         (Inr bid, db\<lparr>dbStore := finish_source ordB src s3,
                                      dbShards := on_shard i (AddBlock bid) m1,
                                      dbReg := Inc ''blocks_compacted'' 1 (dbReg db)\<rparr>))))"

definition Compact ::
  "(series_points \<Rightarrow> uint64 list) \<Rightarrow> ((block_id, block) fmap \<Rightarrow> block_id list) \<Rightarrow> downsample_policy
    \<Rightarrow> block_id \<Rightarrow> database \<Rightarrow> (err + block_id) \<times> database" where
  "Compact ordS ordB pol bid db =
     (case Open bid (dbStore db) of
        (Inl e, s) \<Rightarrow> (Inl e, db\<lparr>dbStore := s\<rparr>)
      | (Inr None, s) \<Rightarrow> (Inr 0, db\<lparr>dbStore := s\<rparr>)
      | (Inr (Some src), s) \<Rightarrow>
          (case fmlookup (blocks s) src of
             None \<Rightarrow> (Inr 0, db\<lparr>dbStore := s\<rparr>)
           | Some b \<Rightarrow>
               (case compact_held ordS ordB pol src b (db\<lparr>dbStore := s\<rparr>) of
                  (r, db1) \<Rightarrow> (r, db1\<lparr>dbStore := Close src (dbStore db1)\<rparr>))))"

section \<open>Choosing blocks\<close>

text \<open>The state of a block, read through a handle that is opened and closed around it.\<close>

definition peek :: "(block \<Rightarrow> 'a) \<Rightarrow> block_id \<Rightarrow> store \<Rightarrow> 'a option \<times> store" where
  "peek f bid s =
     (case Open bid s of
        (Inl e, s1) \<Rightarrow> (None, s1)
      | (Inr None, s1) \<Rightarrow> (None, s1)
      | (Inr (Some h), s1) \<Rightarrow>
          (map_option f (fmlookup (blocks s1) h), Close h s1))"

type_synonym compact_job =
  "block_id \<times> (series_points \<Rightarrow> uint64 list) \<times> ((block_id, block) fmap \<Rightarrow> block_id list)"

fun compact_loop ::
  "downsample_policy \<Rightarrow> compact_job list \<Rightarrow> nat \<Rightarrow> database \<Rightarrow> (nat \<times> err option) \<times> database" where
  "compact_loop pol [] done_n db = ((done_n, None), db)"
| "compact_loop pol ((bid, ordS, ordB) # jobs) done_n db =
     (case peek bState bid (dbStore db) of
        (st, s) \<Rightarrow>
          let db1 = db\<lparr>dbStore := s\<rparr>
          in if st \<noteq> Some BlockImmutable then compact_loop pol jobs done_n db1
             else (case Compact ordS ordB pol bid db1 of
                     (Inl e, db2) \<Rightarrow> ((done_n, Some e), db2)
                   | (Inr _, db2) \<Rightarrow> compact_loop pol jobs (done_n + 1) db2))"

definition CompactAll ::
  "downsample_policy \<Rightarrow> compact_job list \<Rightarrow> database \<Rightarrow> (nat \<times> err option) \<times> database" where
  "CompactAll pol jobs db = compact_loop pol jobs 0 db"

fun eligible_loop :: "block_id list \<Rightarrow> block_id list \<Rightarrow> store \<Rightarrow> block_id list \<times> store" where
  "eligible_loop [] out s = (out, s)"
| "eligible_loop (bid # ids) out s =
     (case peek bState bid s of
        (st, s1) \<Rightarrow> eligible_loop ids (if st = Some BlockImmutable then out @ [bid] else out) s1)"

definition Eligible :: "block_id list \<Rightarrow> store \<Rightarrow> block_id list \<times> store" where
  "Eligible ids s = eligible_loop (store_List ids s) [] s"

definition Next :: "block_id list \<Rightarrow> store \<Rightarrow> block_id \<times> store" where
  "Next ids s =
     (case Eligible ids s of (eligible, s1) \<Rightarrow> (if eligible = [] then 0 else hd eligible, s1))"

section \<open>The downsampling loop\<close>

interpretation cw: window_fold cinit cupd cts compact_step
  by unfold_locales (simp_all add: cinit_def cupd_def compact_step_def Let_def)

definition run_sum :: "point list \<Rightarrow> float64" where
  "run_sum g = foldl fadd (Value (hd g)) (map Value (tl g))"

definition mean_point :: "int64 \<Rightarrow> uint64 \<Rightarrow> point list \<Rightarrow> point" where
  "mean_point step sid g =
     \<lparr>TS = run_bucket step g, Value = fdiv (run_sum g) (f_of_nat (length g)), SeriesID = sid\<rparr>"

lemma foldl_cupd:
  "csum (foldl cupd a ps) = foldl fadd (csum a) (map Value ps)"
  "ccount (foldl cupd a ps) = ccount a + length ps"
  by (induction ps arbitrary: a) (simp_all add: cupd_def)

lemma window_point_run:
  "g \<noteq> [] \<Longrightarrow> window_point sid (cw.run_acc step g) = mean_point step sid g"
  using cw.key_run_acc [of step g]
  by (cases g) (simp_all add: window_point_def mean_point_def cw.run_acc_def foldl_cupd cinit_def run_sum_def)

text \<open>Every point is in exactly one window's mean; there is one window per maximal run.\<close>

lemma aggregateWindow_runs:
  "aggregateWindow pts step = map (mean_point step (SeriesID (hd pts))) (runs step pts)"
  by (auto simp: aggregateWindow_def cw.fold_runs window_point_run runs_nonempty)

lemma aggregateWindow_Nil_iff [simp]: "aggregateWindow pts step = [] \<longleftrightarrow> pts = []"
  by (simp add: aggregateWindow_runs)

lemma aggregateWindow_Nil [simp]: "aggregateWindow [] step = []"
  by (simp add: aggregateWindow_def)

lemma SeriesID_aggregateWindow: "p \<in> set (aggregateWindow pts step) \<Longrightarrow> SeriesID p = SeriesID (hd pts)"
  by (auto simp: aggregateWindow_runs mean_point_def)

lemma TS_aggregateWindow: "map TS (aggregateWindow pts step) = map (run_bucket step) (runs step pts)"
  by (simp add: aggregateWindow_runs mean_point_def)

lemma aggregateWindow_idem:
  assumes "0 < sint step"
  shows "aggregateWindow (aggregateWindow pts step) step = aggregateWindow pts step"
proof -
  let ?out = "aggregateWindow pts step"
  have b: "bucket_start step (TS p) = TS p" if "p \<in> set ?out" for p
  proof -
    from that obtain g where "TS p = run_bucket step g"
      by (auto simp: aggregateWindow_runs mean_point_def)
    with assms show ?thesis by (simp add: run_bucket_def bucket_start_idem)
  qed
  then have "map (\<lambda>p. bucket_start step (TS p)) ?out = map TS ?out" by simp
  then have single: "runs step ?out = map (\<lambda>p. [p]) ?out"
    using runs_adjacent [of step pts] by (intro runs_singletons) (simp add: TS_aggregateWindow)
  have same: "mean_point step (SeriesID (hd ?out)) [p] = p" if "p \<in> set ?out" for p
  proof -
    have hd: "hd ?out \<in> set ?out" using that by (intro hd_in_set) (metis empty_iff empty_set)
    from that obtain x y where "Value p = fdiv x y"
      by (auto simp: aggregateWindow_runs mean_point_def)
    then show ?thesis
      using b [OF that] SeriesID_aggregateWindow [OF that] SeriesID_aggregateWindow [OF hd]
      by (intro point.equality)
         (simp_all add: mean_point_def run_bucket_def run_sum_def f_of_nat_1 [simplified] fdiv_one_again)
  qed
  show ?thesis
    unfolding aggregateWindow_runs [of ?out] single using same by (simp add: map_idI)
qed

lemma aggregateWindow_strict:
  assumes "0 < sint step" and "time_sorted pts"
  shows "time_strict (aggregateWindow pts step)"
proof -
  have "sorted_wrt (\<lambda>a b. a <s b) (map TS (aggregateWindow pts step))"
    using runs_ascending [OF assms] by (simp add: TS_aggregateWindow sorted_wrt_map go_int)
  then show ?thesis by (simp add: time_strict_def sorted_wrt_map)
qed

section \<open>Downsampling a block\<close>

definition downsampled :: "int64 \<Rightarrow> series_points \<Rightarrow> series_points" where
  "downsampled step raw =
     fmmap (\<lambda>pts. aggregateWindow pts step) (fmfilter (\<lambda>sid. series_of raw sid \<noteq> []) raw)"

lemma downsample_fold:
  "fmlookup (fst (fold (compact_series step raw) ks (out, span))) sid =
     (if sid \<in> set ks \<and> series_of raw sid \<noteq> [] then Some (aggregateWindow (series_of raw sid) step)
      else fmlookup out sid)"
  by (induction ks arbitrary: out span) (auto simp: compact_series_def Let_def)

lemma downsample_spans_fold:
  "spans span P \<Longrightarrow>
   spans (snd (fold (compact_series step raw) ks (out, span)))
     (P \<union> (\<Union>sid \<in> set ks. set (aggregateWindow (series_of raw sid) step)))"
proof (induction ks arbitrary: out span P)
  case (Cons k ks)
  show ?case
  proof (cases "series_of raw k = []")
    case True
    then have "compact_series step raw k (out, span) = (out, span)"
      "set (aggregateWindow (series_of raw k) step) = {}"
      by (simp_all add: compact_series_def aggregateWindow_def)
    with Cons.IH [OF Cons.prems, of out] show ?thesis by simp
  next
    case False
    let ?agg = "aggregateWindow (series_of raw k) step"
    from False have "compact_series step raw k (out, span) = (fmupd k ?agg out, fold widen ?agg span)"
      by (simp add: compact_series_def Let_def)
    with Cons.IH [OF fold_widen_spans [OF Cons.prems, of ?agg], of "fmupd k ?agg out"]
    show ?thesis by (simp add: Un_assoc)
  qed
qed simp

lemma downsample_spec:
  assumes "visits ks raw"
  shows "fst (downsample step ks raw) = downsampled step raw"
proof (rule fmap_ext)
  fix sid
  show "fmlookup (fst (downsample step ks raw)) sid = fmlookup (downsampled step raw) sid"
    using visits_mem [OF assms, of sid]
    by (auto simp: downsample_def downsample_fold downsampled_def series_of_def)
qed

lemma downsample_spans:
  "spans (snd (downsample step ks raw)) (\<Union>sid \<in> set ks. set (aggregateWindow (series_of raw sid) step))"
  using downsample_spans_fold [OF spans_none, of step raw ks fmempty] by (simp add: downsample_def)

section \<open>Compacting a block\<close>

lemma finish_source_lookup:
  assumes "iterates ordB"
  shows "fmlookup (blocks (finish_source ordB src s)) k =
    (if garbage (on_block src Block_MarkArchived s) k then None
     else fmlookup (blocks (on_block src Block_MarkArchived s)) k)"
  using Reclaim_spec [OF iterates_visits [OF assms], of "on_block src Block_MarkArchived s"]
  by (simp add: finish_source_def Let_def)

lemma finish_source_frame [simp]:
  "iterates ordB \<Longrightarrow> sNextID (finish_source ordB src s) = sNextID s"
  using Reclaim_spec [OF iterates_visits, of ordB "on_block src Block_MarkArchived s"]
  by (simp add: finish_source_def Let_def)

lemma readable_finish:
  assumes "iterates ordB"
  shows "readable (finish_source ordB src s) k = (if k = src then None else readable s k)"
  using readable_Reclaim [OF iterates_visits [OF assms], of "on_block src Block_MarkArchived s"]
  by (simp add: finish_source_def Let_def readable_mark)

lemma finish_source_held:
  assumes "iterates ordB" and "fmlookup (blocks s) src = Some b" and "bRefs b \<noteq> 0"
  shows "fmlookup (blocks (finish_source ordB src s)) src = Some (Block_MarkArchived b)"
  using assms by (simp add: finish_source_lookup garbage_def on_block_lookup Reclaimable_def)

lemma readable_Close [simp]: "readable (Close h s) k = readable s k"
  unfolding Close_def by (rule readable_on_block) simp_all

lemma Open_readable:
  "readable s bid = Some m \<Longrightarrow>
   \<exists>b. fmlookup (blocks s) bid = Some b \<and> bByID b = m \<and>
     Open bid s = (Inr (Some bid), on_block bid (\<lambda>b. b\<lparr>bRefs := bRefs b + 1\<rparr>) s)"
  by (cases rule: Open_cases [of s bid]) (auto simp: readable_def)

text \<open>
  The three ways a compaction of a readable block ends. \<open>source_step\<close> is the store once the
  source is open and marked, the state every later step starts from.
\<close>

definition source_step :: "block_id \<Rightarrow> store \<Rightarrow> store" where
  "source_step src s = on_block src (\<lambda>b. MarkCompacting (b\<lparr>bRefs := bRefs b + 1\<rparr>)) s"

lemma source_step_facts [simp]:
  "sNextID (source_step src s) = sNextID s"
  "readable (source_step src s) k = readable s k"
  unfolding source_step_def by simp (rule readable_on_block, simp_all)

lemma source_step_inv: "store_inv s \<Longrightarrow> store_inv (source_step src s)"
  unfolding source_step_def by (rule on_block_inv) simp_all

lemma downsampled_empty_iff: "fmsize (downsampled step raw) = 0 \<longleftrightarrow> (\<forall>sid. series_of raw sid = [])"
proof -
  have "fmlookup (downsampled step raw) sid = None \<longleftrightarrow> series_of raw sid = []" for sid
    by (auto simp: downsampled_def series_of_def split: option.splits)
  then show ?thesis by (metis fmap_ext fmempty_lookup fmsize_0_iff)
qed

lemma Compact_readable:
  assumes ord: "iterates ordS" and src: "fmlookup (blocks (dbStore db)) src = Some b" "\<not> bArchived b"
  shows "Compact ordS ordB pol src db =
    (let raw = bByID b; out = downsampled (effective_step (Window pol)) raw;
         span = snd (downsample (effective_step (Window pol)) (ordS raw) raw);
         s1 = source_step src (dbStore db)
     in if fmsize out = 0
        then (Inr 0, db\<lparr>dbStore := Close src (finish_source ordB src s1),
                        dbReg := Inc ''blocks_compacted'' 1 (dbReg db)\<rparr>)
        else (let bid = sNextID (dbStore db) + 1;
                  s3 = on_block bid Block_Seal (snd (Create out (spanMin span) (spanMax span) s1))
              in case Route (bMin b) (dbShards db) of
                   (Inl e, m1) \<Rightarrow> (Inl e, db\<lparr>dbStore := Close src s3, dbShards := m1\<rparr>)
                 | (Inr i, m1) \<Rightarrow>
                     (Inr bid, db\<lparr>dbStore := Close src (finish_source ordB src s3),
                                  dbShards := on_shard i (AddBlock bid) m1,
                                  dbReg := Inc ''blocks_compacted'' 1 (dbReg db)\<rparr>)))"
proof -
  let ?s = "on_block src (\<lambda>b. b\<lparr>bRefs := bRefs b + 1\<rparr>) (dbStore db)"
  have open_src: "Open src (dbStore db) = (Inr (Some src), ?s)"
    using src by (cases rule: Open_cases [of "dbStore db" src]) auto
  have at: "fmlookup (blocks ?s) src = Some (b\<lparr>bRefs := bRefs b + 1\<rparr>)"
    using src by (simp add: on_block_lookup)
  have twice: "on_block src MarkCompacting ?s = source_step src (dbStore db)"
    by (simp add: on_block_twice source_step_def)
  note spec = downsample_spec [OF iterates_visits [OF ord], of "effective_step (Window pol)" "bByID b"]
  have cr: "fst (Create m mn mx (source_step src (dbStore db))) = sNextID (dbStore db) + 1" for m mn mx
    by (simp add: Create_spec)
  show ?thesis
    unfolding Compact_def open_src
    using at twice spec
    by (simp add: compact_held_def Raw_def Block_MinMax_def Let_def split_beta cr
        split: prod.split sum.split)
qed

text \<open>Everything \<open>Compact\<close> does to blocks other than its source and its output: nothing visible.\<close>

definition immutable :: "store \<Rightarrow> block_id \<Rightarrow> bool" where
  "immutable s bid \<longleftrightarrow>
     (\<exists>b. fmlookup (blocks s) bid = Some b \<and> \<not> bArchived b \<and> bState b = BlockImmutable)"

lemma immutable_on_block:
  "(\<And>b. bArchived (f b) = bArchived b) \<Longrightarrow> (\<And>b. bState (f b) = bState b) \<Longrightarrow>
   immutable (on_block bid f s) k = immutable s k"
  by (auto simp: immutable_def on_block_lookup)

lemma immutable_Close [simp]: "immutable (Close bid s) k = immutable s k"
  unfolding Close_def by (rule immutable_on_block) (simp_all add: Block_Release_def)

lemma immutable_finish:
  assumes "iterates ordB"
  shows "immutable (finish_source ordB src s) k \<longleftrightarrow> k \<noteq> src \<and> immutable s k"
  by (auto simp: immutable_def finish_source_lookup [OF assms] on_block_lookup garbage_def Reclaimable_def
      split: if_splits)

lemma immutable_source_step: "k \<noteq> src \<Longrightarrow> immutable (source_step src s) k = immutable s k"
  by (auto simp: immutable_def source_step_def on_block_lookup)

lemma immutable_Create:
  "immutable (snd (Create m mn mx s)) k \<longleftrightarrow> k = sNextID s + 1 \<or> immutable s k"
  by (auto simp: immutable_def Create_spec)

lemma immutable_Seal: "k \<noteq> bid \<Longrightarrow> immutable (on_block bid Block_Seal s) k = immutable s k"
  by (auto simp: immutable_def on_block_lookup)

lemma readable_Seal [simp]: "readable (on_block bid Block_Seal s) k = readable s k"
  by (rule readable_on_block) simp_all

lemma Close_frame [simp]: "sNextID (Close bid s) = sNextID s"
  by (simp add: Close_def)

lemma Create_frame [simp]: "sNextID (snd (Create m mn mx s)) = sNextID s + 1"
  by (simp add: Create_spec)

lemma Compact_effect:
  assumes ord: "iterates ordS" "iterates ordB"
    and src: "fmlookup (blocks (dbStore db)) src = Some b" "\<not> bArchived b"
    and old: "k \<noteq> sNextID (dbStore db) + 1"
    and ok: "Compact ordS ordB pol src db = (Inr r, db')"
  shows "readable (dbStore db') k = (if k = src then None else readable (dbStore db) k)"
    and "immutable (dbStore db') k \<longleftrightarrow> k \<noteq> src \<and> immutable (dbStore db) k"
    and "sNextID (dbStore db') \<in> {sNextID (dbStore db), sNextID (dbStore db) + 1}"
proof -
  let ?out = "downsampled (effective_step (Window pol)) (bByID b)"
  consider "fmsize ?out = 0" | "fmsize ?out \<noteq> 0" by blast
  then have "readable (dbStore db') k = (if k = src then None else readable (dbStore db) k) \<and>
    (immutable (dbStore db') k \<longleftrightarrow> k \<noteq> src \<and> immutable (dbStore db) k) \<and>
    sNextID (dbStore db') \<in> {sNextID (dbStore db), sNextID (dbStore db) + 1}"
  proof cases
    case 1
    then have "dbStore db' = Close src (finish_source ordB src (source_step src (dbStore db)))"
      using ok by (auto simp: Compact_readable [OF ord(1) src])
    then show ?thesis
      by (auto simp: readable_finish [OF ord(2)] immutable_finish [OF ord(2)] immutable_source_step ord(2))
  next
    case 2
    then obtain mn mx where "dbStore db' = Close src (finish_source ordB src
        (on_block (sNextID (dbStore db) + 1) Block_Seal
          (snd (Create ?out mn mx (source_step src (dbStore db))))))"
      using ok by (auto simp: Compact_readable [OF ord(1) src] Let_def split: sum.splits prod.splits)
    with old show ?thesis
      by (auto simp: readable_finish [OF ord(2)] immutable_finish [OF ord(2)] immutable_Seal
          immutable_Create immutable_source_step readable_Create ord(2))
  qed
  then show "readable (dbStore db') k = (if k = src then None else readable (dbStore db) k)"
    and "immutable (dbStore db') k \<longleftrightarrow> k \<noteq> src \<and> immutable (dbStore db) k"
    and "sNextID (dbStore db') \<in> {sNextID (dbStore db), sNextID (dbStore db) + 1}"
    by auto
qed

section \<open>Compacting every block\<close>

lemma peek_spec:
  "peek f bid s =
     (case fmlookup (blocks s) bid of
        None \<Rightarrow> None
      | Some b \<Rightarrow> if bArchived b then None else Some (f (b\<lparr>bRefs := bRefs b + 1\<rparr>)), s)"
proof (cases rule: Open_cases [of s bid])
  case (opened b)
  then show ?thesis
    using Open_Close [OF opened(3)] by (simp add: peek_def on_block_lookup)
qed (simp_all add: peek_def)

lemma peek_immutable: "peek bState bid s = (st, s') \<Longrightarrow> s' = s \<and> (st = Some BlockImmutable \<longleftrightarrow> immutable s bid)"
  by (auto simp: peek_spec immutable_def split: option.splits if_splits)

lemma Eligible_spec: "Eligible ids s = (filter (immutable s) ids, s)"
proof -
  have "eligible_loop ids out s = (out @ filter (immutable s) ids, s)" for out
  proof (induction ids arbitrary: out)
    case (Cons bid ids)
    obtain st s' where p: "peek bState bid s = (st, s')" by (rule prod.exhaust)
    from peek_immutable [OF p] p Cons show ?case by simp
  qed simp
  then show ?thesis by (simp add: Eligible_def store_List_def)
qed

lemma Compact_absent:
  "readable (dbStore db) src = None \<Longrightarrow> dbStore (snd (Compact ordS ordB pol src db)) = dbStore db"
  by (cases rule: Open_cases [of "dbStore db" src]) (auto simp: Compact_def readable_def)

definition jobs_ok :: "compact_job list \<Rightarrow> store \<Rightarrow> bool" where
  "jobs_ok jobs s \<longleftrightarrow> distinct (map fst jobs)
     \<and> list_all (\<lambda>(bid, ordS, ordB). bid \<le> sNextID s \<and> iterates ordS \<and> iterates ordB) jobs
     \<and> unat (sNextID s) + length jobs < 2 ^ 64"

lemma fresh_unat:
  fixes n :: uint64
  assumes "unat n + 1 < 2 ^ 64"
  shows "n + 1 \<noteq> 0" and "k \<le> n \<Longrightarrow> k \<noteq> n + 1" and "unat (n + 1) = unat n + 1"
proof -
  show n: "n + 1 \<noteq> 0" using assms unat_word_ariths(1) [of n 1] by auto
  then show "unat (n + 1) = unat n + 1" by (rule unat_succ)
  show "k \<noteq> n + 1" if "k \<le> n" using that less_self_succ [OF n] by auto
qed

lemma jobs_ok_next:
  assumes "jobs_ok (job # jobs) s" and "sNextID s' \<in> {sNextID s, sNextID s + 1}"
  shows "jobs_ok jobs s'"
proof -
  have n: "unat (sNextID s) + 1 < 2 ^ 64" using assms(1) by (simp add: jobs_ok_def)
  have "unat (sNextID s') \<le> unat (sNextID s) + 1" and "sNextID s \<le> sNextID s'"
    using assms(2) fresh_unat [OF n] less_self_succ [of "sNextID s"] by (auto simp: word_le_nat_alt)
  with assms(1) show ?thesis by (fastforce simp: jobs_ok_def list_all_iff)
qed

lemma compact_loop_effect:
  assumes "jobs_ok jobs (dbStore db)" and "compact_loop pol jobs n db = ((m, None), db')"
    and "k \<le> sNextID (dbStore db)"
  shows "m = n + length (filter (immutable (dbStore db)) (map fst jobs))
    \<and> readable (dbStore db') k =
        (if k \<in> set (map fst jobs) \<and> immutable (dbStore db) k then None else readable (dbStore db) k)
    \<and> (immutable (dbStore db') k \<longleftrightarrow> k \<notin> set (map fst jobs) \<and> immutable (dbStore db) k)"
  using assms
proof (induction jobs arbitrary: n db)
  case (Cons job jobs)
  obtain bid ordS ordB where job: "job = (bid, ordS, ordB)" by (rule prod_cases3)
  let ?s = "dbStore db"
  have ord: "iterates ordS" "iterates ordB" and nx: "unat (sNextID ?s) + 1 < 2 ^ 64"
    and old: "\<forall>j \<in> set (map fst jobs). j \<le> sNextID ?s \<and> j \<noteq> bid"
    using Cons.prems(1) by (auto simp: jobs_ok_def job list_all_iff)
  obtain st s' where p: "peek bState bid ?s = (st, s')" by (rule prod.exhaust)
  note pk = peek_immutable [OF p]
  show ?case
  proof (cases "immutable ?s bid")
    case False
    have "jobs_ok jobs ?s" by (rule jobs_ok_next [OF Cons.prems(1)]) simp
    moreover have "compact_loop pol jobs n db = ((m, None), db')"
      using Cons.prems(2) p pk False by (simp add: job)
    ultimately show ?thesis
      using Cons.IH [of db n] Cons.prems(3) False by (auto simp: job)
  next
    case True
    then obtain b where b: "fmlookup (blocks ?s) bid = Some b" "\<not> bArchived b" by (auto simp: immutable_def)
    from Cons.prems(2) p pk True obtain r db2 where
      c: "Compact ordS ordB pol bid db = (Inr r, db2)" and
      l: "compact_loop pol jobs (n + 1) db2 = ((m, None), db')"
      by (auto simp: job split: prod.splits sum.splits)
    note eff = Compact_effect [OF ord b _ c]
    have kn: "j \<noteq> sNextID ?s + 1" if "j \<le> sNextID ?s" for j
      using fresh_unat(2) [OF nx that] .
    have "sNextID (dbStore db2) \<in> {sNextID ?s, sNextID ?s + 1}"
      using eff(3) [OF kn, of "sNextID ?s"] by simp
    moreover have "k \<le> sNextID (dbStore db2)"
      using calculation Cons.prems(3) less_self_succ [OF fresh_unat(1) [OF nx]] by auto
    moreover have "filter (immutable (dbStore db2)) (map fst jobs) = filter (immutable ?s) (map fst jobs)"
      using eff(2) kn old by (intro filter_cong) auto
    ultimately show ?thesis
      using Cons.IH [OF jobs_ok_next [OF Cons.prems(1)] l] eff(1,2) [OF kn [OF Cons.prems(3)]] True
      by (auto simp: job)
  qed
qed simp

section \<open>References\<close>

text \<open>\<open>same_refs\<close>: every block but a fresh one has the reader count it had before.\<close>

definition ref_delta :: "block_id \<Rightarrow> nat \<Rightarrow> store \<Rightarrow> store \<Rightarrow> bool" where
  "ref_delta src d s s' \<longleftrightarrow>
     (\<forall>k b'. k \<noteq> sNextID s + 1 \<longrightarrow> fmlookup (blocks s') k = Some b' \<longrightarrow>
        (\<exists>b. fmlookup (blocks s) k = Some b \<and> bRefs b' = bRefs b + (if k = src then d else 0)))
     \<and> (\<exists>b'. fmlookup (blocks s') src = Some b')"

lemma ref_delta_source_step:
  "fmlookup (blocks s) src = Some b \<Longrightarrow> ref_delta src 1 s (source_step src s)"
  by (auto simp: ref_delta_def source_step_def on_block_lookup)

lemma ref_delta_on_block:
  "ref_delta src d s s' \<Longrightarrow> (\<And>b. bRefs (f b) = bRefs b) \<Longrightarrow> ref_delta src d s (on_block bid f s')"
  by (fastforce simp: ref_delta_def on_block_lookup split: if_splits)

lemma ref_delta_Create:
  assumes "ref_delta src d s s'" and "sNextID s' = sNextID s" and "src \<noteq> sNextID s + 1"
  shows "ref_delta src d s (snd (Create m mn mx s'))"
  using assms by (auto simp: ref_delta_def Create_spec)

lemma ref_delta_finish:
  assumes "ref_delta src (Suc d) s s'" and "iterates ordB" and "src \<noteq> sNextID s + 1"
  shows "ref_delta src (Suc d) s (finish_source ordB src s')"
proof -
  obtain b' where "fmlookup (blocks s') src = Some b'" "bRefs b' \<noteq> 0"
    using assms(1,3) by (fastforce simp: ref_delta_def)
  from finish_source_held [OF assms(2) this]
  have "\<exists>b'. fmlookup (blocks (finish_source ordB src s')) src = Some b'" by blast
  moreover have "ref_delta src (Suc d) s (on_block src Block_MarkArchived s')"
    using assms(1) by (rule ref_delta_on_block) simp
  ultimately show ?thesis
    unfolding ref_delta_def finish_source_lookup [OF assms(2)] by (auto split: if_splits)
qed

lemma ref_delta_Close:
  assumes "ref_delta src 1 s s'"
  shows "ref_delta src 0 s (Close src s')"
proof -
  have "\<exists>b. fmlookup (blocks s) k = Some b \<and> bRefs b' = bRefs b"
    if "k \<noteq> sNextID s + 1" "fmlookup (blocks (Close src s')) k = Some b'" for k b'
  proof -
    from that(2) obtain b1 where "fmlookup (blocks s') k = Some b1"
      "b' = (if k = src then Block_Release b1 else b1)"
      by (auto simp: Close_def on_block_lookup split: if_splits)
    moreover from this(1) that(1) assms obtain b where "fmlookup (blocks s) k = Some b"
      "bRefs b1 = bRefs b + (if k = src then 1 else 0)"
      unfolding ref_delta_def by blast
    ultimately show ?thesis by auto
  qed
  moreover have "\<exists>b'. fmlookup (blocks (Close src s')) src = Some b'"
    using assms by (auto simp: ref_delta_def Close_def on_block_lookup)
  ultimately show ?thesis by (simp add: ref_delta_def)
qed

lemma Compact_ref_delta:
  assumes ord: "iterates ordS" "iterates ordB" and inv: "store_inv (dbStore db)"
    and nx: "sNextID (dbStore db) + 1 \<noteq> 0"
    and src: "fmlookup (blocks (dbStore db)) src = Some b" "\<not> bArchived b"
  shows "ref_delta src 0 (dbStore db) (dbStore (snd (Compact ordS ordB pol src db)))"
proof -
  let ?s = "dbStore db" and ?s1 = "source_step src (dbStore db)"
  have ne: "src \<noteq> sNextID ?s + 1"
    using store_inv_at(3) [OF inv src(1)] less_self_succ [OF nx] by auto
  have s1: "ref_delta src (Suc 0) ?s ?s1" using ref_delta_source_step [OF src(1)] by simp
  have s3: "ref_delta src (Suc 0) ?s (on_block bid Block_Seal (snd (Create m mn mx ?s1)))" for bid m mn mx
    by (intro ref_delta_on_block ref_delta_Create s1 ne) simp_all
  note fin = ref_delta_finish [OF s1 ord(2) ne] ref_delta_finish [OF s3 ord(2) ne]
  show ?thesis
    using fin s3 ref_delta_Close
    by (auto simp: Compact_readable [OF ord(1) src] Let_def split: sum.split prod.split)
qed

section \<open>Properties\<close>

text \<open>
  C13. \<open>aggregateWindow\<close> cuts a series into maximal runs of points of one window, without losing
  or repeating a point, and puts out the mean of each run at the window's start.
\<close>

theorem aggregateWindow_means:
  "aggregateWindow pts step = map (mean_point step (SeriesID (hd pts))) (runs step pts)
   \<and> concat (runs step pts) = pts
   \<and> distinct_adj (map (run_bucket step) (runs step pts))
   \<and> list_all (\<lambda>g. g \<noteq> [] \<and> list_all (\<lambda>p. bucket_start step (TS p) = run_bucket step g) g) (runs step pts)"
  using aggregateWindow_runs concat_runs runs_adjacent runs_same_bucket
  by (auto simp: list_all_iff dest: runs_nonempty)

text \<open>
  On a time-ordered series the output is strictly time-ordered, and its timestamps are
  exactly the starts of the windows that hold a point.
\<close>

theorem aggregateWindow_windows:
  assumes "0 <s step" and "time_sorted pts"
  shows "time_strict (aggregateWindow pts step)
    \<and> TS ` set (aggregateWindow pts step) = (\<lambda>p. bucket_start step (TS p)) ` set pts"
proof -
  have "TS ` set (aggregateWindow pts step) = run_bucket step ` set (runs step pts)"
    using TS_aggregateWindow [of pts step] by (metis list.set_map)
  then show ?thesis
    using assms by (simp add: aggregateWindow_strict set_runs_buckets go_int)
qed

theorem aggregateWindow_windows_witness:
  "time_strict (aggregateWindow three_points 60)
    \<and> TS ` set (aggregateWindow three_points 60) = (\<lambda>p. bucket_start 60 (TS p)) ` set three_points"
  by (rule aggregateWindow_windows [OF _ three_points_sorted(1)]) (simp add: go_int)

text \<open>
  C14. Downsampling at the same step again changes nothing, bit for bit: a downsampled block
  that is compacted once more keeps its points.
\<close>

theorem aggregateWindow_again:
  assumes "0 <s step"
  shows "aggregateWindow (aggregateWindow pts step) step = aggregateWindow pts step"
  using assms by (simp add: aggregateWindow_idem go_int)

theorem aggregateWindow_again_witness:
  "aggregateWindow (aggregateWindow three_points 60) 60 = aggregateWindow three_points 60"
  by (rule aggregateWindow_again) (simp add: go_int)

text \<open>
  C15. A successful compaction replaces the source, for readers, by one new block holding the
  downsampled series: the source no longer opens, the new block is listed by the shard that
  the source's first timestamp routes to, every other block reads as before, and the counter
  \<open>blocks_compacted\<close> grows by one.
\<close>

theorem Compact_replaces:
  assumes "iterates ordS" and "iterates ordB" and "store_inv (dbStore db)" and "sNextID (dbStore db) + 1 \<noteq> 0"
    and src: "fmlookup (blocks (dbStore db)) src = Some b" "\<not> bArchived b" "series_of (bByID b) sid \<noteq> []"
    and route: "Route (bMin b) (dbShards db) = (Inr i, m)"
  shows "\<exists>db'. Compact ordS ordB pol src db = (Inr (sNextID (dbStore db) + 1), db')
    \<and> readable (dbStore db') = (readable (dbStore db))
        (src := None, sNextID (dbStore db) + 1 := Some (downsampled (effective_step (Window pol)) (bByID b)))
    \<and> dbShards db' = on_shard i (AddBlock (sNextID (dbStore db) + 1)) m
    \<and> counter_value ''blocks_compacted'' (dbReg db') = counter_value ''blocks_compacted'' (dbReg db) + 1"
proof -
  have ne: "src \<noteq> sNextID (dbStore db) + 1"
    using store_inv_at(3) [OF assms(3) src(1)] less_self_succ [OF assms(4)] by auto
  have "fmsize (downsampled (effective_step (Window pol)) (bByID b)) \<noteq> 0"
    using src(3) unfolding downsampled_empty_iff by blast
  then show ?thesis
    using ne by (simp add: Compact_readable [OF assms(1) src(1,2)] Let_def route counter_value_Inc fun_eq_iff
        readable_finish [OF assms(2)] readable_Create)
qed

theorem Compact_replaces_witness:
  "\<exists>db'. Compact key_order key_order \<lparr>Window = 60\<rparr> 1 demo_db = (Inr 2, db')
    \<and> readable (dbStore db') = (readable demo_store)
        (1 := None, 2 := Some (downsampled (effective_step 60) (fmupd 7 three_points fmempty)))
    \<and> dbShards db' = on_shard 0 (AddBlock 2) demo_manager
    \<and> counter_value ''blocks_compacted'' (dbReg db') = 1"
  using Compact_replaces [of key_order key_order demo_db 1 demo_block 7 0 demo_manager "\<lparr>Window = 60\<rparr>"]
  by (simp add: demo_facts iterates_key_order demo_block_def three_points_sorted)
     (simp add: demo_db_def counter_value_def NewRegistry_def)

text \<open>
  C16. When the shard manager rejects the source's first timestamp, because a later window has
  become active since, \<open>Compact\<close> returns that error with the new block already created: the
  source stays readable, no shard lists the new block, and the source is left compacting.
\<close>

theorem Compact_rejected:
  assumes "iterates ordS" and "iterates ordB" and "store_inv (dbStore db)" and "sNextID (dbStore db) + 1 \<noteq> 0"
    and src: "fmlookup (blocks (dbStore db)) src = Some b" "\<not> bArchived b" "series_of (bByID b) sid \<noteq> []"
    and route: "Route (bMin b) (dbShards db) = (Inl e, m)"
  shows "\<exists>db'. Compact ordS ordB pol src db = (Inl e, db')
    \<and> readable (dbStore db') = (readable (dbStore db))
        (sNextID (dbStore db) + 1 := Some (downsampled (effective_step (Window pol)) (bByID b)))
    \<and> dbShards db' = dbShards db \<and> \<not> (immutable (dbStore db') src)"
proof -
  have ne: "src \<noteq> sNextID (dbStore db) + 1"
    using store_inv_at(3) [OF assms(3) src(1)] less_self_succ [OF assms(4)] by auto
  have "fmsize (downsampled (effective_step (Window pol)) (bByID b)) \<noteq> 0"
    using src(3) unfolding downsampled_empty_iff by blast
  moreover have "m = dbShards db" using Route_error_state [OF route] .
  moreover have "\<not> immutable (source_step src (dbStore db)) src"
    by (auto simp: immutable_def source_step_def on_block_lookup MarkCompacting_def)
  ultimately show ?thesis
    using ne by (auto simp: Compact_readable [OF assms(1) src(1,2)] Let_def route fun_eq_iff
        readable_Create immutable_Seal immutable_Create)
qed

theorem Compact_rejected_witness:
  "\<exists>db'. Compact key_order key_order \<lparr>Window = 60\<rparr> 1 (demo_db\<lparr>dbShards := late_manager\<rparr>)
      = (Inl (ErrBeforeActive 5 7200), db')
    \<and> readable (dbStore db') = (readable demo_store)
        (2 := Some (downsampled (effective_step 60) (fmupd 7 three_points fmempty)))
    \<and> dbShards db' = late_manager \<and> \<not> immutable (dbStore db') 1"
proof -
  have "Route 5 late_manager = (Inl (ErrBeforeActive 5 7200), late_manager)"
    by (simp add: late_manager_def Route_def new_shard_def go_int)
  then show ?thesis
    using Compact_rejected [of key_order key_order "demo_db\<lparr>dbShards := late_manager\<rparr>" 1 demo_block 7
        "ErrBeforeActive 5 7200" late_manager "\<lparr>Window = 60\<rparr>"]
    by (simp add: demo_facts iterates_key_order demo_block_def three_points_sorted)
qed

text \<open>
  However a compaction ends, it gives back the reference it took: every block that was
  there keeps its reader count if it is still there, and the source itself is still there,
  so it is never reclaimed by its own run.
\<close>

theorem Compact_references:
  assumes "iterates ordS" and "iterates ordB" and "store_inv (dbStore db)" and "sNextID (dbStore db) + 1 \<noteq> 0"
    and "fmlookup (blocks (dbStore db)) src = Some b" "\<not> bArchived b"
    and "k \<noteq> sNextID (dbStore db) + 1"
    and "fmlookup (blocks (dbStore (snd (Compact ordS ordB pol src db)))) k = Some b'"
  shows "(\<exists>b. fmlookup (blocks (dbStore db)) k = Some b \<and> bRefs b' = bRefs b)
    \<and> fmlookup (blocks (dbStore (snd (Compact ordS ordB pol src db)))) src \<noteq> None"
  using Compact_ref_delta [OF assms(1-6), of pol] assms(7,8) by (auto simp: ref_delta_def)

theorem Compact_references_witness:
  "\<exists>b'. fmlookup (blocks (dbStore (snd (Compact key_order key_order \<lparr>Window = 60\<rparr> 1 demo_db)))) 1 = Some b'
    \<and> bRefs b' = 0"
proof -
  let ?s' = "dbStore (snd (Compact key_order key_order \<lparr>Window = 60\<rparr> 1 demo_db))"
  have "ref_delta 1 0 demo_store ?s'"
    using Compact_ref_delta [of key_order key_order demo_db 1 demo_block]
    by (simp add: demo_facts iterates_key_order demo_block_def)
  then obtain b' where b': "fmlookup (blocks ?s') 1 = Some b'" by (auto simp: ref_delta_def)
  have "\<exists>b. fmlookup (blocks demo_store) 1 = Some b \<and> bRefs b' = bRefs b"
    using Compact_references [of key_order key_order demo_db 1 demo_block 1 "\<lparr>Window = 60\<rparr>" b'] b'
    by (simp add: demo_facts iterates_key_order) (simp add: demo_block_def)
  with b' show ?thesis by (simp add: demo_facts) (simp add: demo_block_def)
qed

text \<open>
  A \<open>CompactAll\<close> over the store's blocks that returns no error has compacted each block that
  was immutable and readable when it started, and counts them; none of them opens any more,
  and the blocks of other states read as before.
\<close>

theorem CompactAll_compacts:
  assumes "jobs_ok jobs (dbStore db)" and "CompactAll pol jobs db = ((n, None), db')"
    and "k \<le> sNextID (dbStore db)" and "k \<in> set (map fst jobs)"
  shows "n = length (filter (immutable (dbStore db)) (map fst jobs))
    \<and> readable (dbStore db') k = (if immutable (dbStore db) k then None else readable (dbStore db) k)
    \<and> \<not> immutable (dbStore db') k"
  using compact_loop_effect [OF assms(1) _ assms(3), of pol 0 n db'] assms(2,4)
  by (simp add: CompactAll_def)

theorem CompactAll_compacts_witness:
  "\<exists>db'. CompactAll \<lparr>Window = 60\<rparr> [(1, key_order, key_order)] demo_db = ((1, None), db')
    \<and> readable (dbStore db') 1 = None"
proof -
  let ?jobs = "[(1, key_order, key_order)] :: compact_job list"
  have imm: "immutable demo_store 1" by (simp add: immutable_def demo_facts) (simp add: demo_block_def)
  have "\<exists>db'. Compact key_order key_order \<lparr>Window = 60\<rparr> 1 demo_db = (Inr 2, db')"
    by (simp add: Compact_readable [of key_order demo_db 1 demo_block] demo_facts iterates_key_order Let_def
        downsampled_empty_iff demo_block_def) (auto simp: three_points_sorted)
  moreover obtain st s' where p: "peek bState 1 demo_store = (st, s')" by (rule prod.exhaust)
  moreover have "demo_db\<lparr>dbStore := demo_store\<rparr> = demo_db" by (simp add: demo_db_def)
  ultimately obtain db' where run: "CompactAll \<lparr>Window = 60\<rparr> ?jobs demo_db = ((1, None), db')"
    using peek_immutable [OF p] imm by (auto simp: CompactAll_def demo_facts)
  moreover have "jobs_ok ?jobs (dbStore demo_db)"
    by (simp add: jobs_ok_def iterates_key_order demo_facts)
  ultimately show ?thesis
    using CompactAll_compacts [of ?jobs demo_db "\<lparr>Window = 60\<rparr>" 1 db' 1] imm by (simp add: demo_facts)
qed

end
