(* ===== verification/Sweeper.thy ===== *)
theory Sweeper
  imports Compactor
begin

text \<open>
  The retention sweeper, \<open>internal/retention\<close>: every readable block whose newest point is at
  or before the cutoff is archived, the store is reclaimed, and the shards that end by the
  cutoff are archived. \<open>ids\<close> and \<open>ordB\<close> are the iteration orders of \<open>List\<close> and \<open>Reclaim\<close>.
\<close>

definition Cutoff :: "retention_policy \<Rightarrow> int64 \<Rightarrow> int64" where
  "Cutoff pol now = now - MaxAge pol"

definition Step :: "retention_policy \<Rightarrow> int64" where
  "Step pol = SweepStep pol"

definition sweep_one :: "int64 \<Rightarrow> block_id \<Rightarrow> sweep_result \<times> store \<Rightarrow> sweep_result \<times> store" where
  "sweep_one cutoff bid = (\<lambda>(res, s).
     case peek Block_MinMax bid s of
       (None, s1) \<Rightarrow> (res, s1)
     | (Some (mn, max_ts), s1) \<Rightarrow>
         let res1 = res\<lparr>Scanned := Scanned res + 1\<rparr>
         in if max_ts \<le>s cutoff then (res1, MarkArchived bid s1) else (res1, s1))"

definition Sweep ::
  "block_id list \<Rightarrow> ((block_id, block) fmap \<Rightarrow> block_id list) \<Rightarrow> retention_policy \<Rightarrow> int64 \<Rightarrow> database
    \<Rightarrow> sweep_result \<times> database" where
  "Sweep ids ordB pol now db =
     (let cutoff = Cutoff pol now;
          (res, s) = fold (sweep_one cutoff) (store_List ids (dbStore db))
                       (\<lparr>Scanned = 0, Removed = 0\<rparr>, dbStore db);
          (n, s1) = Reclaim (ordB (blocks s)) s;
          (archived, m) = ArchiveOlderThan cutoff (dbShards db);
          reg = Gauge_Add ''blocks_retained'' (- word_of_nat n) (Inc ''retention_sweeps'' 1 (dbReg db))
      in (res\<lparr>Removed := n\<rparr>, \<lparr>dbStore = s1, dbShards = m, dbReg = reg\<rparr>))"

section \<open>What one pass does to a block\<close>

text \<open>
  \<open>expired\<close> blocks are archived by the pass; \<open>swept\<close> is what the pass and the reclaim after it
  leave of a block.
\<close>

definition expired :: "int64 \<Rightarrow> block \<Rightarrow> bool" where
  "expired cutoff b \<longleftrightarrow> \<not> bArchived b \<and> bMax b \<le>s cutoff"

definition mark_expired :: "int64 \<Rightarrow> block \<Rightarrow> block" where
  "mark_expired cutoff b = (if expired cutoff b then Block_MarkArchived b else b)"

definition swept :: "int64 \<Rightarrow> block \<Rightarrow> block option" where
  "swept cutoff b =
     (if (bArchived b \<or> bMax b \<le>s cutoff) \<and> bRefs b = 0 then None else Some (mark_expired cutoff b))"

definition scanned :: "store \<Rightarrow> block_id \<Rightarrow> bool" where
  "scanned s bid \<longleftrightarrow> readable s bid \<noteq> None"

lemma sweep_one_spec:
  "sweep_one cutoff bid (res, s) =
     (res\<lparr>Scanned := Scanned res + (if scanned s bid then 1 else 0)\<rparr>, on_block bid (mark_expired cutoff) s)"
proof (cases "fmlookup (blocks s) bid")
  case None
  then show ?thesis by (simp add: sweep_one_def peek_spec scanned_def readable_def on_block_def)
next
  case (Some b)
  have skip: "on_block bid (mark_expired cutoff) s = s" if "\<not> expired cutoff b"
    using Some that by (intro on_block_id) (simp add: mark_expired_def)
  have mark: "on_block bid (mark_expired cutoff) s = MarkArchived bid s" if "expired cutoff b"
    using Some that by (simp add: MarkArchived_on_block on_block_def mark_expired_def)
  show ?thesis
    using Some skip mark
    by (auto simp: sweep_one_def peek_spec scanned_def readable_def Block_MinMax_def expired_def Let_def)
qed

lemma sweep_fold:
  assumes "distinct ids"
  shows "fst (fold (sweep_one cutoff) ids (res, s)) =
      res\<lparr>Scanned := Scanned res + length (filter (scanned s) ids)\<rparr>"
    and "fmlookup (blocks (snd (fold (sweep_one cutoff) ids (res, s)))) k =
      (if k \<in> set ids then map_option (mark_expired cutoff) (fmlookup (blocks s) k)
       else fmlookup (blocks s) k)"
    and "sNextID (snd (fold (sweep_one cutoff) ids (res, s))) = sNextID s"
    and "removed (snd (fold (sweep_one cutoff) ids (res, s))) = removed s"
  using assms
proof (induction ids arbitrary: res s)
  case (Cons bid ids)
  case 1
  have "filter (scanned (on_block bid (mark_expired cutoff) s)) ids = filter (scanned s) ids"
    using 1 by (intro filter_cong) (auto simp: scanned_def readable_def on_block_lookup)
  with Cons.IH(1) 1 show ?case by (simp add: sweep_one_spec)
next
  case (Cons bid ids)
  case 2
  with Cons.IH(2) show ?case by (auto simp: sweep_one_spec on_block_lookup)
qed (simp_all add: sweep_one_spec)

lemma Sweep_parts:
  assumes "visits ids (blocks (dbStore db))" and "iterates ordB"
    and run: "Sweep ids ordB pol now db = (res, db')"
  shows "Scanned res = length (filter (scanned (dbStore db)) ids)"
    and "fmlookup (blocks (dbStore db')) k =
      Option.bind (fmlookup (blocks (dbStore db)) k) (swept (Cutoff pol now))"
    and "dbShards db' = snd (ArchiveOlderThan (Cutoff pol now) (dbShards db))"
    and "sNextID (dbStore db') = sNextID (dbStore db)"
    and "Removed res + removed (dbStore db) = removed (dbStore db')"
proof -
  let ?c = "Cutoff pol now" and ?s = "dbStore db"
  let ?f = "fold (sweep_one ?c) ids (\<lparr>Scanned = 0, Removed = 0\<rparr>, ?s)"
  note f = sweep_fold [OF visits_distinct [OF assms(1)], of ?c "\<lparr>Scanned = 0, Removed = 0\<rparr>" ?s]
  note rc = Reclaim_spec [OF iterates_visits [OF assms(2)], of "snd ?f"]
  from run have parts: "Scanned res = Scanned (fst ?f)" "dbStore db' = snd (Reclaim (ordB (blocks (snd ?f))) (snd ?f))"
    "Removed res = fst (Reclaim (ordB (blocks (snd ?f))) (snd ?f))"
    "dbShards db' = snd (ArchiveOlderThan ?c (dbShards db))"
    by (auto simp: Sweep_def store_List_def Let_def split_beta)
  show "Scanned res = length (filter (scanned ?s) ids)" using parts(1) f(1) by simp
  show "dbShards db' = snd (ArchiveOlderThan ?c (dbShards db))" by (rule parts(4))
  show "sNextID (dbStore db') = sNextID ?s" using parts(2) rc f(3) by simp
  show "Removed res + removed ?s = removed (dbStore db')" using parts(2,3) rc f(4) by simp
  have marked: "fmlookup (blocks (snd ?f)) k = map_option (mark_expired ?c) (fmlookup (blocks ?s) k)" for k
    using f(2) visits_mem [OF assms(1), of k] by (cases "fmlookup (blocks ?s) k") auto
  show "fmlookup (blocks (dbStore db')) k = Option.bind (fmlookup (blocks ?s) k) (swept ?c)"
    unfolding parts(2) using rc marked
    by (cases "fmlookup (blocks ?s) k")
       (auto simp: garbage_def swept_def mark_expired_def expired_def Reclaimable_def)
qed

section \<open>Properties\<close>

text \<open>
  C17. A sweep visits every readable block once, archives those whose newest point is at or
  before the cutoff, removes exactly the archived blocks no reader holds and leaves all others
  as they are; the shards are those \<open>ArchiveOlderThan\<close> leaves. The comparison takes the cutoff
  itself as expired: a block that ends exactly there goes, although the comments ask for it to
  be kept (the oldest timestamp that must be retained; only data older than it is removed).
\<close>

theorem Sweep_effect:
  assumes "visits ids (blocks (dbStore db))" and "iterates ordB"
    and "Sweep ids ordB pol now db = (res, db')"
  shows "Scanned res = length (filter (scanned (dbStore db)) ids)
    \<and> fmlookup (blocks (dbStore db')) k =
        Option.bind (fmlookup (blocks (dbStore db)) k) (swept (Cutoff pol now))
    \<and> dbShards db' = snd (ArchiveOlderThan (Cutoff pol now) (dbShards db))
    \<and> Removed res + removed (dbStore db) = removed (dbStore db')"
  using Sweep_parts [OF assms] by simp

theorem Sweep_effect_witness:
  "let (res, db') = Sweep [1] key_order \<lparr>MaxAge = 100, SweepStep = 60\<rparr> 165 demo_db
   in Scanned res = 1 \<and> fmlookup (blocks (dbStore db')) 1 = None \<and> Removed res = removed (dbStore db')"
proof -
  obtain res db' where run: "Sweep [1] key_order \<lparr>MaxAge = 100, SweepStep = 60\<rparr> 165 demo_db = (res, db')"
    by (rule prod.exhaust)
  have v: "visits [1] (blocks (dbStore demo_db))"
    by (simp add: visits_iff demo_db_def demo_store_def Create_spec NewStore_def)
  have "removed demo_store = 0" by (simp add: demo_store_def Create_spec NewStore_def)
  with Sweep_effect [OF v iterates_key_order run, of 1] show ?thesis
    by (simp add: run demo_facts Cutoff_def swept_def scanned_def readable_def demo_block_def go_int)
qed

text \<open>
  Retention never takes a point that is younger than the cutoff from a reader: a readable
  point of a block whose recorded maximum bounds its points is still readable after the sweep.
\<close>

theorem Sweep_keeps_young:
  assumes "visits ids (blocks (dbStore db))" and "iterates ordB"
    and "fmlookup (blocks (dbStore db)) k = Some b" and "readable (dbStore db) k = Some m"
    and "p \<in> set (series_of m sid)" and "TS p \<le>s bMax b" and "Cutoff pol now <s TS p"
  shows "readable (dbStore (snd (Sweep ids ordB pol now db))) k = Some m"
proof -
  obtain res db' where run: "Sweep ids ordB pol now db = (res, db')" by (rule prod.exhaust)
  have "\<not> bArchived b" "bByID b = m" using assms(3,4) by (auto simp: readable_def split: if_splits)
  moreover have "\<not> bMax b \<le>s Cutoff pol now" using assms(6,7) by (simp add: go_int)
  ultimately show ?thesis
    using Sweep_parts(2) [OF assms(1,2) run, of k] assms(3)
    by (simp add: run readable_def swept_def mark_expired_def expired_def)
qed

theorem Sweep_keeps_young_witness:
  "readable (dbStore (snd (Sweep [1] key_order \<lparr>MaxAge = 100, SweepStep = 60\<rparr> 164 demo_db))) 1
    = Some (fmupd 7 three_points fmempty)"
  by (rule Sweep_keeps_young [where b = demo_block and p = "\<lparr>TS = 65, Value = 0x4045000000000000, SeriesID = 7\<rparr>"
        and sid = 7])
     (simp_all add: demo_facts iterates_key_order readable_def,
      simp_all add: demo_block_def three_points_def Cutoff_def go_int visits_iff demo_store_def Create_spec NewStore_def)

end
