(* ===== verification/Server.thy ===== *)
theory Server
  imports IngestFlow Sweeper
begin

text \<open>
  The process, \<open>cmd/metricstore\<close>: start-up, the HTTP handlers and the periodic jobs, as
  functions from the server's state to a response and the next state. The pipeline, the query
  engine, the compactor and the sweeper share the store, the shard manager, the index and the
  registry, which all live in the pipeline's record.

  A request is its method, path, content type, query parameters and body. The record
  \<open>choices\<close> holds what the code leaves to its environment: the iteration orders of the maps,
  \<open>sort.Slice\<close>, the JSON decoder of the batch body, \<open>strconv.ParseFloat\<close> and \<open>http.ServeFile\<close>,
  which may answer with the file, a redirect or an error. Responses carry
  the values that a handler passes to the JSON encoder, and errors as values, not their
  rendering. A handler that panics sends no response: \<open>net/http\<close> recovers it and closes the
  connection, which is status 0 here. A panic in a goroutine of the process itself, a ticker or
  the self check, ends the process.
\<close>

section \<open>Label parameters\<close>

text \<open>\<open>strings.Split\<close> at a one-byte separator, and \<open>strings.SplitN\<close> with two parts.\<close>

fun split_on :: "char \<Rightarrow> string \<Rightarrow> string list" where
  "split_on c [] = [[]]"
| "split_on c (x # xs) =
     (if x = c then [] # split_on c xs
      else (case split_on c xs of [] \<Rightarrow> [[x]] | w # ws \<Rightarrow> (x # w) # ws))"

definition split_two :: "char \<Rightarrow> string \<Rightarrow> string list" where
  "split_two c s =
     (case dropWhile (\<lambda>x. x \<noteq> c) s of [] \<Rightarrow> [s] | _ # rest \<Rightarrow> [takeWhile (\<lambda>x. x \<noteq> c) s, rest])"

definition add_pair :: "string \<Rightarrow> labels \<Rightarrow> labels" where
  "add_pair pair m =
     (let kv = split_two CHR ''='' pair
      in if length kv = 2 \<and> kv ! 0 \<noteq> [] then fmupd (kv ! 0) (kv ! 1) m else m)"

definition parseLabels :: "string \<Rightarrow> labels" where
  "parseLabels raw = (if raw = [] then fmempty else fold add_pair (split_on CHR '','' raw) fmempty)"

section \<open>State, requests, responses\<close>

record request =
  rqMethod :: string
  rqPath :: string
  rqContentType :: string
  rqQuery :: "(string, string) fmap"
  rqBody :: string

record server_stats =
  vsShards :: shard_stats
  vsBlocks :: store_stats
  vsSeries :: nat
  vsBuffer :: mem_stats
  vsWal :: wal_info

datatype reply_body =
    Plain string
  | ErrorText err
  | JsonResults "result list"
  | JsonMulti "multi_result list"
  | JsonStats server_stats
  | ServedFile string string
  | RedirectTo string
  | Aborted err

record response =
  rpStatus :: nat
  rpPayload :: reply_body

record choices =
  chLabels :: label_order
  chSeries :: series_order
  chSegments :: segment_order
  chBlocks :: "(block_id, block) fmap \<Rightarrow> block_id list"
  chIndex :: "index \<Rightarrow> string list list"
  chMetrics :: "(string, int64) fmap \<Rightarrow> string list"
  chSort :: "point list \<Rightarrow> point list"
  chDecode :: "string \<Rightarrow> bulk_point list option"
  chParseFloat :: "string \<Rightarrow> float64 option"
  chServeFile :: "request \<Rightarrow> string \<Rightarrow> string \<Rightarrow> response"

record server =
  svIngest :: ingest
  svDownsample :: downsample_policy
  svRetention :: retention_policy
  webDir :: string

definition query_get :: "request \<Rightarrow> string \<Rightarrow> string" where
  "query_get r k = (case fmlookup (rqQuery r) k of Some v \<Rightarrow> v | None \<Rightarrow> [])"

definition ok_text :: "string \<Rightarrow> response" where
  "ok_text s = \<lparr>rpStatus = 200, rpPayload = Plain s\<rparr>"

definition http_error :: "string \<Rightarrow> nat \<Rightarrow> response" where
  "http_error s code = \<lparr>rpStatus = code, rpPayload = Plain s\<rparr>"

definition is_panic :: "err \<Rightarrow> bool" where
  "is_panic e = (case e of PanicMakeslice \<Rightarrow> True | PanicOpen name \<Rightarrow> True | PanicNil \<Rightarrow> True | _ \<Rightarrow> False)"

definition http_failure :: "err \<Rightarrow> nat \<Rightarrow> response" where
  "http_failure e code =
     (if is_panic e then \<lparr>rpStatus = 0, rpPayload = Aborted e\<rparr>
      else \<lparr>rpStatus = code, rpPayload = ErrorText e\<rparr>)"

definition send_json :: "reply_body \<Rightarrow> response" where
  "send_json p = \<lparr>rpStatus = 200, rpPayload = p\<rparr>"

definition with_store :: "store \<Rightarrow> server \<Rightarrow> server" where
  "with_store s sv = sv\<lparr>svIngest := (svIngest sv)\<lparr>inDb := (inDb (svIngest sv))\<lparr>dbStore := s\<rparr>\<rparr>\<rparr>"

definition with_db :: "database \<Rightarrow> server \<Rightarrow> server" where
  "with_db db sv = sv\<lparr>svIngest := (svIngest sv)\<lparr>inDb := db\<rparr>\<rparr>"

definition minute :: int64 where "minute = 60000000000"

text \<open>
  The value \<open>strconv.ParseInt\<close> returns when the caller ignores its error: 0 on a syntax error,
  the nearest bound when the digits run out of range, even if garbage follows.
\<close>

fun clamped_digits :: "nat \<Rightarrow> string \<Rightarrow> nat option" where
  "clamped_digits n [] = Some n"
| "clamped_digits n (c # cs) =
     (case digit_value c of
        None \<Rightarrow> None
      | Some d \<Rightarrow> if 2 ^ 64 \<le> 10 * n + d then Some (2 ^ 64 - 1) else clamped_digits (10 * n + d) cs)"

definition parse_lenient :: "string \<Rightarrow> int" where
  "parse_lenient s =
     (let neg = (s \<noteq> [] \<and> hd s = CHR ''-'');
          ds = (if s \<noteq> [] \<and> (hd s = CHR ''-'' \<or> hd s = CHR ''+'') then tl s else s)
      in case (if ds = [] then None else clamped_digits 0 ds) of
           None \<Rightarrow> 0
         | Some n \<Rightarrow> if neg then - int (min n (2 ^ 63)) else int (min n (2 ^ 63 - 1)))"

section \<open>Writing and querying\<close>

definition handleWrite :: "choices \<Rightarrow> request \<Rightarrow> server \<Rightarrow> response \<times> server" where
  "handleWrite ch r sv =
     (if rqMethod r \<noteq> ''POST'' then (http_error ''method not allowed'' 405, sv)
      else if rqContentType r = ''application/json''
      then (case chDecode ch (rqBody r) of
              None \<Rightarrow> (http_error ''bad body'' 400, sv)
            | Some batch \<Rightarrow>
                (case AppendBatch (chLabels ch) (chSeries ch) (chSegments ch) batch (svIngest sv) of
                   (Some e, inp) \<Rightarrow> (http_failure e 500, sv\<lparr>svIngest := inp\<rparr>)
                 | (None, inp) \<Rightarrow>
                     (ok_text (''{\"ok\":true,\"bulk\":'' @ show_nat (length batch) @ ''}''),
                      sv\<lparr>svIngest := inp\<rparr>)))
      else (case parse_int (query_get r ''ts'') of
              None \<Rightarrow> (http_error ''bad ts'' 400, sv)
            | Some ts \<Rightarrow>
                (case chParseFloat ch (query_get r ''value'') of
                   None \<Rightarrow> (http_error ''bad value'' 400, sv)
                 | Some val \<Rightarrow>
                     (case Ingest_Append (chLabels ch) (chSeries ch) (chSegments ch) (query_get r ''name'')
                             (parseLabels (query_get r ''labels'')) (word_of_int ts) val (svIngest sv) of
                        (Some e, inp) \<Rightarrow> (http_failure e 500, sv\<lparr>svIngest := inp\<rparr>)
                      | (None, inp) \<Rightarrow> (ok_text ''{\"ok\":true}'', sv\<lparr>svIngest := inp\<rparr>)))))"

definition agg_of :: "string \<Rightarrow> agg_func" where
  "agg_of s =
     (if s = ''sum'' then AggSum else if s = ''min'' then AggMin else if s = ''max'' then AggMax
      else if s = ''count'' then AggCount else if s = ''delta'' then AggDelta else AggAvg)"

definition step_of :: "string \<Rightarrow> int64" where
  "step_of s = (let step = word_of_int (parse_lenient s) in if step \<le>s 0 then minute else step)"

definition handleQuery :: "choices \<Rightarrow> request \<Rightarrow> server \<Rightarrow> response \<times> server" where
  "handleQuery ch r sv =
     (case (parse_int (query_get r ''start''), parse_int (query_get r ''end'')) of
        (Some start, Some stop) \<Rightarrow>
          (let inp = svIngest sv; db = inDb inp;
               agg = agg_of (query_get r ''agg'');
               step = step_of (query_get r ''step'');
               rng = \<lparr>Start = word_of_int start, End = word_of_int stop\<rparr>
           in case query_SeriesID (inIdx inp) (query_get r ''name'') (parseLabels (query_get r ''labels'')) of
                Inl e \<Rightarrow> (http_failure e 404, sv)
              | Inr sid \<Rightarrow>
                  if query_get r ''multi'' = ''1''
                  then (case QueryMulti (chSort ch) (chIndex ch (inIdx inp)) (inIdx inp) [sid] rng agg step
                               (inMem inp) (dbShards db) (dbStore db) of
                          (Inl e, s) \<Rightarrow> (http_failure e 500, with_store s sv)
                        | (Inr res, s) \<Rightarrow> (send_json (JsonMulti res), with_store s sv))
                  else (case QueryRange (chSort ch) sid rng agg step (inMem inp) (dbShards db) (dbStore db) of
                          (Inl e, s) \<Rightarrow> (http_failure e 500, with_store s sv)
                        | (Inr res, s) \<Rightarrow> (send_json (JsonResults res), with_store s sv)))
      | _ \<Rightarrow> (http_error ''bad range'' 400, sv))"

section \<open>Reporting and administration\<close>

definition handleProbe :: "server \<Rightarrow> response" where
  "handleProbe sv =
     ok_text (''{\"status\":\"ok\",\"shards\":'' @ show_nat (shard_Count (dbShards (inDb (svIngest sv))))
       @ '',\"blocks\":'' @ show_nat (store_Count (dbStore (inDb (svIngest sv))))
       @ '',\"series\":'' @ show_nat (index_Len (inIdx (svIngest sv))) @ ''}'')"

definition handleStats :: "choices \<Rightarrow> server \<Rightarrow> response" where
  "handleStats ch sv =
     (let inp = svIngest sv
      in send_json (JsonStats
           \<lparr>vsShards = ShardStats (dbShards (inDb inp)), vsBlocks = StoreStats (dbStore (inDb inp)),
            vsSeries = index_Len (inIdx inp), vsBuffer = MemStats (inMem inp),
            vsWal = Wal_Info (chSegments ch (segments (inWal inp))) (inWal inp)\<rparr>))"

definition handleExpand :: "choices \<Rightarrow> request \<Rightarrow> server \<Rightarrow> response \<times> server" where
  "handleExpand ch r sv =
     (case parse_int (query_get r ''buckets'') of
        None \<Rightarrow> (http_error ''bad buckets'' 400, sv)
      | Some n \<Rightarrow>
          if n \<le> 0 then (http_error ''bad buckets'' 400, sv)
          else (case Expand (chIndex ch (inIdx (svIngest sv))) n (inIdx (svIngest sv)) of
                  Inl e \<Rightarrow> (http_failure e 400, sv)
                | Inr ix \<Rightarrow>
                    (ok_text (''{\"buckets\":'' @ show_nat (BucketCount ix) @ ''}''),
                     sv\<lparr>svIngest := (svIngest sv)\<lparr>inIdx := ix\<rparr>\<rparr>)))"

definition handleMetrics :: "choices \<Rightarrow> server \<Rightarrow> response" where
  "handleMetrics ch sv =
     (let reg = dbReg (inDb (svIngest sv))
      in ok_text (Registry_Snapshot (chMetrics ch (counters reg)) (chMetrics ch (gauges reg)) reg))"

definition handleConsole :: "choices \<Rightarrow> request \<Rightarrow> server \<Rightarrow> response" where
  "handleConsole ch r sv = chServeFile ch r (webDir sv) ''console.html''"

definition handleRoot :: response where
  "handleRoot = \<lparr>rpStatus = 302, rpPayload = RedirectTo ''/console''\<rparr>"

text \<open>One compaction pass over the ids the store lists now.\<close>

definition jobs_of :: "choices \<Rightarrow> store \<Rightarrow> compact_job list" where
  "jobs_of ch s = map (\<lambda>b. (b, chSeries ch, chBlocks ch)) (store_List (chBlocks ch (blocks s)) s)"

definition compact_pass :: "choices \<Rightarrow> server \<Rightarrow> (nat \<times> err option) \<times> server" where
  "compact_pass ch sv =
     (case CompactAll (svDownsample sv) (jobs_of ch (dbStore (inDb (svIngest sv)))) (inDb (svIngest sv)) of
        (r, db) \<Rightarrow> (r, with_db db sv))"

definition handleAdminCompact :: "choices \<Rightarrow> server \<Rightarrow> response \<times> server" where
  "handleAdminCompact ch sv =
     (case compact_pass ch sv of
        ((done_n, Some e), sv1) \<Rightarrow> (http_failure e 500, sv1)
      | ((done_n, None), sv1) \<Rightarrow>
          (let s = dbStore (inDb (svIngest sv1))
           in case Eligible (chBlocks ch (blocks s)) s of (ids, s1) \<Rightarrow>
                (ok_text (''{\"compacted\":'' @ show_nat done_n @ '',\"eligible\":'' @ show_nat (length ids) @ ''}''),
                 with_store s1 sv1)))"

definition sweep_pass :: "choices \<Rightarrow> int64 \<Rightarrow> server \<Rightarrow> sweep_result \<times> server" where
  "sweep_pass ch now sv =
     (let db = inDb (svIngest sv)
      in case Sweep (chBlocks ch (blocks (dbStore db))) (chBlocks ch) (svRetention sv) now db of
           (res, db1) \<Rightarrow> (res, with_db db1 sv))"

definition handleAdminSweep :: "choices \<Rightarrow> int64 \<Rightarrow> server \<Rightarrow> response \<times> server" where
  "handleAdminSweep ch now sv =
     (case sweep_pass ch now sv of
        (res, sv1) \<Rightarrow>
          (ok_text (''{\"scanned\":'' @ show_nat (Scanned res) @ '',\"removed\":'' @ show_nat (Removed res)
             @ '',\"step_ns\":'' @ show_int (sint (Step (svRetention sv))) @ ''}''), sv1))"

definition handleAdminRotate :: "server \<Rightarrow> response \<times> server" where
  "handleAdminRotate sv =
     (let db = inDb (svIngest sv)
      in case ForceRotate (dbShards db) of
           (i, m) \<Rightarrow>
             (ok_text (''{\"shard_id\":'' @ show_nat (unat (shID (shards m ! i)))
                @ '',\"start\":'' @ show_int (sint (shStart (shards m ! i)))
                @ '',\"end\":'' @ show_int (sint (shEnd (shards m ! i))) @ ''}''),
              with_db (db\<lparr>dbShards := m\<rparr>) sv))"

text \<open>The routes of the mux: the listed paths, and \<open>/\<close> for every other path.\<close>

definition serve :: "choices \<Rightarrow> int64 \<Rightarrow> request \<Rightarrow> server \<Rightarrow> response \<times> server" where
  "serve ch now r sv =
     (if rqPath r = ''/probe'' then (handleProbe sv, sv)
      else if rqPath r = ''/api/write'' then handleWrite ch r sv
      else if rqPath r = ''/api/query'' then handleQuery ch r sv
      else if rqPath r = ''/api/stats'' then (handleStats ch sv, sv)
      else if rqPath r = ''/api/admin/expand'' then handleExpand ch r sv
      else if rqPath r = ''/api/admin/compact'' then handleAdminCompact ch sv
      else if rqPath r = ''/api/admin/sweep'' then handleAdminSweep ch now sv
      else if rqPath r = ''/api/admin/rotate'' then handleAdminRotate sv
      else if rqPath r = ''/metrics'' then (handleMetrics ch sv, sv)
      else if rqPath r = ''/console'' then (handleConsole ch r sv, sv)
      else (handleRoot, sv))"

section \<open>Start-up, the periodic jobs, shutdown\<close>

definition set_gauge :: "string \<Rightarrow> int64 \<Rightarrow> ingest \<Rightarrow> ingest" where
  "set_gauge name v inp = inp\<lparr>inDb := (inDb inp)\<lparr>dbReg := Gauge_Set name v (dbReg (inDb inp))\<rparr>\<rparr>"

record config =
  cfWindow :: duration
  cfRetention :: duration
  cfDownsample :: duration
  cfWeb :: string

text \<open>A fatal error stops the process and leaves the disk.\<close>

definition boot :: "choices \<Rightarrow> config \<Rightarrow> int64 \<Rightarrow> disk \<Rightarrow> (err \<times> disk) + server" where
  "boot ch cf now d =
     (case os_call d of
        (Some e, d1) \<Rightarrow> Inl (e, d1)
      | (None, d1) \<Rightarrow>
          (case Wal_Open (push_bit 20 64) d1 of
             (Inl e, d2) \<Rightarrow> Inl (e, d2)
           | (Inr w, d2) \<Rightarrow>
               (case NewManager (cfWindow cf) now of
                  Inl e \<Rightarrow> Inl (e, d2)
                | Inr m \<Rightarrow>
                    (case Ingest_New \<lparr>optIndex = Some (NewIndex 1024), optWAL = Some w, optShards = Some m,
                             optStore = Some NewStore, optMetrics = Some NewRegistry,
                             optFlushThreshold = 4096, optConcurrency = 16\<rparr> of
                       Inl e \<Rightarrow> Inl (e, d2)
                     | Inr (inp, slots) \<Rightarrow>
                         (case Recover (chSeries ch) (chSegments ch) inp of
                            (Some e, inp1) \<Rightarrow> Inl (e, wDisk (inWal inp1))
                          | (None, inp1) \<Rightarrow>
                              Inr \<lparr>svIngest = set_gauge ''shards''
                                       (word_of_nat (shard_Count (dbShards (inDb inp1)))) inp1,
                                   svDownsample = \<lparr>Window = cfDownsample cf\<rparr>,
                                   svRetention = \<lparr>MaxAge = cfRetention cf, SweepStep = minute\<rparr>,
                                   webDir = cfWeb cf\<rparr>)))))"

text \<open>
  One round of each ticker; the errors are logged, a panic ends the process and leaves the disk.
  Compaction and the sweep have no call that panics.
\<close>

definition panics :: "err option \<Rightarrow> bool" where
  "panics e = (case e of None \<Rightarrow> False | Some e' \<Rightarrow> is_panic e')"

definition flush_tick :: "choices \<Rightarrow> server \<Rightarrow> (err \<times> disk) + (err option list \<times> server)" where
  "flush_tick ch sv =
     (case Ingest_Flush (chSeries ch) (chSegments ch) (svIngest sv) of
        (e1, inp) \<Rightarrow>
          if panics e1 then Inl (the e1, wDisk (inWal inp))
          else (case Sync (inWal inp) of
             (e2, w) \<Rightarrow>
               if panics e2 then Inl (the e2, wDisk w)
               else (let inp1 = inp\<lparr>inWal := w\<rparr>;
                    inp2 = set_gauge ''shards'' (word_of_nat (shard_Count (dbShards (inDb inp1)))) inp1
                in Inr ([e1, e2],
                    sv\<lparr>svIngest := set_gauge ''blocks'' (word_of_nat (store_Count (dbStore (inDb inp2)))) inp2\<rparr>))))"

definition compact_tick :: "choices \<Rightarrow> server \<Rightarrow> err option \<times> server" where
  "compact_tick ch sv = (case compact_pass ch sv of ((done_n, e), sv1) \<Rightarrow> (e, sv1))"

definition sweep_tick :: "choices \<Rightarrow> int64 \<Rightarrow> server \<Rightarrow> server" where
  "sweep_tick ch now sv =
     (case sweep_pass ch now sv of
        (res, sv1) \<Rightarrow>
          (let db = inDb (svIngest sv1)
           in with_db (db\<lparr>dbReg := Gauge_Add ''blocks_removed'' (word_of_nat (Removed res)) (dbReg db)\<rparr>) sv1))"

text \<open>The write and read back that the process does once after start-up; it logs the counts or the error.\<close>

definition selfCheck ::
  "choices \<Rightarrow> int64 \<Rightarrow> server \<Rightarrow> (err \<times> disk) + ((err + nat \<times> nat \<times> nat) \<times> server)" where
  "selfCheck ch now sv =
     (let labels = fmupd ''check'' ''1'' fmempty
      in case Ingest_Append (chLabels ch) (chSeries ch) (chSegments ch) ''selfcheck'' labels now
                0x4045000000000000 (svIngest sv) of
           (Some e, inp) \<Rightarrow>
             if is_panic e then Inl (e, wDisk (inWal inp)) else Inr (Inl e, sv\<lparr>svIngest := inp\<rparr>)
         | (None, inp) \<Rightarrow>
             (let sv1 = sv\<lparr>svIngest := inp\<rparr>; db = inDb inp
              in case query_SeriesID (inIdx inp) ''selfcheck'' labels of
                   Inl e \<Rightarrow> Inr (Inl e, sv1)
                 | Inr sid \<Rightarrow>
                     (case QueryRange (chSort ch) sid \<lparr>Start = now - 1, End = now + 1\<rparr> AggAvg minute
                             (inMem inp) (dbShards db) (dbStore db) of
                        (Inl e, s) \<Rightarrow>
                          if is_panic e then Inl (e, wDisk (inWal inp)) else Inr (Inl e, with_store s sv1)
                      | (Inr res, s) \<Rightarrow>
                          Inr (Inr (length res, shard_Count (dbShards db), store_Count s), with_store s sv1))))"

definition shutdown :: "choices \<Rightarrow> server \<Rightarrow> err option \<times> disk" where
  "shutdown ch sv =
     (case Wal_Close (chSegments ch (segments (inWal (svIngest sv)))) (inWal (svIngest sv)) of
        (e, w) \<Rightarrow> (e, wDisk w))"

section \<open>Rendering and parsing label parameters\<close>

text \<open>The form a client sends: \<open>key=value\<close> pairs with commas between them.\<close>

definition render_pair :: "labels \<Rightarrow> string \<Rightarrow> string" where
  "render_pair m k = k @ CHR ''='' # (case fmlookup m k of Some v \<Rightarrow> v | None \<Rightarrow> [])"

fun join_commas :: "string list \<Rightarrow> string" where
  "join_commas [] = []"
| "join_commas [w] = w"
| "join_commas (w # ws) = w @ CHR '','' # join_commas ws"

definition param_safe :: "labels \<Rightarrow> bool" where
  "param_safe m \<longleftrightarrow> fmpred (\<lambda>k v. k \<noteq> [] \<and> CHR ''='' \<notin> set k \<and> CHR '','' \<notin> set k \<and> CHR '','' \<notin> set v) m"

lemma split_on_word: "c \<notin> set w \<Longrightarrow> split_on c w = [w]"
  by (induction w) auto

lemma split_on_append: "c \<notin> set w \<Longrightarrow> split_on c (w @ c # s) = w # split_on c s"
  by (induction w) auto

lemma split_join:
  "ws \<noteq> [] \<Longrightarrow> \<forall>w \<in> set ws. CHR '','' \<notin> set w \<Longrightarrow> split_on CHR '','' (join_commas ws) = ws"
  by (induction ws rule: join_commas.induct) (simp_all add: split_on_word split_on_append)

lemma split_two_pair: "c \<notin> set k \<Longrightarrow> split_two c (k @ c # v) = [k, v]"
proof -
  assume "c \<notin> set k"
  then have "dropWhile (\<lambda>x. x \<noteq> c) (k @ c # v) = c # v" "takeWhile (\<lambda>x. x \<noteq> c) (k @ c # v) = k"
    by (induction k) auto
  then show ?thesis by (simp add: split_two_def)
qed

lemma add_pair_render:
  "CHR ''='' \<notin> set k \<Longrightarrow> k \<noteq> [] \<Longrightarrow> fmlookup m k = Some v \<Longrightarrow> add_pair (render_pair m k) acc = fmupd k v acc"
  by (simp add: add_pair_def render_pair_def split_two_pair)

lemma fold_add_pair:
  assumes "param_safe m" and "\<forall>k \<in> set ks. \<exists>v. fmlookup m k = Some v"
  shows "fmlookup (fold add_pair (map (render_pair m) ks) acc) k =
    (if k \<in> set ks then fmlookup m k else fmlookup acc k)"
  using assms(2)
proof (induction ks arbitrary: acc)
  case (Cons a ks)
  then obtain v where "fmlookup m a = Some v" by auto
  with Cons assms(1) show ?case by (auto simp: add_pair_render param_safe_def fmpred_iff)
qed simp

lemma join_commas_Nil: "ws \<noteq> [] \<Longrightarrow> \<forall>w \<in> set ws. w \<noteq> [] \<Longrightarrow> join_commas ws \<noteq> []"
  by (induction ws rule: join_commas.induct) simp_all

text \<open>
  A label set written as \<open>key=value\<close> pairs with commas between them, in any order of its
  keys, parses back to itself, as long as no key is empty or holds a comma or an equals sign
  and no value holds a comma. Values may be empty or hold equals signs.
\<close>

theorem parseLabels_render:
  assumes "param_safe m" and "visits ks m"
  shows "parseLabels (join_commas (map (render_pair m) ks)) = m"
proof (rule fmap_ext)
  fix k
  have dom: "k' \<in> set ks \<longleftrightarrow> fmlookup m k' \<noteq> None" for k' using visits_mem [OF assms(2), of k'] by simp
  then have sub: "\<forall>k \<in> set ks. \<exists>v. fmlookup m k = Some v" by blast
  have safe: "\<forall>w \<in> set (map (render_pair m) ks). CHR '','' \<notin> set w \<and> w \<noteq> []"
    using assms(1) dom by (auto simp: render_pair_def param_safe_def fmpred_iff split: option.splits)
  show "fmlookup (parseLabels (join_commas (map (render_pair m) ks))) k = fmlookup m k"
  proof (cases "ks = []")
    case True
    then show ?thesis using dom [of k] by (simp add: parseLabels_def)
  next
    case False
    with safe have "join_commas (map (render_pair m) ks) \<noteq> []" by (intro join_commas_Nil) auto
    with False safe have "parseLabels (join_commas (map (render_pair m) ks)) = fold add_pair (map (render_pair m) ks) fmempty"
      by (simp add: parseLabels_def split_join)
    then show ?thesis using fold_add_pair [OF assms(1) sub, of fmempty k] dom [of k] by auto
  qed
qed

theorem parseLabels_render_witness:
  "parseLabels ''host=a=b,zone='' = fmupd ''host'' ''a=b'' (fmupd ''zone'' [] fmempty)"
proof -
  let ?m = "fmupd ''host'' ''a=b'' (fmupd ''zone'' [] fmempty) :: labels"
  have "param_safe ?m" by (auto simp: param_safe_def fmpred_iff split: if_splits)
  moreover have "visits [''host'', ''zone''] ?m" by (auto simp: visits_iff)
  ultimately show ?thesis using parseLabels_render [of ?m "[''host'', ''zone'']"] by (simp add: render_pair_def)
qed

end
