(* ===== verification/DatabaseFlow.thy ===== *)
theory DatabaseFlow
  imports Sweeper IngestFlow
begin

text \<open>
  How the operations that share the store and the shards move the database: compaction, the
  sweep, a forced rotation, appends, batches, flushes, recovery and queries each keep \<open>db_ok\<close>
  and hand out a bounded number of ids. \<open>db_moves\<close> and \<open>pipeline_moves\<close> are the relations
  these lemmas share, and they compose.
\<close>

section \<open>What the blocks may hold\<close>

text \<open>
  \<open>store_below e\<close> says that every block lies before the instant \<open>e\<close>, the end of the active
  window: its recorded minimum and all its points. That is what keeps a compaction, which
  routes the source's minimum, from opening a window.
\<close>

definition block_below :: "int64 \<Rightarrow> block \<Rightarrow> bool" where
  "block_below e b \<longleftrightarrow> bMin b <s e \<and> fmpred (\<lambda>_ pts. \<forall>p \<in> set pts. TS p <s e) (bByID b)"

definition store_below :: "int64 \<Rightarrow> store \<Rightarrow> bool" where
  "store_below e s \<longleftrightarrow> fmpred (\<lambda>_. block_below e) (blocks s)"

text \<open>
  A block is well typed when its points are filed under their own series and its header gives
  their least and their greatest timestamp.
\<close>

definition headed :: "int64 \<Rightarrow> int64 \<Rightarrow> series_points \<Rightarrow> bool" where
  "headed mn mx m \<longleftrightarrow> (\<exists>sid. mn \<in> TS ` set (series_of m sid)) \<and> (\<exists>sid. mx \<in> TS ` set (series_of m sid))
     \<and> (\<forall>sid. \<forall>p \<in> set (series_of m sid). SeriesID p = sid \<and> mn \<le>s TS p \<and> TS p \<le>s mx)"

definition store_typed :: "store \<Rightarrow> bool" where
  "store_typed s \<longleftrightarrow> fmpred (\<lambda>_ b. headed (bMin b) (bMax b) (bByID b)) (blocks s)"

definition store_ok :: "int64 \<Rightarrow> store \<Rightarrow> bool" where
  "store_ok e s \<longleftrightarrow> store_inv s \<and> blocks_sorted s \<and> store_below e s \<and> store_typed s"

lemma headed_aggregate:
  assumes "headed mn mx m" and "p \<in> set (aggregateWindow (series_of m sid) step)"
  shows "SeriesID p = sid"
proof -
  have "series_of m sid \<noteq> []" using assms(2) by auto
  then have "hd (series_of m sid) \<in> set (series_of m sid)" by simp
  with assms(1) SeriesID_aggregateWindow [OF assms(2)] show ?thesis by (simp add: headed_def)
qed

definition active_end :: "database \<Rightarrow> int64" where
  "active_end db = shEnd (last (shards (dbShards db)))"

definition db_ok :: "database \<Rightarrow> bool" where
  "db_ok db \<longleftrightarrow> mgr_inv (dbShards db) \<and> refs_ok db \<and> 0 <s active_end db \<and> store_ok (active_end db) (dbStore db)"

lemma block_below_mono: "block_below e b \<Longrightarrow> e \<le>s e' \<Longrightarrow> block_below e' b"
  by (fastforce simp: block_below_def fmpred_iff go_int)

lemma store_ok_mono: "store_ok e s \<Longrightarrow> e \<le>s e' \<Longrightarrow> store_ok e' s"
  by (auto simp: store_ok_def store_below_def fmpred_iff intro: block_below_mono)

lemma store_ok_on_block:
  assumes "store_ok e s" and "\<And>b. bID (f b) = bID b" and "\<And>b. bByID (f b) = bByID b" and "\<And>b. bMin (f b) = bMin b"
    and "\<And>b. bMax (f b) = bMax b"
  shows "store_ok e (on_block bid f s)"
  using assms on_block_inv [of s f bid]
  by (auto simp: store_ok_def blocks_sorted_def store_below_def store_typed_def block_below_def fmpred_iff on_block_lookup
      split: if_splits)

lemma store_ok_Create:
  assumes "store_ok e s" and "sNextID s + 1 \<noteq> 0" and "mn <s e"
    and "fmpred (\<lambda>_ pts. time_sorted pts \<and> (\<forall>p \<in> set pts. TS p <s e)) m" and "headed mn mx m"
  shows "store_ok e (snd (Create m mn mx s))"
  using assms Create_inv [of s m mn mx]
  by (auto simp: store_ok_def blocks_sorted_def store_below_def store_typed_def block_below_def fmpred_iff Create_spec split: if_splits)

lemma store_ok_Reclaim:
  assumes "store_ok e s" and "visits ks (blocks s)"
  shows "store_ok e (snd (Reclaim ks s))"
  using assms Reclaim_inv [of s ks]
  by (auto simp: store_ok_def blocks_sorted_def store_below_def store_typed_def fmpred_iff Reclaim_spec)

lemma store_ok_finish:
  assumes "store_ok e s" and "iterates ordB"
  shows "store_ok e (finish_source ordB src s)"
  unfolding finish_source_def Let_def
  by (intro store_ok_Reclaim store_ok_on_block assms iterates_visits) simp_all

lemma store_ok_Close: "store_ok e s \<Longrightarrow> store_ok e (Close bid s)"
  unfolding Close_def by (rule store_ok_on_block) (simp_all add: Block_Release_def)

lemma store_ok_Open: "store_ok e s \<Longrightarrow> store_ok e (snd (Open bid s))"
  by (rule Open_cases [of s bid]) (simp_all add: store_ok_on_block)

lemma Open_next: "sNextID (snd (Open bid s)) = sNextID s"
  by (rule Open_cases [of s bid]) simp_all

section \<open>Compaction keeps the database well formed\<close>

lemma bucket_start_below:
  assumes "0 < sint step" and "t <s e" and "0 <s e"
  shows "bucket_start step t <s e"
proof (cases "0 \<le> sint t")
  case True
  with bucket_start_nonneg(2) [OF assms(1) True] assms(2) show ?thesis by (simp add: go_int)
next
  case False
  then have "sint (bucket_start step t) \<le> sint (bucket_start step 0)"
    using assms(1) by (intro bucket_start_mono) simp_all
  also have "\<dots> \<le> 0" using bucket_start_nonneg(2) [OF assms(1), of 0] by simp
  finally show ?thesis using assms(3) by (simp add: go_int)
qed

lemma downsampled_below:
  assumes "0 < sint step" and "0 <s e" and "fmpred (\<lambda>_ pts. time_sorted pts \<and> (\<forall>p \<in> set pts. TS p <s e)) raw"
  shows "fmpred (\<lambda>_ pts. time_sorted pts \<and> (\<forall>p \<in> set pts. TS p <s e)) (downsampled step raw)"
proof -
  have "time_sorted (aggregateWindow pts step) \<and> (\<forall>p \<in> set (aggregateWindow pts step). TS p <s e)"
    if pts: "time_sorted pts" "\<forall>p \<in> set pts. TS p <s e" for pts
  proof -
    have w: "time_strict (aggregateWindow pts step)"
        "TS ` set (aggregateWindow pts step) = (\<lambda>p. bucket_start step (TS p)) ` set pts"
      using aggregateWindow_strict [OF assms(1) pts(1)] TS_aggregateWindow [of pts step] assms(1)
      by (simp_all add: set_runs_buckets) (metis list.set_map set_runs_buckets)
    then have "time_sorted (aggregateWindow pts step)" by (simp add: time_strict_sorted)
    moreover have "TS p <s e" if p: "p \<in> set (aggregateWindow pts step)" for p
    proof -
      from p w(2) obtain q where q: "q \<in> set pts" "TS p = bucket_start step (TS q)" by blast
      with pts(2) have "TS q <s e" by blast
      from bucket_start_below [OF assms(1) this assms(2)] q(2) show ?thesis by simp
    qed
    ultimately show ?thesis by blast
  qed
  with assms(3) show ?thesis by (fastforce simp: downsampled_def fmpred_iff split: if_splits)
qed

lemma active_end_add [simp]:
  "shards m \<noteq> [] \<Longrightarrow> shEnd (last (shards (on_shard i (AddBlock bid) m))) = shEnd (last (shards m))"
  by (simp add: on_shard_def last_conv_nth nth_update_frame)

lemma block_series:
  assumes "store_ok e s" and "fmlookup (blocks s) bid = Some b"
  shows "fmpred (\<lambda>_ pts. time_sorted pts \<and> (\<forall>p \<in> set pts. TS p <s e)) (bByID b)" and "bMin b <s e"
    and "headed (bMin b) (bMax b) (bByID b)"
  using assms by (auto simp: store_ok_def blocks_sorted_def store_below_def store_typed_def block_below_def fmpred_iff)

lemma series_of_downsampled: "series_of (downsampled step raw) sid = aggregateWindow (series_of raw sid) step"
  by (auto simp: downsampled_def series_of_def split: option.splits)

lemma downsample_headed:
  assumes v: "visits ks raw" and ne: "fmsize (downsampled step raw) \<noteq> 0" and h: "headed mn mx raw"
  shows "headed (spanMin (snd (downsample step ks raw))) (spanMax (snd (downsample step ks raw))) (downsampled step raw)"
proof -
  let ?P = "\<Union>sid \<in> set ks. set (aggregateWindow (series_of raw sid) step)" and ?s = "snd (downsample step ks raw)"
  have in_P: "p \<in> ?P" if "p \<in> set (aggregateWindow (series_of raw sid) step)" for p sid
    using that visits_mem [OF v, of sid] by (auto simp: series_of_def split: option.splits)
  from ne obtain sid where "series_of raw sid \<noteq> []" by (auto simp: downsampled_empty_iff)
  then have "aggregateWindow (series_of raw sid) step \<noteq> []" by simp
  then have "?P \<noteq> {}" using in_P [of "hd (aggregateWindow (series_of raw sid) step)" sid] by force
  with downsample_spans [of step ks raw]
  have "spanMin ?s \<in> TS ` ?P" "spanMax ?s \<in> TS ` ?P" "\<forall>p \<in> ?P. spanMin ?s \<le>s TS p \<and> TS p \<le>s spanMax ?s"
    by (simp_all add: spans_def)
  with in_P headed_aggregate [OF h] show ?thesis unfolding headed_def series_of_downsampled by blast
qed

lemma headed_below:
  assumes "headed mn mx m" and "fmpred (\<lambda>_ pts. \<forall>p \<in> set pts. TS p <s e) m"
  shows "mn <s e"
proof -
  from assms(1) obtain sid p where "p \<in> set (series_of m sid)" "mn = TS p" by (auto simp: headed_def)
  with assms(2) show ?thesis by (cases "fmlookup m sid") (auto simp: series_of_def fmpred_iff)
qed

text \<open>What an operation on the database may change: ids are handed out, never taken back.\<close>

definition db_moves :: "nat \<Rightarrow> database \<Rightarrow> database \<Rightarrow> bool" where
  "db_moves n db db' \<longleftrightarrow> db_ok db' \<and> window (dbShards db') = window (dbShards db)
     \<and> active_end db \<le>s active_end db' \<and> unat (sNextID (dbStore db')) \<le> unat (sNextID (dbStore db)) + n"

lemma db_moves_trans:
  "db_moves m a b \<Longrightarrow> db_moves n b c \<Longrightarrow> db_moves (m + n) a c"
  by (auto simp: db_moves_def go_int)

lemma db_moves_store:
  assumes "db_ok db" and "store_ok (active_end db) s" and "sNextID s = sNextID (dbStore db)"
  shows "db_moves 0 db (db\<lparr>dbStore := s, dbReg := reg\<rparr>)"
  using assms by (simp add: db_moves_def db_ok_def refs_ok_def active_end_def go_int)

lemma db_moves_created:
  assumes "db_ok db" and "store_ok (active_end db) s" and n: "sNextID s = sNextID (dbStore db) + 1"
    and fresh: "sNextID (dbStore db) + 1 \<noteq> 0"
  shows "db_moves 1 db (db\<lparr>dbStore := s, dbReg := reg\<rparr>)"
    and "db_moves 1 db (db\<lparr>dbStore := s, dbReg := reg,
      dbShards := on_shard (length (shards (dbShards db)) - 1) (AddBlock (sNextID (dbStore db) + 1)) (dbShards db)\<rparr>)"
proof -
  let ?m = "dbShards db"
  have up: "unat (sNextID s) = unat (sNextID (dbStore db)) + 1" using n unat_succ [OF fresh] by simp
  have le: "bid \<le> sNextID s" if "bid \<le> sNextID (dbStore db)" for bid
    using that less_succ_iff [OF fresh, of bid] n by simp
  have ne: "shards ?m \<noteq> []" using assms(1) by (simp add: db_ok_def mgr_inv_def)
  show "db_moves 1 db (db\<lparr>dbStore := s, dbReg := reg\<rparr>)"
    using assms(1,2) up le by (auto simp: db_moves_def db_ok_def refs_ok_def active_end_def go_int)
  let ?m' = "on_shard (length (shards ?m) - 1) (AddBlock (sNextID (dbStore db) + 1)) ?m"
  have "sh \<in> set (shards ?m) \<or> sh = AddBlock (sNextID s) (shards ?m ! (length (shards ?m) - 1))"
    if "sh \<in> set (shards ?m')" for sh
    using that set_update_subset_insert [of "shards ?m"] n by (auto simp: on_shard_def)
  moreover have "shards ?m ! (length (shards ?m) - 1) \<in> set (shards ?m)" using ne by simp
  ultimately have "refs_ok (db\<lparr>dbStore := s, dbReg := reg, dbShards := ?m'\<rparr>)"
    using assms(1) le by (fastforce simp: db_ok_def refs_ok_def AddBlock_def)
  moreover have "mgr_inv ?m'" using assms(1) by (intro on_shard_inv) (simp_all add: db_ok_def)
  ultimately show "db_moves 1 db (db\<lparr>dbStore := s, dbReg := reg, dbShards := ?m'\<rparr>)"
    using assms(1,2) up active_end_add [OF ne] by (simp add: db_moves_def db_ok_def active_end_def go_int on_shard_def)
qed

lemma Route_below:
  assumes "mgr_inv m" and "ts <s shEnd (last (shards m))"
  obtains (hit) "Route ts m = (Inr (length (shards m) - 1), m)" | (early) e where "Route ts m = (Inl e, m)"
  using Route_routed [of m "\<lparr>TS = ts, Value = 0, SeriesID = 0\<rparr>"] assms that
  by (auto simp: mgr_inv_def split: if_splits)

text \<open>A compaction's three outcomes, with what it writes named.\<close>

lemma compact_held_cases:
  assumes d: "downsample (effective_step (Window pol)) (ordS (bByID b)) (bByID b) = (out, span)"
    and below: "Route (bMin b) (dbShards db) = (r, dbShards db)"
    and s1: "s1 = on_block src MarkCompacting (dbStore db)"
    and s2: "Create out (spanMin span) (spanMax span) s1 = (bid, s2)"
    and s3: "s3 = on_block bid Block_Seal s2"
  shows "snd (compact_held ordS ordB pol src b db) =
    (if fmsize out = 0
     then db\<lparr>dbStore := finish_source ordB src s1, dbReg := Inc ''blocks_compacted'' 1 (dbReg db)\<rparr>
     else case r of
         Inl e \<Rightarrow> db\<lparr>dbStore := s3, dbReg := dbReg db\<rparr>
       | Inr i \<Rightarrow> db\<lparr>dbStore := finish_source ordB src s3, dbReg := Inc ''blocks_compacted'' 1 (dbReg db),
             dbShards := on_shard i (AddBlock bid) (dbShards db)\<rparr>)"
  by (cases r) (simp_all add: compact_held_def Raw_def d Block_MinMax_def below s2 s3 flip: s1)

lemma compact_held_moves:
  assumes ord: "iterates ordS" "iterates ordB" and ok: "db_ok db" and fresh: "sNextID (dbStore db) + 1 \<noteq> 0"
    and b: "fmlookup (blocks (dbStore db)) src = Some b"
  shows "db_moves 1 db (snd (compact_held ordS ordB pol src b db))"
proof -
  let ?step = "effective_step (Window pol)" and ?e = "active_end db"
  let ?out = "downsampled ?step (bByID b)"
  obtain span where d: "downsample ?step (ordS (bByID b)) (bByID b) = (?out, span)"
    using downsample_spec [OF iterates_visits [OF ord(1)], of ?step "bByID b"] by (metis prod.collapse)
  obtain s1 where s1: "s1 = on_block src MarkCompacting (dbStore db)" by simp
  obtain s2 where s2: "s2 = snd (Create ?out (spanMin span) (spanMax span) s1)" by simp
  have c: "Create ?out (spanMin span) (spanMax span) s1 = (sNextID (dbStore db) + 1, s2)"
    unfolding s2 by (simp add: Create_spec s1)
  obtain s3 where s3: "s3 = on_block (sNextID (dbStore db) + 1) Block_Seal s2" by simp
  have st: "store_ok ?e (dbStore db)" and pos: "0 <s ?e" and m: "mgr_inv (dbShards db)"
    using ok by (simp_all add: db_ok_def)
  have ok1: "store_ok ?e s1" "sNextID s1 = sNextID (dbStore db)"
    unfolding s1 by (intro store_ok_on_block st) simp_all
  note series = block_series [OF st b]
  have below: "fmpred (\<lambda>_ pts. time_sorted pts \<and> (\<forall>p \<in> set pts. TS p <s ?e)) ?out"
    by (rule downsampled_below [OF effective_step_pos pos series(1)])
  have ok3: "store_ok ?e s3" "sNextID s3 = sNextID (dbStore db) + 1" if ne: "fmsize ?out \<noteq> 0"
  proof -
    have h: "headed (spanMin span) (spanMax span) ?out"
      using downsample_headed [OF iterates_visits [OF ord(1)] ne series(3)] by (simp add: d)
    have "spanMin span <s ?e" by (rule headed_below [OF h]) (use below in \<open>auto simp: fmpred_iff\<close>)
    then have "store_ok ?e s2" unfolding s2 using ok1 fresh below h by (intro store_ok_Create) simp_all
    then show "store_ok ?e s3" unfolding s3 by (rule store_ok_on_block) simp_all
    show "sNextID s3 = sNextID (dbStore db) + 1" by (simp add: s3 s2 ok1)
  qed
  note out = compact_held_cases [where db = db and src = src and ordB = ordB and ordS = ordS and b = b and pol = pol,
      OF d _ s1 c s3]
  have fin: "store_ok ?e (finish_source ordB src s)" "sNextID (finish_source ordB src s) = sNextID s"
    if "store_ok ?e s" for s
    using store_ok_finish [OF that ord(2)] finish_source_frame [OF ord(2)] by simp_all
  have done_: "db_moves 1 db (db\<lparr>dbStore := finish_source ordB src s1, dbReg := r\<rparr>)" for r
    using db_moves_store [OF ok, of "finish_source ordB src s1" r] fin [OF ok1(1)] ok1(2) by (simp add: db_moves_def)
  show ?thesis
  proof (rule Route_below [OF m, of "bMin b"])
    show "bMin b <s shEnd (last (shards (dbShards db)))" using series(2) by (simp add: active_end_def)
  next
    assume "Route (bMin b) (dbShards db) = (Inr (length (shards (dbShards db)) - 1), dbShards db)"
    note o1 = out [OF this]
    show ?thesis
    proof (cases "fmsize ?out = 0")
      case True
      with o1 done_ show ?thesis by simp
    next
      case False
      note f = fin [OF ok3(1) [OF False]]
      from f(2) ok3(2) [OF False] have "sNextID (finish_source ordB src s3) = sNextID (dbStore db) + 1" by simp
      from db_moves_created(2) [OF ok f(1) this fresh] o1 False show ?thesis by (simp del: One_nat_def)
    qed
  next
    fix e
    assume "Route (bMin b) (dbShards db) = (Inl e, dbShards db)"
    note o1 = out [OF this]
    show ?thesis
    proof (cases "fmsize ?out = 0")
      case True
      with o1 done_ show ?thesis by simp
    next
      case False
      from db_moves_created(1) [OF ok ok3 [OF False] fresh, of "dbReg db"] o1 False show ?thesis by simp
    qed
  qed
qed

lemma db_moves_refl: "db_ok db \<Longrightarrow> db_moves 0 db db"
  by (simp add: db_moves_def go_int)

lemma db_moves_mono: "db_moves m a b \<Longrightarrow> m \<le> n \<Longrightarrow> db_moves n a b"
  by (auto simp: db_moves_def)

lemma db_moves_ok: "db_moves n a b \<Longrightarrow> db_ok b"
  by (simp add: db_moves_def)

lemma db_moves_same_store:
  "db_ok db \<Longrightarrow> store_ok (active_end db) s \<Longrightarrow> sNextID s = sNextID (dbStore db) \<Longrightarrow> db_moves 0 db (db\<lparr>dbStore := s\<rparr>)"
  using db_moves_store [of db s "dbReg db"] by simp

lemma db_ok_store: "db_ok db \<Longrightarrow> store_ok (active_end db) (dbStore db)"
  by (simp add: db_ok_def)

lemma Compact_moves:
  assumes ord: "iterates ordS" "iterates ordB" and ok: "db_ok db" and fresh: "sNextID (dbStore db) + 1 \<noteq> 0"
  shows "db_moves 1 db (snd (Compact ordS ordB pol bid db))"
proof (rule Open_cases [of "dbStore db" bid])
  fix b
  assume b: "fmlookup (blocks (dbStore db)) bid = Some b"
    and o: "Open bid (dbStore db) = (Inr (Some bid), on_block bid (\<lambda>b. b\<lparr>bRefs := bRefs b + 1\<rparr>) (dbStore db))"
  let ?s = "on_block bid (\<lambda>b. b\<lparr>bRefs := bRefs b + 1\<rparr>) (dbStore db)"
  let ?db = "db\<lparr>dbStore := ?s\<rparr>"
  have s: "store_ok (active_end db) ?s" by (intro store_ok_on_block db_ok_store ok) simp_all
  have m0: "db_moves 0 db ?db" using ok s by (intro db_moves_same_store) simp_all
  have l: "fmlookup (blocks ?s) bid = Some (b\<lparr>bRefs := bRefs b + 1\<rparr>)" using b by (simp add: on_block_lookup)
  obtain r db1 where h: "compact_held ordS ordB pol bid (b\<lparr>bRefs := bRefs b + 1\<rparr>) ?db = (r, db1)" by (rule prod.exhaust)
  have m1: "db_moves 1 ?db db1"
    using compact_held_moves [OF ord db_moves_ok [OF m0], of bid "b\<lparr>bRefs := bRefs b + 1\<rparr>" pol] fresh l h by simp
  have m2: "db_moves 0 db1 (db1\<lparr>dbStore := Close bid (dbStore db1)\<rparr>)"
    using db_moves_ok [OF m1] by (intro db_moves_same_store store_ok_Close db_ok_store) simp_all
  have "Compact ordS ordB pol bid db = (r, db1\<lparr>dbStore := Close bid (dbStore db1)\<rparr>)"
    using o l h by (simp add: Compact_def)
  with db_moves_trans [OF db_moves_trans [OF m0 m1] m2] show ?thesis by simp
qed (use ok in \<open>auto simp: Compact_def intro: db_moves_mono [OF db_moves_refl]\<close>)

lemma compact_loop_moves:
  assumes "\<forall>(bid, ordS, ordB) \<in> set jobs. iterates ordS \<and> iterates ordB" and "db_ok db"
    and "unat (sNextID (dbStore db)) + length jobs < 2 ^ 64"
  shows "db_moves (length jobs) db (snd (compact_loop pol jobs n db))"
  using assms
proof (induction jobs arbitrary: n db)
  case Nil
  then show ?case by (simp add: db_moves_refl)
next
  case (Cons job jobs)
  obtain bid ordS ordB where job: "job = (bid, ordS, ordB)" by (rule prod_cases3)
  obtain st s where p: "peek bState bid (dbStore db) = (st, s)" by (rule prod.exhaust)
  then have s: "s = dbStore db" by (simp add: peek_spec)
  obtain r db2 where c: "Compact ordS ordB pol bid db = (r, db2)" by (rule prod.exhaust)
  have "sNextID (dbStore db) + 1 \<noteq> 0" using Cons.prems(3) fresh_unat(1) [of "sNextID (dbStore db)"] by simp
  with c Cons.prems(1,2) job have m: "db_moves 1 db db2"
    using Compact_moves [of ordS ordB db pol bid] by simp
  have rest: "db_moves (length jobs) db2 (snd (compact_loop pol jobs n2 db2))" for n2
    using Cons.prems m by (intro Cons.IH) (auto simp: db_moves_def)
  have here: "db_moves (Suc (length jobs)) db (snd (compact_loop pol jobs n db))"
    using Cons.prems by (intro db_moves_mono [OF Cons.IH]) auto
  have err: "db_moves (Suc (length jobs)) db db2" using m by (rule db_moves_mono) simp
  show ?case
    using p s c here err db_moves_trans [OF m rest] by (simp add: job Let_def split: sum.splits)
qed

lemma sweep_one_ok:
  assumes "store_ok e s"
  shows "store_ok e (snd (sweep_one c bid (res, s)))" "sNextID (snd (sweep_one c bid (res, s))) = sNextID s"
proof -
  have "store_ok e (MarkArchived bid s)"
    unfolding MarkArchived_on_block by (intro store_ok_on_block assms) simp_all
  moreover have "sNextID (MarkArchived bid s) = sNextID s" by (simp add: MarkArchived_on_block)
  ultimately show "store_ok e (snd (sweep_one c bid (res, s)))" "sNextID (snd (sweep_one c bid (res, s))) = sNextID s"
    using assms by (auto simp: sweep_one_def peek_spec Let_def split: option.splits prod.splits)
qed

lemma sweep_fold_ok:
  "store_ok e s \<Longrightarrow> store_ok e (snd (fold (sweep_one c) ids (res, s)))
     \<and> sNextID (snd (fold (sweep_one c) ids (res, s))) = sNextID s"
proof (induction ids arbitrary: res s)
  case (Cons bid ids)
  obtain r1 s1 where "sweep_one c bid (res, s) = (r1, s1)" by (rule prod.exhaust)
  with Cons.IH [of s1 r1] sweep_one_ok [OF Cons.prems, of c bid res] show ?case by simp
qed simp

lemma Sweep_moves:
  assumes ord: "iterates ordB" and ok: "db_ok db" and r: "Sweep ids ordB pol now db = (res, db')"
  shows "db_moves 0 db db'"
proof -
  let ?f = "fold (sweep_one (Cutoff pol now)) ids (\<lparr>Scanned = 0, Removed = 0\<rparr>, dbStore db)"
  obtain s where s: "s = snd ?f" by simp
  have f: "store_ok (active_end db) s" "sNextID s = sNextID (dbStore db)"
    using sweep_fold_ok [OF db_ok_store [OF ok]] by (simp_all add: s)
  have st: "dbStore db' = snd (Reclaim (ordB (blocks s)) s)"
    and sh: "dbShards db' = snd (ArchiveOlderThan (Cutoff pol now) (dbShards db))"
    using r by (auto simp: Sweep_def store_List_def Let_def split_beta s)
  have v: "visits (ordB (blocks s)) (blocks s)" by (rule iterates_visits [OF ord])
  have shards: "shards (dbShards db') = map (archive_step (Cutoff pol now)) (shards (dbShards db))"
      "window (dbShards db') = window (dbShards db)"
    by (simp_all add: sh ArchiveOlderThan_def)
  have ne: "shards (dbShards db) \<noteq> []" using ok by (simp add: db_ok_def mgr_inv_def)
  then have e: "active_end db' = active_end db" by (simp add: active_end_def shards last_map)
  have n: "sNextID (dbStore db') = sNextID (dbStore db)"
    unfolding st by (simp add: Reclaim_spec [OF v] f(2))
  have "store_ok (active_end db) (dbStore db')" unfolding st by (rule store_ok_Reclaim [OF f(1) v])
  moreover have "mgr_inv (dbShards db')" unfolding sh by (rule ArchiveOlderThan_inv) (use ok in \<open>simp add: db_ok_def\<close>)
  moreover have "refs_ok db'" using ok by (simp add: db_ok_def refs_ok_def shards n)
  ultimately show ?thesis using ok e n shards(2) by (simp add: db_moves_def db_ok_def go_int)
qed

lemma ForceRotate_moves:
  assumes ok: "db_ok db" and fits: "sint (active_end db) + sint (window (dbShards db)) < 2 ^ 63"
  shows "db_moves 0 db (db\<lparr>dbShards := snd (ForceRotate (dbShards db))\<rparr>)"
proof -
  let ?m = "dbShards db"
  have m: "mgr_inv ?m" and pos: "0 <s active_end db" using ok by (simp_all add: db_ok_def)
  then have w: "0 < sint (window ?m)" and ne: "shards ?m \<noteq> []" by (simp_all add: mgr_inv_def go_int)
  have inv: "mgr_inv (snd (ForceRotate ?m))"
    using m fits pos by (intro ForceRotate_inv) (simp_all add: active_end_def go_int)
  have sh: "last (shards (snd (ForceRotate ?m))) = new_shard (mNextID ?m) (active_end db) (window ?m)"
    by (simp add: ForceRotate_def Let_def active_end_def)
  have e: "sint (active_end db + window ?m) = sint (active_end db) + sint (window ?m)"
    using fits pos w by (intro sint_add_no_overflow) (simp_all add: go_int)
  have grow: "active_end db \<le>s active_end (db\<lparr>dbShards := snd (ForceRotate ?m)\<rparr>)"
    using w e by (simp add: active_end_def [of "db\<lparr>dbShards := _\<rparr>"] sh new_shard_def go_int)
  have "sh \<in> set (shards ?m) \<or> shBlocks sh = [] \<or> shBlocks sh = shBlocks (shards ?m ! (length (shards ?m) - 1))"
    if "sh \<in> set (shards (snd (ForceRotate ?m)))" for sh
    using that set_update_subset_insert [of "shards ?m" "length (shards ?m) - 1"
        "Shard_Seal (shards ?m ! (length (shards ?m) - 1))"]
    by (auto simp: ForceRotate_def Let_def new_shard_def)
  moreover have "shards ?m ! (length (shards ?m) - 1) \<in> set (shards ?m)" using ne by simp
  ultimately have "refs_ok (db\<lparr>dbShards := snd (ForceRotate ?m)\<rparr>)"
    using ok by (fastforce simp: db_ok_def refs_ok_def)
  moreover have "0 <s active_end (db\<lparr>dbShards := snd (ForceRotate ?m)\<rparr>)" using pos grow by (simp add: go_int)
  moreover have "window (snd (ForceRotate ?m)) = window ?m" by (simp add: ForceRotate_def Let_def)
  ultimately show ?thesis
    using ok inv grow by (auto simp: db_moves_def db_ok_def intro: store_ok_mono)
qed

lemma db_moves_cong:
  "dbStore db2 = dbStore db1 \<Longrightarrow> dbShards db2 = dbShards db1 \<Longrightarrow> db_moves n db db2 = db_moves n db db1"
  "dbStore db2 = dbStore db1 \<Longrightarrow> dbShards db2 = dbShards db1 \<Longrightarrow> db_moves n db2 db = db_moves n db1 db"
  by (simp_all add: db_moves_def db_ok_def refs_ok_def active_end_def)

lemma groupMinMax_headed:
  assumes "iterates ordS" and "series_of grp sid \<noteq> []"
    and "\<And>sid p. p \<in> set (series_of grp sid) \<Longrightarrow> SeriesID p = sid" and "groupMinMax ordS grp = (mn, mx)"
  shows "headed mn mx grp"
  by (rule groupMinMax_spans [OF assms(1,2)]) (use assms(3,4) in \<open>auto simp: headed_def\<close>)

lemma mem_inv_own: "mem_inv m \<Longrightarrow> p \<in> set (series_of (byID (current m)) sid) \<Longrightarrow> SeriesID p = sid"
  by (cases "fmlookup (byID (current m)) sid") (auto simp: mem_inv_def series_ok_def fmpred_iff series_of_def)

lemma store_kept_moves:
  assumes ord: "iterates ordS" and ok: "db_ok db" and fresh: "sNextID (dbStore db) + 1 \<noteq> 0"
    and r: "routed (dbShards db) by_id" and srt: "\<And>sid. time_sorted (series_of by_id sid)"
    and own: "\<And>sid p. p \<in> set (series_of by_id sid) \<Longrightarrow> SeriesID p = sid"
  shows "db_moves 1 db (store_kept ordS by_id db)"
proof (cases "kept (dbShards db) by_id = fmempty")
  case True
  with ok show ?thesis by (simp add: store_kept_def db_moves_mono [OF db_moves_refl])
next
  case False
  let ?grp = "kept (dbShards db) by_id"
  obtain mn mx where mm: "groupMinMax ordS ?grp = (mn, mx)" by (rule prod.exhaust)
  obtain s where s: "s = on_block (sNextID (dbStore db) + 1) Block_Seal (snd (Create ?grp mn mx (dbStore db)))" by simp
  have below: "TS p <s active_end db" if "p \<in> set (series_of ?grp sid)" for p sid
    using that r by (auto simp: routed_def active_end_def)
  obtain sid where "series_of ?grp sid \<noteq> []" using False by (auto simp: kept_empty)
  then have h: "headed mn mx ?grp" using groupMinMax_headed [OF ord _ _ mm] own by simp
  have ser: "fmpred (\<lambda>_ pts. time_sorted pts \<and> (\<forall>p \<in> set pts. TS p <s active_end db)) ?grp"
  proof (unfold fmpred_iff, intro allI impI)
    fix sid pts
    assume l: "fmlookup ?grp sid = Some pts"
    then have p: "series_of ?grp sid = pts" by (simp add: series_of_def)
    moreover have "time_sorted (series_of ?grp sid)"
      using srt [of sid] by (simp add: time_sorted_def sorted_wrt_filter)
    ultimately show "time_sorted pts \<and> (\<forall>p \<in> set pts. TS p <s active_end db)" using below [of _ sid] by simp
  qed
  then have "mn <s active_end db" by (intro headed_below [OF h]) (auto simp: fmpred_iff)
  then have "store_ok (active_end db) (snd (Create ?grp mn mx (dbStore db)))"
    using db_ok_store [OF ok] fresh ser h by (intro store_ok_Create)
  then have s1: "store_ok (active_end db) s" unfolding s by (rule store_ok_on_block) simp_all
  have s2: "sNextID s = sNextID (dbStore db) + 1" by (simp add: s)
  have "store_kept ordS by_id db = db\<lparr>dbStore := s, dbReg := dbReg db,
      dbShards := on_shard (length (shards (dbShards db)) - 1) (AddBlock (sNextID (dbStore db) + 1)) (dbShards db)\<rparr>"
    using False mm by (simp add: store_kept_def Let_def s)
  with db_moves_created(2) [OF ok s1 s2 fresh, of "dbReg db"] show ?thesis by (simp only:)
qed

lemma flushLocked_moves:
  assumes ord: "iterates ordS" and inv: "ingest_inv inp" and ok: "db_ok (inDb inp)"
    and fresh: "sNextID (dbStore (inDb inp)) + 1 \<noteq> 0" and f: "flushLocked ordS ordW s inp = (e, inp')"
  shows "db_moves 1 (inDb inp) (inDb inp')"
proof (cases "Len (inMem inp) = 0")
  case True
  with f ok show ?thesis by (simp add: flushLocked_def db_moves_mono [OF db_moves_refl])
next
  case False
  have parts: "routed (dbShards (inDb inp)) (byID (current (inMem inp)))" "mem_inv (inMem inp)"
    using inv by (simp_all add: ingest_inv_def)
  obtain n where n: "inDb inp' = count_metric ''blocks_flushed'' n
        (store_kept ordS (byID (current (inMem inp))) (inDb inp))"
    by (rule flushLocked_effect [OF ord ingest_inv_shards [OF inv] parts(1) False f])
  from store_kept_moves [OF ord ok fresh parts(1) mem_inv_sorted [OF parts(2)] mem_inv_own [OF parts(2)]] show ?thesis
    unfolding n by (subst db_moves_cong(1)) simp_all
qed

section \<open>The pipeline\<close>

definition pipeline_ok :: "ingest \<Rightarrow> bool" where
  "pipeline_ok inp \<longleftrightarrow> ingest_inv inp \<and> db_ok (inDb inp)"

text \<open>Ids left: an operation that registers at most \<open>n\<close> series and creates at most \<open>n\<close> blocks runs no counter over.\<close>

definition headroom :: "nat \<Rightarrow> ingest \<Rightarrow> bool" where
  "headroom n inp \<longleftrightarrow> unat (ixNextID (inIdx inp)) + n < 2 ^ 64 \<and> unat (sNextID (dbStore (inDb inp))) + n < 2 ^ 64"

definition pipeline_moves :: "nat \<Rightarrow> ingest \<Rightarrow> ingest \<Rightarrow> bool" where
  "pipeline_moves n inp inp' \<longleftrightarrow> ingest_inv inp' \<and> db_moves n (inDb inp) (inDb inp')
     \<and> unat (ixNextID (inIdx inp')) \<le> unat (ixNextID (inIdx inp)) + n"

lemma headroom_room: "headroom (Suc n) inp \<Longrightarrow> room inp"
  using fresh_unat(1) [of "ixNextID (inIdx inp)"] fresh_unat(1) [of "sNextID (dbStore (inDb inp))"]
  by (simp add: headroom_def room_def)

lemma pipeline_moves_ok: "pipeline_moves n inp inp' \<Longrightarrow> pipeline_ok inp'"
  by (simp add: pipeline_moves_def pipeline_ok_def db_moves_def)

lemma pipeline_moves_trans:
  "pipeline_moves m a b \<Longrightarrow> pipeline_moves n b c \<Longrightarrow> pipeline_moves (m + n) a c"
  by (auto simp: pipeline_moves_def intro: db_moves_trans)

lemma pipeline_moves_refl: "pipeline_ok inp \<Longrightarrow> pipeline_moves n inp inp"
  by (auto simp: pipeline_moves_def pipeline_ok_def intro: db_moves_mono [OF db_moves_refl])

lemma pipeline_headroom: "pipeline_moves m a b \<Longrightarrow> headroom (m + n) a \<Longrightarrow> headroom n b"
  by (simp add: pipeline_moves_def headroom_def db_moves_def)

lemma SeriesOf_ids:
  assumes "room inp" and s: "SeriesOf ordL name labels inp = (r, inp')"
  shows "unat (ixNextID (inIdx inp')) \<le> unat (ixNextID (inIdx inp)) + 1"
  using s unat_succ [of "ixNextID (inIdx inp)"] assms(1)
  by (auto simp: SeriesOf_def Register_def Let_def room_def split: if_splits sum.splits prod.splits bool.splits option.splits)

lemma append_log_ids:
  assumes "room inp" and a: "append_log ordL name labels ts v inp = (r, inp')"
  shows "unat (ixNextID (inIdx inp')) \<le> unat (ixNextID (inIdx inp)) + 1"
proof -
  obtain r1 inp1 where s: "SeriesOf ordL name labels inp = (r1, inp1)" by (rule prod.exhaust)
  from a s have "inIdx inp' = inIdx inp1" by (auto simp: append_log_def split: sum.splits prod.splits)
  with SeriesOf_ids [OF assms(1) s] show ?thesis by simp
qed

text \<open>Only \<open>SeriesOf\<close> touches the index.\<close>

lemma flushLocked_index: "inIdx (snd (flushLocked ordS ordW s inp)) = inIdx inp"
  by (simp add: flushLocked_def Let_def split: prod.split option.split)

lemma append_apply_index: "inIdx (snd (append_apply ordS ordW sp inp)) = inIdx inp"
  by (cases sp) (auto simp: append_apply_def Let_def flushLocked_index split: sum.split prod.split)

lemma written_moves:
  assumes ok: "pipeline_ok inp" and fits: "fits (dbShards (inDb inp)) (TS pt)"
    and r: "fst (Route (TS pt) (dbShards (inDb inp))) = Inr i"
  shows "pipeline_moves 0 inp (written pt inp)"
proof -
  have inv: "ingest_inv inp" and db: "db_ok (inDb inp)" using ok by (simp_all add: pipeline_ok_def)
  have m: "mgr_inv (dbShards (inDb inp))" using db by (simp add: db_ok_def)
  note re = Route_end [OF m fits]
  note wi = written_inv [OF inv fits r]
  have win: "window (snd (Route (TS pt) (dbShards (inDb inp)))) = window (dbShards (inDb inp))"
    by (simp add: Route_def Let_def)
  have d: "dbStore (inDb (written pt inp)) = dbStore (inDb inp)"
      "dbShards (inDb (written pt inp)) = snd (Route (TS pt) (dbShards (inDb inp)))"
    by (simp_all add: written_def)
  have grow: "active_end (inDb inp) \<le>s active_end (inDb (written pt inp))"
    using re(1) by (simp add: active_end_def d)
  moreover have "0 <s active_end (inDb (written pt inp))" using grow db by (simp add: db_ok_def go_int)
  moreover have "store_ok (active_end (inDb (written pt inp))) (dbStore (inDb inp))"
    using store_ok_mono [OF db_ok_store [OF db] grow] .
  ultimately have "db_moves 0 (inDb inp) (inDb (written pt inp))"
    using wi(1) by (simp add: db_moves_def db_ok_def d win ingest_inv_def db_inv_def)
  with wi(1,2) show ?thesis by (simp add: pipeline_moves_def)
qed

lemma append_apply_moves:
  assumes ord: "iterates ordS" and ok: "pipeline_ok inp" and fresh: "sNextID (dbStore (inDb inp)) + 1 \<noteq> 0"
    and fits: "fits (dbShards (inDb inp)) (TS pt)"
  shows "pipeline_moves 1 inp (snd (append_apply ordS ordW (s, pt) inp))"
proof -
  obtain e inp' where a: "append_apply ordS ordW (s, pt) inp = (e, inp')" by (rule prod.exhaust)
  have "pipeline_moves 1 inp inp'"
    using a
  proof (cases rule: append_apply_cases)
    case (rejected err)
    with ok show ?thesis by (simp add: pipeline_moves_refl)
  next
    case (buffered i)
    from pipeline_moves_trans [OF written_moves [OF ok fits buffered(1)] pipeline_moves_refl, of 1]
    show ?thesis using buffered(3) pipeline_moves_ok [OF written_moves [OF ok fits buffered(1)]] by simp
  next
    case (flushed i)
    note w = written_moves [OF ok fits flushed(1)]
    have w': "ingest_inv (written pt inp)" "db_ok (inDb (written pt inp))"
      using pipeline_moves_ok [OF w] by (simp_all add: pipeline_ok_def)
    have fr: "sNextID (dbStore (inDb (written pt inp))) + 1 \<noteq> 0" using fresh by (simp add: written_def)
    have "pipeline_moves 1 (written pt inp) inp'"
      using flushLocked_moves [OF ord w' fr flushed(2)] flushLocked_inv(1,2) [OF ord w'(1) fr flushed(2)]
      by (simp add: pipeline_moves_def)
    from pipeline_moves_trans [OF w this] show ?thesis by simp
  qed
  with a show ?thesis by simp
qed

lemma append_log_moves:
  assumes ok: "pipeline_ok inp" and room: "room inp" and l: "append_log ordL name labels ts v inp = (r, inp')"
  shows "ingest_inv inp'" "db_moves 0 (inDb inp) (inDb inp')"
    "unat (ixNextID (inIdx inp')) \<le> unat (ixNextID (inIdx inp)) + 1"
    "r = Inr (s, pt) \<Longrightarrow> TS pt = ts"
proof -
  have inv: "ingest_inv inp" and db: "db_ok (inDb inp)" using ok by (simp_all add: pipeline_ok_def)
  note e = append_log_effect [OF inv room l]
  show "ingest_inv inp'" by (rule e)
  show "db_moves 0 (inDb inp) (inDb inp')"
    using db_moves_refl [OF db] by (simp add: db_moves_cong(1) [OF e(2,3)])
  show "unat (ixNextID (inIdx inp')) \<le> unat (ixNextID (inIdx inp)) + 1" by (rule append_log_ids [OF room l])
  show "r = Inr (s, pt) \<Longrightarrow> TS pt = ts" using e(5) by blast
qed

lemma Append_moves:
  assumes ord: "iterates ordS" and ok: "pipeline_ok inp" and hr: "headroom (Suc n) inp"
    and fits: "fits (dbShards (inDb inp)) ts"
  shows "pipeline_moves 1 inp (snd (Ingest_Append ordL ordS ordW name labels ts v inp))"
proof -
  note room = headroom_room [OF hr]
  obtain r inp1 where l: "append_log ordL name labels ts v inp = (r, inp1)" by (rule prod.exhaust)
  note m = append_log_moves [OF ok room l]
  have ok1: "pipeline_ok inp1" using m(1) db_moves_ok [OF m(2)] by (simp add: pipeline_ok_def)
  show ?thesis
  proof (cases r)
    case (Inl err)
    with l m(1,3) db_moves_mono [OF m(2), of 1] show ?thesis by (simp add: Ingest_Append_def pipeline_moves_def)
  next
    case (Inr sp)
    obtain s pt where sp: "sp = (s, pt)" by (rule prod.exhaust)
    have "window (dbShards (inDb inp1)) = window (dbShards (inDb inp))" using m(2) by (simp add: db_moves_def)
    then have fits1: "fits (dbShards (inDb inp1)) (TS pt)" using fits m(4) [of s pt] Inr sp by (simp add: fits_def)
    have fr: "sNextID (dbStore (inDb inp1)) + 1 \<noteq> 0"
      using hr m(2) fresh_unat(1) [of "sNextID (dbStore (inDb inp1))"] by (simp add: headroom_def db_moves_def)
    have a: "pipeline_moves 1 inp1 (snd (append_apply ordS ordW (s, pt) inp1))"
      by (rule append_apply_moves [OF ord ok1 fr fits1])
    have ix: "inIdx (snd (append_apply ordS ordW (s, pt) inp1)) = inIdx inp1"
      by (rule append_apply_index)
    have "pipeline_moves 1 inp (snd (append_apply ordS ordW (s, pt) inp1))"
      using a m(3) ix db_moves_trans [OF m(2), of 1] by (simp add: pipeline_moves_def)
    with l Inr sp show ?thesis by (simp add: Ingest_Append_def)
  qed
qed

lemma AppendBatch_moves:
  assumes "iterates ordS" and "pipeline_ok inp" and "headroom (Suc (length pts)) inp"
    and "\<forall>pt \<in> set pts. fits (dbShards (inDb inp)) (bpTS pt)"
  shows "pipeline_moves (length pts) inp (snd (AppendBatch ordL ordS ordW pts inp))"
  using assms(2-4)
proof (induction pts arbitrary: inp)
  case Nil
  then show ?case by (simp add: pipeline_moves_refl)
next
  case (Cons pt pts)
  obtain e inp1 where a: "Ingest_Append ordL ordS ordW (bpName pt) (bpLabels pt) (bpTS pt) (bpValue pt) inp = (e, inp1)"
    by (rule prod.exhaust)
  have hr: "headroom (Suc 0) inp" using Cons.prems(2) by (simp add: headroom_def)
  have m: "pipeline_moves 1 inp inp1"
    using Append_moves [OF assms(1) Cons.prems(1), of 0 "bpTS pt"] Cons.prems(3) hr a by (metis list.set_intros(1) snd_conv)
  have ok: "pipeline_ok inp1" by (rule pipeline_moves_ok [OF m])
  have hr1: "headroom (Suc (length pts)) inp1"
    using Cons.prems(2) by (intro pipeline_headroom [OF m]) simp
  have "window (dbShards (inDb inp1)) = window (dbShards (inDb inp))"
    using m by (simp add: pipeline_moves_def db_moves_def)
  then have "\<forall>q \<in> set pts. fits (dbShards (inDb inp1)) (bpTS q)" using Cons.prems(3) by (simp add: fits_def)
  from pipeline_moves_trans [OF m Cons.IH [OF ok hr1 this]]
  have rest: "pipeline_moves (Suc (length pts)) inp (snd (AppendBatch ordL ordS ordW pts inp1))" by simp
  have here: "pipeline_moves (Suc (length pts)) inp inp1"
    using pipeline_moves_trans [OF m pipeline_moves_refl [OF ok, of "length pts"]] by simp
  from rest here a show ?case by (cases e) simp_all
qed

text \<open>Changes to the log, or to the registry, alone.\<close>

lemma pipeline_ok_log [simp]: "pipeline_ok (inp\<lparr>inWal := w\<rparr>) = pipeline_ok inp"
  by (simp add: pipeline_ok_def ingest_inv_def)

lemma db_ok_reg [simp]: "db_ok (db\<lparr>dbReg := reg\<rparr>) = db_ok db"
  by (simp add: db_ok_def refs_ok_def active_end_def)

lemma db_ok_parts: "db_ok db \<Longrightarrow> db_inv db \<and> blocks_sorted (dbStore db) \<and> refs_ok db"
  by (simp add: db_ok_def db_inv_def store_ok_def)

lemma pipeline_ok_db:
  assumes "pipeline_ok inp" and m: "db_moves n (inDb inp) db"
  shows "pipeline_ok (inp\<lparr>inDb := db\<rparr>)"
proof -
  have ok: "db_ok db" by (rule db_moves_ok [OF m])
  have "active_end (inDb inp) \<le>s active_end db" using m by (simp add: db_moves_def)
  then have "routed (dbShards db) (byID (current (inMem inp)))"
    using assms(1) routed_mono [of "dbShards (inDb inp)"] by (simp add: pipeline_ok_def ingest_inv_def active_end_def)
  with assms(1) db_ok_parts [OF ok] ok show ?thesis by (simp add: pipeline_ok_def ingest_inv_def)
qed

lemma pipeline_ok_index:
  "pipeline_ok inp \<Longrightarrow> index_inv ix \<Longrightarrow> pipeline_ok (inp\<lparr>inIdx := ix\<rparr>)"
  by (simp add: pipeline_ok_def ingest_inv_def)

lemma Flush_moves:
  assumes ord: "iterates ordS" and ok: "pipeline_ok inp" and fresh: "sNextID (dbStore (inDb inp)) + 1 \<noteq> 0"
    and f: "Ingest_Flush ordS ordW inp = (e, inp')"
  shows "pipeline_moves 1 inp inp'"
proof (cases "nextSeq (inWal inp) = 0")
  case True
  with f ok show ?thesis by (simp add: Ingest_Flush_def pipeline_moves_refl)
next
  case False
  have inv: "ingest_inv inp" and db: "db_ok (inDb inp)" using ok by (simp_all add: pipeline_ok_def)
  have fl: "flushLocked ordS ordW (nextSeq (inWal inp) - 1) inp = (e, inp')"
    using f False by (simp add: Ingest_Flush_def Let_def)
  show ?thesis
    using flushLocked_inv(1,2) [OF ord inv fresh fl] flushLocked_moves [OF ord inv db fresh fl]
    by (simp add: pipeline_moves_def)
qed

section \<open>Queries\<close>

lemma collect_blocks_ok:
  "store_ok e s \<Longrightarrow> store_ok e (snd (collect_blocks sid rng bids s)) \<and> sNextID (snd (collect_blocks sid rng bids s)) = sNextID s"
proof (induction bids arbitrary: s)
  case (Cons bid bids)
  let ?s = "on_block bid (\<lambda>b. b\<lparr>bRefs := bRefs b + 1\<rparr>) s"
  have s: "store_ok e ?s" "store_ok e (Close bid ?s)"
    using Cons.prems by (simp_all add: store_ok_on_block store_ok_Close)
  show ?case
  proof (rule Open_cases [of s bid])
    fix b
    assume "Open bid s = (Inr (Some bid), ?s)"
    with s Cons.IH [OF s(2)] Cons.IH [OF s(1)] show ?thesis
      by (auto split: option.splits sum.splits prod.splits)
  qed (use Cons in simp_all)
qed simp

lemma query_collect_ok:
  "store_ok e s \<Longrightarrow> store_ok e (snd (query_collect srt sid rng mem mgr s))
     \<and> sNextID (snd (query_collect srt sid rng mem mgr s)) = sNextID s"
  using collect_blocks_ok [of e s sid rng "covering_blocks rng mgr"]
  by (auto simp: query_collect_def split: sum.splits prod.splits)

lemma QueryRange_ok:
  "store_ok e s \<Longrightarrow> store_ok e (snd (QueryRange srt sid rng agg step mem mgr s))
     \<and> sNextID (snd (QueryRange srt sid rng agg step mem mgr s)) = sNextID s"
  using query_collect_ok [of e s srt sid rng mem mgr] by (auto simp: QueryRange_def split: sum.splits prod.splits)

lemma collect_all_ok:
  "store_ok e s \<Longrightarrow> store_ok e (snd (collect_all srt rng mem mgr sids acc s))
     \<and> sNextID (snd (collect_all srt rng mem mgr sids acc s)) = sNextID s"
proof (induction sids arbitrary: acc s)
  case (Cons sid sids)
  obtain r s1 where q: "query_collect srt sid rng mem mgr s = (r, s1)" by (rule prod.exhaust)
  with query_collect_ok [OF Cons.prems, of srt sid rng mem mgr] Cons.IH [of s1] show ?case by (auto split: sum.splits)
qed simp

lemma QueryMulti_ok:
  "store_ok e s \<Longrightarrow> store_ok e (snd (QueryMulti srt orders ix sids rng agg step mem mgr s))
     \<and> sNextID (snd (QueryMulti srt orders ix sids rng agg step mem mgr s)) = sNextID s"
  using collect_all_ok [of e s srt rng mem mgr sids fmempty] by (auto simp: QueryMulti_def split: sum.splits prod.splits)

lemma demo_db_ok: "db_ok demo_db"
proof -
  have "b = demo_block" if "fmlookup (blocks demo_store) k = Some b" for k b
    using that demo_facts(5,6) by (cases "k = 1") simp_all
  note only = this
  have "block_below 3600 demo_block"
    by (simp add: block_below_def demo_block_def three_points_def fmpred_iff go_int)
  then have "store_below 3600 demo_store" using only by (auto simp: store_below_def fmpred_iff)
  moreover have "headed (bMin demo_block) (bMax demo_block) (bByID demo_block)"
    unfolding headed_def
    by (intro conjI exI [of _ 7]) (auto simp: demo_block_def three_points_def series_of_def go_int)
  then have "store_typed demo_store" using only by (auto simp: store_typed_def fmpred_iff)
  ultimately show ?thesis
    using idle_inv(1) demo_inv
    by (simp add: db_ok_def store_ok_def active_end_def ingest_inv_def idle_ingest_def demo_facts)
       (simp add: demo_manager_def new_shard_def go_int)
qed

end
