(* ===== verification/Grouping.thy ===== *)
theory Grouping
  imports DatabaseFlow "HOL-Library.Sublist"
begin

text \<open>
  Grouping and flushing a snapshot whose points lie anywhere, not only before the end of the
  active window as those of a running pipeline do. The flush that ends a recovery is of this
  kind: the replayed records may be dated after the first window. Grouping then opens windows
  on its way, and \<open>flush_groups\<close> is refused by all of them but the last.
\<close>

section \<open>Grouping any points\<close>

definition dated :: "manager \<Rightarrow> series_points \<Rightarrow> bool" where
  "dated m by_id \<longleftrightarrow> (\<forall>sid. \<forall>p \<in> set (series_of by_id sid). fits m (TS p))"

text \<open>The points a grouping holds for a window and a series.\<close>

definition grouped :: "grouping \<Rightarrow> int64 \<times> int64 \<Rightarrow> uint64 \<Rightarrow> point list" where
  "grouped g key sid = series_of (group_at g key) sid"

definition last_shard :: "grouping \<Rightarrow> shard" where
  "last_shard g = last (shards (grShards g))"

text \<open>The windows of a grouping in progress, and the groups they have received.\<close>

definition windows_ok :: "manager \<Rightarrow> grouping \<Rightarrow> bool" where
  "windows_ok m g \<longleftrightarrow> mgr_inv (grShards g) \<and> window (grShards g) = window m \<and> 0 <s shEnd (last_shard g)
     \<and> shEnd (last (shards m)) \<le>s shEnd (last_shard g)
     \<and> (\<forall>sh \<in> set (shards (grShards g)). \<forall>b \<in> set (shBlocks sh). \<exists>sh0 \<in> set (shards m). b \<in> set (shBlocks sh0))"

definition groups_ok :: "manager \<Rightarrow> grouping \<Rightarrow> bool" where
  "groups_ok m g \<longleftrightarrow> distinct (grOrder g) \<and> set (grOrder g) = fmdom' (grGroups g)
     \<and> (\<forall>(a, e) \<in> set (grOrder g). 0 \<le>s a \<and> e = a + window m \<and> e \<le>s shEnd (last_shard g)
          \<and> (\<exists>sid. grouped g (a, e) sid \<noteq> [])
          \<and> (\<forall>sid. \<forall>p \<in> set (grouped g (a, e) sid). a \<le>s TS p \<and> TS p <s e))"

lemma groups_okD:
  assumes "groups_ok m g" and "(a, e) \<in> set (grOrder g)"
  shows "0 \<le>s a" "e = a + window m" "e \<le>s shEnd (last_shard g)" "\<exists>sid. grouped g (a, e) sid \<noteq> []"
    "\<And>p sid. p \<in> set (grouped g (a, e) sid) \<Longrightarrow> a \<le>s TS p \<and> TS p <s e"
proof -
  let ?P = "\<lambda>(a, e). 0 \<le>s a \<and> e = a + window m \<and> e \<le>s shEnd (last_shard g) \<and> (\<exists>sid. grouped g (a, e) sid \<noteq> [])
    \<and> (\<forall>sid. \<forall>p \<in> set (grouped g (a, e) sid). a \<le>s TS p \<and> TS p <s e)"
  have "\<forall>k \<in> set (grOrder g). ?P k" using assms(1) unfolding groups_ok_def by (elim conjE)
  from bspec [OF this assms(2)] have "?P (a, e)" .
  then show "0 \<le>s a" "e = a + window m" "e \<le>s shEnd (last_shard g)" "\<exists>sid. grouped g (a, e) sid \<noteq> []"
    "\<And>p sid. p \<in> set (grouped g (a, e) sid) \<Longrightarrow> a \<le>s TS p \<and> TS p <s e" unfolding prod.case by blast+
qed

lemma grouped_absent: "key \<notin> fmdom' (grGroups g) \<Longrightarrow> grouped g key sid = []"
  by (simp add: grouped_def group_at_def series_of_def fmlookup_dom'_iff split: option.splits)

lemma Route_error: "fst (Route ts m) = Inl e \<Longrightarrow> snd (Route ts m) = m"
  using Route_error_state [of ts m e] by (cases "Route ts m") simp

lemma group_point_cases:
  assumes "mgr_inv (grShards g)" and "fits (grShards g) (TS p)"
  obtains (refused) e where "fst (Route (TS p) (grShards g)) = Inl e" "group_point sid p g = g"
  | (accepted) i m where "Route (TS p) (grShards g) = (Inr i, m)" "grShards (group_point sid p g) = m"
      "covers (last (shards m)) (TS p)"
      "grOrder (group_point sid p g)
        = (if active_key m \<in> fmdom' (grGroups g) then grOrder g else grOrder g @ [active_key m])"
      "fmdom' (grGroups (group_point sid p g)) = insert (active_key m) (fmdom' (grGroups g))"
      "\<And>k s. grouped (group_point sid p g) k s = grouped g k s @ (if k = active_key m \<and> s = sid then [p] else [])"
proof -
  obtain r m where rm: "Route (TS p) (grShards g) = (r, m)" by (rule prod.exhaust)
  show ?thesis
  proof (cases r)
    case (Inl e)
    with rm Route_error_state [of "TS p" "grShards g" e m] show ?thesis
      by (intro that(1) [of e]) (simp_all add: group_point_def)
  next
    case (Inr i)
    with rm have r: "Route (TS p) (grShards g) = (Inr i, m)" by simp
    note c = Route_covers [OF assms r]
    have "shards m \<noteq> []" using c by auto
    with c have key: "shards m ! i = last (shards m)" by (simp add: last_conv_nth)
    let ?key = "active_key m"
    have g': "group_point sid p g = g\<lparr>grShards := m,
        grOrder := (if fmlookup (grGroups g) ?key = None then grOrder g @ [?key] else grOrder g),
        grGroups := fmupd ?key (fmupd sid (grouped g ?key sid @ [p]) (group_at g ?key)) (grGroups g)\<rparr>"
      using r by (simp add: group_point_def Let_def key grouped_def flip: active_key_def)
    have "grouped (group_point sid p g) k s = grouped g k s @ (if k = ?key \<and> s = sid then [p] else [])" for k s
      by (simp add: g' grouped_def group_at_def series_of_def)
    with r c key g' show ?thesis by (intro that(2) [of i m]) (auto simp: fmlookup_dom'_iff)
  qed
qed

lemma group_point_windows:
  assumes ok: "windows_ok m g" and fits: "fits m (TS p)"
  shows "windows_ok m (group_point sid p g)"
    and "shEnd (last_shard g) \<le>s shEnd (last_shard (group_point sid p g))"
    and "TS p <s shEnd (last_shard (group_point sid p g))"
proof -
  have inv: "mgr_inv (grShards g)" and fits': "fits (grShards g) (TS p)"
    using ok fits by (simp_all add: windows_ok_def fits_def)
  have "windows_ok m (group_point sid p g) \<and> shEnd (last_shard g) \<le>s shEnd (last_shard (group_point sid p g))
    \<and> TS p <s shEnd (last_shard (group_point sid p g))"
  proof (rule group_point_cases [OF inv fits', of sid])
    fix e
    assume r: "fst (Route (TS p) (grShards g)) = Inl e" "group_point sid p g = g"
    have "TS p <s shStart (last_shard g)"
      by (rule Route_cases [OF inv, of "TS p"]) (use r(1) in \<open>simp_all add: last_shard_def\<close>)
    moreover have "window_ok (window (grShards g)) (last_shard g)" "0 <s window (grShards g)"
      using inv by (auto simp: mgr_inv_def list_all_iff last_shard_def)
    ultimately show ?thesis using ok r(2) by (simp add: go_int window_ok_def)
  next
    fix i m'
    assume r: "Route (TS p) (grShards g) = (Inr i, m')" "grShards (group_point sid p g) = m'"
      "covers (last (shards m')) (TS p)"
    have m': "m' = snd (Route (TS p) (grShards g))" using r(1) by simp
    have "mgr_inv m'" unfolding m' by (rule Route_inv [OF inv fits'])
    moreover have e: "shEnd (last_shard g) \<le>s shEnd (last (shards m'))"
      unfolding m' last_shard_def by (rule Route_end(1) [OF inv fits'])
    moreover have "window m' = window (grShards g)" unfolding m' by (simp add: Route_def Let_def)
    moreover have "\<exists>sh0 \<in> set (shards m). b \<in> set (shBlocks sh0)"
      if "sh \<in> set (shards m')" "b \<in> set (shBlocks sh)" for sh b
      using Route_blocks [OF inv, of sh "TS p" b] that ok unfolding m' windows_ok_def by blast
    ultimately show ?thesis
      using ok r(2,3) by (auto simp: windows_ok_def last_shard_def covers_def go_int)
  qed
  then show "windows_ok m (group_point sid p g)"
    "shEnd (last_shard g) \<le>s shEnd (last_shard (group_point sid p g))"
    "TS p <s shEnd (last_shard (group_point sid p g))" by blast+
qed

lemma active_key_ok:
  assumes "mgr_inv m" and "0 <s shEnd (last (shards m))"
  shows "0 \<le>s fst (active_key m)" and "snd (active_key m) = fst (active_key m) + window m"
proof -
  let ?l = "last (shards m)"
  have w: "0 < sint (window m)" and ok: "sint (window m) dvd sint (shStart ?l)"
      "sint (shEnd ?l) = sint (shStart ?l) + sint (window m)"
    using assms(1) by (auto simp: mgr_inv_def list_all_iff go_int window_ok_def)
  obtain k where k: "sint (shStart ?l) = sint (window m) * k" using ok(1) by (auto elim: dvdE)
  have "0 < sint (window m) * (k + 1)" using assms(2) ok(2) k by (simp add: go_int algebra_simps)
  then have "0 \<le> k" using w by (simp add: zero_less_mult_iff)
  then show "0 \<le>s fst (active_key m)" using k w by (simp add: active_key_def go_int)
  have "(word_of_int (sint (shEnd ?l)) :: int64) = word_of_int (sint (shStart ?l)) + word_of_int (sint (window m))"
    by (simp only: ok(2) wi_hom_add)
  then show "snd (active_key m) = fst (active_key m) + window m" by (simp add: active_key_def)
qed

lemma group_point_groups:
  assumes win: "windows_ok m g" and ok: "groups_ok m g" and fits: "fits m (TS p)"
  shows "groups_ok m (group_point sid p g)"
proof -
  have inv: "mgr_inv (grShards g)" and fits': "fits (grShards g) (TS p)"
    using win fits by (simp_all add: windows_ok_def fits_def)
  note new = group_point_windows [OF win fits, of sid]
  show ?thesis
  proof (rule group_point_cases [OF inv fits', of sid])
    fix i m'
    assume r: "grShards (group_point sid p g) = m'" "covers (last (shards m')) (TS p)"
      "grOrder (group_point sid p g)
        = (if active_key m' \<in> fmdom' (grGroups g) then grOrder g else grOrder g @ [active_key m'])"
      "fmdom' (grGroups (group_point sid p g)) = insert (active_key m') (fmdom' (grGroups g))"
      "\<And>k s. grouped (group_point sid p g) k s = grouped g k s @ (if k = active_key m' \<and> s = sid then [p] else [])"
    let ?g = "group_point sid p g" and ?key = "active_key m'"
    have m': "mgr_inv m'" "window m' = window m" "0 <s shEnd (last (shards m'))"
      using new(1) r(1) by (auto simp: windows_ok_def last_shard_def)
    have ends: "shEnd (last_shard ?g) = snd ?key" by (simp add: last_shard_def r(1) active_key_def)
    have order: "distinct (grOrder ?g)" "set (grOrder ?g) = fmdom' (grGroups ?g)"
        "set (grOrder ?g) = insert ?key (set (grOrder g))"
      using ok r(3,4) by (auto simp: groups_ok_def)
    have "0 \<le>s a \<and> e = a + window m \<and> e \<le>s shEnd (last_shard ?g) \<and> (\<exists>sid. grouped ?g (a, e) sid \<noteq> [])
        \<and> (\<forall>sid. \<forall>q \<in> set (grouped ?g (a, e) sid). a \<le>s TS q \<and> TS q <s e)"
      if key: "(a, e) \<in> set (grOrder ?g)" for a e
    proof (cases "(a, e) \<in> set (grOrder g)")
      case True
      then have "0 \<le>s a \<and> e = a + window m \<and> e \<le>s shEnd (last_shard g) \<and> (\<exists>sid. grouped g (a, e) sid \<noteq> [])
          \<and> (\<forall>sid. \<forall>q \<in> set (grouped g (a, e) sid). a \<le>s TS q \<and> TS q <s e)"
        using ok by (fastforce simp: groups_ok_def)
      with new(2) r(2,5) show ?thesis by (auto simp: active_key_def covers_def go_int)
    next
      case False
      with key order have "(a, e) = ?key" by auto
      moreover have "grouped g ?key s = []" for s
        using False ok calculation grouped_absent by (auto simp: groups_ok_def)
      ultimately show ?thesis
        using active_key_ok [OF m'(1,3)] r(2,5) m'(2) ends
        by (auto simp: active_key_def covers_def go_int)
    qed
    with order show ?thesis unfolding groups_ok_def by blast
  qed (use ok in simp)
qed

text \<open>The points in the order the two loops visit them.\<close>

definition visited :: "series_points \<Rightarrow> uint64 list \<Rightarrow> (uint64 \<times> point) list" where
  "visited by_id ks = concat (map (\<lambda>sid. map (Pair sid) (series_of by_id sid)) ks)"

definition group_all :: "(uint64 \<times> point) list \<Rightarrow> grouping \<Rightarrow> grouping" where
  "group_all = fold (\<lambda>(sid, p). group_point sid p)"

definition no_groups :: "manager \<Rightarrow> grouping" where
  "no_groups m = \<lparr>grShards = m, grGroups = fmempty, grOrder = []\<rparr>"

lemma groupByShard_visited:
  "groupByShard ordS by_id m =
    (let g = group_all (visited by_id (ordS by_id)) (no_groups m) in (map (group_at g) (grOrder g), grShards g))"
proof -
  have "fold (group_point sid) ps = group_all (map (Pair sid) ps)" for sid ps
    by (simp add: group_all_def fold_map comp_def)
  then have "fold (group_series by_id) ks g = group_all (visited by_id ks) g" for ks g
    by (induction ks arbitrary: g) (simp_all add: visited_def group_all_def group_series_def)
  then show ?thesis by (simp add: groupByShard_def no_groups_def)
qed

lemma group_all_snoc: "group_all (sps @ [(sid, p)]) g = group_point sid p (group_all sps g)"
  by (simp add: group_all_def)

lemma group_all_ok:
  assumes inv: "mgr_inv m" "0 <s shEnd (last (shards m))" and fits: "\<forall>(sid, p) \<in> set sps. fits m (TS p)"
  shows "windows_ok m (group_all sps (no_groups m)) \<and> groups_ok m (group_all sps (no_groups m))
    \<and> (\<forall>k s. subseq (grouped (group_all sps (no_groups m)) k s) (map snd (filter (\<lambda>(s', p). s' = s) sps)))
    \<and> (\<forall>(sid, p) \<in> set sps. TS p <s shEnd (last_shard (group_all sps (no_groups m))))"
  using fits
proof (induction sps rule: rev_induct)
  case Nil
  show ?case
    using inv by (auto simp: group_all_def no_groups_def windows_ok_def groups_ok_def last_shard_def grouped_def
        group_at_def series_of_def go_int)
next
  case (snoc sp sps)
  obtain sid p where sp: "sp = (sid, p)" by (rule prod.exhaust)
  let ?g = "group_all sps (no_groups m)"
  have IH: "windows_ok m ?g" "groups_ok m ?g"
      "\<And>k s. subseq (grouped ?g k s) (map snd (filter (\<lambda>(s', p). s' = s) sps))"
      "\<forall>(sid, p) \<in> set sps. TS p <s shEnd (last_shard ?g)" and p: "fits m (TS p)"
    using snoc sp by auto
  note w = group_point_windows [OF IH(1) p, of sid]
  have "subseq (grouped (group_point sid p ?g) k s) (map snd (filter (\<lambda>(s', p). s' = s) (sps @ [sp])))" for k s
  proof -
    have "grouped (group_point sid p ?g) k s = grouped ?g k s
        \<or> s = sid \<and> grouped (group_point sid p ?g) k s = grouped ?g k s @ [p]"
      by (rule group_point_cases [of ?g p sid]) (use IH(1) p in \<open>auto simp: windows_ok_def fits_def\<close>)
    with IH(3) [of k s] show ?thesis by (auto simp: sp subseq_append intro: subseq_rev_drop_many)
  qed
  moreover have "\<forall>(s, q) \<in> set (sps @ [sp]). TS q <s shEnd (last_shard (group_point sid p ?g))"
    using IH(4) w(2,3) sp by (auto simp: go_int)
  ultimately show ?case
    using w(1) group_point_groups [OF IH(1,2) p, of sid] by (simp only: sp group_all_snoc simp_thms)
qed

lemma sorted_subseq: "sorted_wrt R ys \<Longrightarrow> subseq xs ys \<Longrightarrow> sorted_wrt R xs"
proof (induction ys arbitrary: xs)
  case (Cons y ys)
  from Cons.prems(2) consider "xs = []" | "subseq xs ys" | xs' where "xs = y # xs'" "subseq xs' ys"
    by (cases rule: list_emb.cases) auto
  then show ?case
  proof cases
    case 3
    then have "set xs' \<subseteq> set ys" by (auto dest: list_emb_set)
    with Cons 3 show ?thesis by auto
  qed (use Cons in simp_all)
qed (auto elim: list_emb.cases)

lemma visited_series:
  assumes "distinct ks"
  shows "map snd (filter (\<lambda>(s', p). s' = s) (visited by_id ks)) = (if s \<in> set ks then series_of by_id s else [])"
  using assms
proof (induction ks)
  case (Cons k ks)
  have "filter (\<lambda>(s', p). s' = s) (map (Pair k) ps) = (if k = s then map (Pair k) ps else [])" for ps :: "point list"
    by (simp add: filter_map comp_def)
  with Cons show ?case by (auto simp: visited_def comp_def)
qed (simp add: visited_def)

definition group_ok :: "int64 \<Rightarrow> series_points \<Rightarrow> bool" where
  "group_ok e grp \<longleftrightarrow> (\<exists>sid. series_of grp sid \<noteq> [])
     \<and> fmpred (\<lambda>_ pts. time_sorted pts \<and> (\<forall>p \<in> set pts. TS p <s e)) grp
     \<and> (\<forall>sid. \<forall>p \<in> set (series_of grp sid). SeriesID p = sid)"

text \<open>The starts of the windows are distinct and not negative, so there are fewer than \<open>2 ^ 64\<close>.\<close>

lemma card_nonneg: "card {a :: int64. 0 \<le>s a} \<le> 2 ^ 63"
proof -
  have "sint ` {a :: int64. 0 \<le>s a} \<subseteq> {0..<2 ^ 63}"
    using sint_lt [where 'a = 64] by (auto simp: go_int)
  then have "card (sint ` {a :: int64. 0 \<le>s a}) \<le> card {0..<2 ^ 63 :: int}" by (intro card_mono) simp_all
  moreover have "card (sint ` {a :: int64. 0 \<le>s a}) = card {a :: int64. 0 \<le>s a}"
    by (intro card_image inj_onI) (simp add: signed_word_eqI)
  ultimately show ?thesis by simp
qed

lemma groups_count: "groups_ok m g \<Longrightarrow> length (grOrder g) \<le> 2 ^ 63"
proof -
  assume ok: "groups_ok m g"
  then have key: "snd k = fst k + window m \<and> 0 \<le>s fst k" if "k \<in> set (grOrder g)" for k
    using that by (cases k) (auto simp: groups_ok_def)
  then have "inj_on fst (set (grOrder g))" by (intro inj_onI) (simp add: prod_eq_iff)
  then have "length (grOrder g) = card (fst ` set (grOrder g))"
    using ok distinct_card [of "grOrder g"] by (simp only: groups_ok_def card_image)
  also have "\<dots> \<le> card {a :: int64. 0 \<le>s a}" using key by (intro card_mono) auto
  finally show ?thesis using card_nonneg by simp
qed

lemma groupByShard_any:
  assumes ord: "iterates ordS" and inv: "mgr_inv m" "0 <s shEnd (last (shards m))"
    and d: "dated m by_id" and srt: "\<And>sid. time_sorted (series_of by_id sid)"
    and own: "\<And>sid p. p \<in> set (series_of by_id sid) \<Longrightarrow> SeriesID p = sid"
    and g: "groupByShard ordS by_id m = (groups, m')"
  shows "mgr_inv m'" "window m' = window m" "shEnd (last (shards m)) \<le>s shEnd (last (shards m'))"
    "sh \<in> set (shards m') \<Longrightarrow> b \<in> set (shBlocks sh) \<Longrightarrow> \<exists>sh0 \<in> set (shards m). b \<in> set (shBlocks sh0)"
    "length groups \<le> 2 ^ 63" "grp \<in> set groups \<Longrightarrow> group_ok (shEnd (last (shards m'))) grp"
proof -
  let ?sps = "visited by_id (ordS by_id)"
  let ?g = "group_all ?sps (no_groups m)"
  have v: "visits (ordS by_id) by_id" by (rule iterates_visits [OF ord])
  have "\<forall>(sid, p) \<in> set ?sps. fits m (TS p)" using d by (auto simp: visited_def dated_def)
  from group_all_ok [OF inv this] have all: "windows_ok m ?g" "groups_ok m ?g"
      "\<And>k s. subseq (grouped ?g k s) (map snd (filter (\<lambda>(s', p). s' = s) ?sps))" by blast+
  have gr: "groups = map (group_at ?g) (grOrder ?g)" "m' = grShards ?g"
    using g by (simp_all add: groupByShard_visited Let_def)
  have e': "shEnd (last (shards m')) = shEnd (last_shard ?g)" by (simp add: gr(2) last_shard_def)
  show "mgr_inv m'" "window m' = window m" "shEnd (last (shards m)) \<le>s shEnd (last (shards m'))"
    "sh \<in> set (shards m') \<Longrightarrow> b \<in> set (shBlocks sh) \<Longrightarrow> \<exists>sh0 \<in> set (shards m). b \<in> set (shBlocks sh0)"
    using all(1) by (simp_all add: windows_ok_def gr(2) last_shard_def)
  show "length groups \<le> 2 ^ 63" using groups_count [OF all(2)] by (simp add: gr(1))
  show "group_ok (shEnd (last (shards m'))) grp" if "grp \<in> set groups"
  proof -
    from that obtain a e where key: "(a, e) \<in> set (grOrder ?g)" "grp = group_at ?g (a, e)" by (auto simp: gr(1))
    note k = groups_okD(2-5) [OF all(2) key(1)]
    have "time_sorted pts \<and> (\<forall>p \<in> set pts. TS p <s shEnd (last_shard ?g) \<and> SeriesID p = sid)"
      if l: "fmlookup grp sid = Some pts" for sid pts
    proof -
      have pts: "pts = grouped ?g (a, e) sid" using l key(2) by (simp add: grouped_def series_of_def)
      have "subseq pts (if sid \<in> set (ordS by_id) then series_of by_id sid else [])"
        using all(3) [of "(a, e)" sid] visited_series [OF visits_distinct [OF v], of sid by_id] pts by simp
      note sq = this
      have "time_sorted (if sid \<in> set (ordS by_id) then series_of by_id sid else [])"
        using srt [of sid] by (simp add: time_sorted_def)
      with sq have "time_sorted pts" unfolding time_sorted_def by (metis sorted_subseq)
      moreover have "SeriesID p = sid" if "p \<in> set pts" for p
        using list_emb_set [OF sq that] own [of p sid] by (auto split: if_splits)
      moreover have "TS p <s shEnd (last_shard ?g)" if "p \<in> set pts" for p
        using k(2) k(4) [of p sid] that pts by (simp add: go_int)
      ultimately show ?thesis by blast
    qed
    note each = this
    have "SeriesID p = sid" if "p \<in> set (series_of grp sid)" for p sid
      using that each [of sid] by (cases "fmlookup grp sid") (auto simp: series_of_def)
    with each k(3) show ?thesis by (auto simp: group_ok_def fmpred_iff grouped_def key(2) e')
  qed
qed

section \<open>Flushing any points\<close>

lemma flush_groups_moves:
  assumes ord: "iterates ordS" and "db_ok db" and "\<forall>grp \<in> set groups. group_ok (active_end db) grp"
    and "unat (sNextID (dbStore db)) + length groups < 2 ^ 64"
  shows "db_moves (length groups) db (snd (flush_groups ordS groups db))"
  using assms(2-4)
proof (induction groups arbitrary: db)
  case Nil
  then show ?case by (simp add: db_moves_refl)
next
  case (Cons grp groups)
  let ?bid = "sNextID (dbStore db) + 1" and ?m = "dbShards db"
  have fresh: "?bid \<noteq> 0" using Cons.prems(3) fresh_unat(1) [of "sNextID (dbStore db)"] by simp
  have inv: "mgr_inv ?m" using Cons.prems(1) by (simp add: db_ok_def)
  have grp: "fmpred (\<lambda>_ pts. time_sorted pts \<and> (\<forall>p \<in> set pts. TS p <s active_end db)) grp"
    using Cons.prems(2) by (simp add: group_ok_def)
  obtain sid where sid: "series_of grp sid \<noteq> []" using Cons.prems(2) by (auto simp: group_ok_def)
  obtain mn mx where mm: "groupMinMax ordS grp = (mn, mx)" by (rule prod.exhaust)
  have h: "headed mn mx grp"
    using groupMinMax_headed [OF ord sid _ mm] Cons.prems(2) by (simp add: group_ok_def)
  have below: "mn <s active_end db" by (rule headed_below [OF h]) (use grp in \<open>auto simp: fmpred_iff\<close>)
  obtain s1 where cr: "Create grp mn mx (dbStore db) = (?bid, s1)" by (simp add: Create_spec)
  let ?s = "on_block ?bid Block_Seal s1"
  let ?db = "db\<lparr>dbStore := ?s\<rparr>"
  have s: "store_ok (active_end db) ?s" "sNextID ?s = ?bid"
    using store_ok_Create [OF db_ok_store [OF Cons.prems(1)] fresh below grp h] cr
    by (simp_all add: store_ok_on_block) (auto simp: Create_spec)
  note made = db_moves_created [OF Cons.prems(1) s fresh, of "dbReg db"]
  show ?case
  proof (rule Route_below [OF inv below [unfolded active_end_def]])
    fix e
    assume "Route mn ?m = (Inl e, ?m)"
    then have "snd (flush_groups ordS (grp # groups) db) = ?db"
      using mm cr by (simp add: Let_def)
    with made(1) show ?thesis by (simp add: db_moves_mono)
  next
    assume r: "Route mn ?m = (Inr (length (shards ?m) - 1), ?m)"
    let ?db1 = "db\<lparr>dbStore := ?s, dbShards := on_shard (length (shards ?m) - 1) (AddBlock ?bid) ?m\<rparr>"
    have m1: "db_moves 1 db ?db1" using made(2) by simp
    have "active_end ?db1 = active_end db"
      using inv active_end_add by (simp add: active_end_def mgr_inv_def)
    then have "db_moves (length groups) ?db1 (snd (flush_groups ordS groups ?db1))"
      using Cons.prems m1 s(2) unat_succ [OF fresh] by (intro Cons.IH) (auto simp: db_moves_def)
    moreover have "flush_groups ordS (grp # groups) db = flush_groups ordS groups ?db1"
      using mm cr r by (simp add: Let_def)
    ultimately show ?thesis using db_moves_trans [OF m1] by simp
  qed
qed

lemma flushLocked_any:
  assumes ord: "iterates ordS" and ok: "db_ok (inDb inp)" and mem: "mem_inv (inMem inp)" and ix: "index_inv (inIdx inp)"
    and d: "dated (dbShards (inDb inp)) (byID (current (inMem inp)))"
    and room: "unat (sNextID (dbStore (inDb inp))) < 2 ^ 63" and len: "Len (inMem inp) \<noteq> 0"
    and f: "flushLocked ordS ordW s inp = (e, inp')"
  shows "pipeline_ok inp'"
proof -
  let ?db = "inDb inp" and ?by_id = "byID (current (inMem inp))"
  obtain groups m where g: "groupByShard ordS ?by_id (dbShards ?db) = (groups, m)" by (rule prod.exhaust)
  have inv: "mgr_inv (dbShards ?db)" "0 <s shEnd (last (shards (dbShards ?db)))"
    using ok by (simp_all add: db_ok_def active_end_def)
  note gr = groupByShard_any [OF ord inv d mem_inv_sorted [OF mem] mem_inv_own [OF mem] g]
  let ?db1 = "?db\<lparr>dbShards := m\<rparr>"
  have grow: "active_end ?db \<le>s active_end ?db1" using gr(3) by (simp add: active_end_def)
  have refs: "refs_ok ?db1" using ok gr(4) by (fastforce simp: db_ok_def refs_ok_def)
  have db1: "db_ok ?db1"
    using ok grow gr(1) refs by (auto simp: db_ok_def go_int intro: store_ok_mono [unfolded sle_iff])
  obtain e1 db2 where fg: "flush_groups ordS groups ?db1 = (e1, db2)" by (rule prod.exhaust)
  have "db_moves (length groups) ?db1 db2"
    using flush_groups_moves [OF ord db1, of groups] gr(5,6) room fg by (simp add: active_end_def)
  then have db2: "db_ok db2" by (rule db_moves_ok)
  have "inDb inp' = db2 \<or> (\<exists>n. inDb inp' = count_metric ''blocks_flushed'' n db2)"
    and m': "inMem inp' = snd (Flush (inMem inp))" "inIdx inp' = inIdx inp"
    using f len g fg by (auto simp: flushLocked_def Flush_def Let_def split: option.splits prod.splits)
  then have db': "db_ok (inDb inp')" using db2 by (auto simp: count_metric_def)
  have e: "byID (current (snd (Flush (inMem inp)))) = fmempty" by (simp add: Flush_def empty_snapshot_def)
  show ?thesis
    using db_ok_parts [OF db'] db' ix m' Flush_inv [of "inMem inp"]
    by (simp add: pipeline_ok_def ingest_inv_def e)
qed

section \<open>A flush that is refused\<close>

lemma group_all_refused:
  assumes "\<forall>(sid, p) \<in> set sps. TS p <s shStart (last (shards (grShards g)))"
  shows "group_all sps g = g"
  using assms
proof (induction sps)
  case (Cons sp sps)
  obtain sid p where sp: "sp = (sid, p)" by (rule prod.exhaust)
  have "group_point sid p g = g" using Cons.prems sp by (simp add: group_point_def Route_early)
  with Cons sp show ?case by (simp add: group_all_def)
qed (simp add: group_all_def)

text \<open>The first group is the window of the first point that is not refused.\<close>

definition first_holds :: "uint64 \<Rightarrow> point \<Rightarrow> grouping \<Rightarrow> bool" where
  "first_holds sid p g \<longleftrightarrow> grOrder g \<noteq> [] \<and> p \<in> set (grouped g (hd (grOrder g)) sid)"

lemma first_holds_step:
  assumes g: "first_holds sid p g" and ok: "mgr_inv (grShards g)" "fits (grShards g) (TS q)"
  shows "first_holds sid p (group_point s q g)"
  by (rule group_point_cases [OF ok, of s]) (use g in \<open>simp_all add: first_holds_def\<close>)

lemma first_holds_start:
  assumes inv: "mgr_inv m" and fits: "fits m (TS p)" and p: "recent m p"
  shows "first_holds sid p (group_point sid p (no_groups m))"
proof -
  have m: "mgr_inv (grShards (no_groups m))" "fits (grShards (no_groups m)) (TS p)"
    using inv fits by (simp_all add: no_groups_def)
  show ?thesis
  proof (rule group_point_cases [OF m, of sid])
    fix e
    assume e: "fst (Route (TS p) (grShards (no_groups m))) = Inl e"
    have ns: "\<not> TS p <s shStart (last (shards m))" using p by (simp add: recent_def go_int)
    show ?thesis by (rule Route_cases [OF inv, of "TS p"]) (use e ns in \<open>simp_all add: no_groups_def\<close>)
  qed (simp_all add: no_groups_def first_holds_def)
qed

lemma group_all_first:
  assumes inv: "mgr_inv m" "0 <s shEnd (last (shards m))" and fits: "\<forall>(sid, p) \<in> set (ys @ (sid, p) # zs). fits m (TS p)"
    and ys: "\<forall>(sid, p) \<in> set ys. \<not> recent m p" and p: "recent m p"
  shows "first_holds sid p (group_all (ys @ (sid, p) # zs) (no_groups m))"
  using fits
proof (induction zs rule: rev_induct)
  case Nil
  have "\<forall>(sid, p) \<in> set ys. TS p <s shStart (last (shards (grShards (no_groups m))))"
    using ys by (fastforce simp: no_groups_def recent_def go_int)
  from group_all_refused [OF this] show ?case
    using first_holds_start [OF inv(1) _ p] Nil by (simp add: group_all_snoc)
next
  case (snoc sp zs)
  obtain s q where sp: "sp = (s, q)" by (rule prod.exhaust)
  let ?g = "group_all (ys @ (sid, p) # zs) (no_groups m)"
  have w: "windows_ok m ?g" using group_all_ok [OF inv, of "ys @ (sid, p) # zs"] snoc.prems by auto
  have g: "group_all (ys @ (sid, p) # zs @ [sp]) (no_groups m) = group_point s q ?g"
    using group_all_snoc [of "ys @ (sid, p) # zs" s q] sp by simp
  show ?case
    unfolding g by (rule first_holds_step) (use snoc sp w in \<open>auto simp: windows_ok_def fits_def\<close>)
qed

text \<open>Once a point has been visited, the last window starts no earlier than the point's own window.\<close>

lemma last_window_start:
  assumes "windows_ok m g" and "TS q <s shEnd (last_shard g)"
  shows "aligned (window m) (TS q) \<le>s shStart (last_shard g)"
proof -
  have w: "0 < sint (window m)" and l: "sint (window m) dvd sint (shStart (last_shard g))"
      "sint (shEnd (last_shard g)) = sint (shStart (last_shard g)) + sint (window m)" "0 < sint (shEnd (last_shard g))"
    using assms(1) by (auto simp: windows_ok_def mgr_inv_def list_all_iff go_int window_ok_def last_shard_def)
  obtain k where k: "sint (shStart (last_shard g)) = sint (window m) * k" using l(1) by (auto elim: dvdE)
  let ?t = "trunc_int (sint (window m)) (sint (TS q))"
  obtain j where j: "?t = sint (window m) * j" using trunc_int_dvd [of "sint (window m)" "sint (TS q)"] w by (auto elim: dvdE)
  have "?t < sint (window m) * (k + 1)"
  proof (cases "0 \<le> sint (TS q)")
    case True
    then have "?t \<le> sint (TS q)" using bucket_start_nonneg [OF w True] w by (simp add: sint_bucket_start)
    then show ?thesis using assms(2) k l(2) by (simp add: go_int algebra_simps)
  next
    case False
    then have "?t \<le> trunc_int (sint (window m)) 0" using w by (intro trunc_int_mono) simp_all
    also have "\<dots> = 0" by (simp add: trunc_int_def)
    also have "0 < sint (window m) * (k + 1)" using l(2,3) k by (simp add: algebra_simps)
    finally show ?thesis .
  qed
  then have "j < k + 1" using j w by (simp add: mult_less_cancel_left_pos)
  then have "sint (window m) * j \<le> sint (window m) * k" using w by (simp add: mult_le_cancel_left_pos)
  then show ?thesis using j k w by (simp add: go_int aligned_def sint_bucket_start)
qed

text \<open>
  \<open>spread m L by_id\<close>: some point lies in the window that starts at \<open>L\<close> or later, and every series
  with such a point also has one between the start of the active window and \<open>L\<close>.
\<close>

definition spread :: "manager \<Rightarrow> int64 \<Rightarrow> series_points \<Rightarrow> bool" where
  "spread m L by_id \<longleftrightarrow> (\<exists>sid. \<exists>q \<in> set (series_of by_id sid). L = aligned (window m) (TS q))
     \<and> (\<forall>sid. \<forall>q \<in> set (series_of by_id sid). L \<le>s TS q \<longrightarrow>
          (\<exists>p \<in> set (series_of by_id sid). recent m p \<and> TS p <s L))"

lemma first_visited_before:
  assumes v: "visits ks by_id" and srt: "\<And>sid. time_sorted (series_of by_id sid)" and sp: "spread m L by_id"
    and dt: "0 <s window m" "\<forall>sid. \<forall>q \<in> set (series_of by_id sid). 0 \<le>s TS q"
  obtains ys sid p zs where "visited by_id ks = ys @ (sid, p) # zs" "\<forall>(s, q) \<in> set ys. \<not> recent m q"
    "recent m p" "TS p <s L"
proof -
  have mem: "(sid, p) \<in> set (visited by_id ks)" if "p \<in> set (series_of by_id sid)" for sid p
    using that visits_mem [OF v, of sid] by (force simp: visited_def series_of_def split: option.splits)
  obtain sq q where q: "q \<in> set (series_of by_id sq)" "L = aligned (window m) (TS q)" using sp by (auto simp: spread_def)
  have "L \<le>s TS q"
    using bucket_start_nonneg(2) [of "window m" "TS q"] q dt by (simp add: go_int aligned_def)
  with sp q(1) obtain p0 where p0: "p0 \<in> set (series_of by_id sq)" "recent m p0" unfolding spread_def by blast
  have "\<exists>x \<in> set (visited by_id ks). recent m (snd x)" using mem [OF p0(1)] p0(2) by force
  then obtain ys x zs where s: "visited by_id ks = ys @ x # zs" "recent m (snd x)" "\<forall>y \<in> set ys. \<not> recent m (snd y)"
    using split_list_first_prop [of "visited by_id ks" "\<lambda>x. recent m (snd x)"] by blast
  obtain sid p where x: "x = (sid, p)" by (rule prod.exhaust)
  have in_s: "p \<in> set (series_of by_id sid)" "sid \<in> set ks"
  proof -
    have "(sid, p) \<in> set (visited by_id ks)" by (simp add: s(1) x)
    then show "p \<in> set (series_of by_id sid)" "sid \<in> set ks" by (auto simp: visited_def)
  qed
  have "TS p <s L"
  proof (rule ccontr)
    assume "\<not> TS p <s L"
    then have "L \<le>s TS p" by (simp add: go_int)
    with sp in_s(1) obtain p' where p': "p' \<in> set (series_of by_id sid)" "recent m p'" "TS p' <s L"
      unfolding spread_def by blast
    let ?of = "\<lambda>sps. map snd (filter (\<lambda>(s', p). s' = sid) sps)"
    have "series_of by_id sid = ?of ys @ p # ?of zs"
      using visited_series [OF visits_distinct [OF v], of sid by_id] in_s(2) by (simp add: s(1) x)
    moreover have "p' \<notin> set (?of ys)" using s(3) p'(2) by auto
    moreover have "p' \<noteq> p" using p'(3) \<open>L \<le>s TS p\<close> by (auto simp: go_int)
    ultimately have "p' \<in> set (?of zs)" "time_sorted (?of ys @ p # ?of zs)" using p'(1) srt [of sid] by auto
    then have "TS p \<le>s TS p'" by (auto simp: time_sorted_def sorted_wrt_append)
    with p'(3) \<open>L \<le>s TS p\<close> show False by (simp add: go_int)
  qed
  with s x show ?thesis by (intro that [of ys sid p zs]) auto
qed

lemma flush_groups_refused:
  assumes ord: "iterates ordS" and inv: "mgr_inv m" "0 <s shEnd (last (shards m))" and d: "dated m by_id"
    and srt: "\<And>sid. time_sorted (series_of by_id sid)" and sp: "spread m L by_id"
    and g: "groupByShard ordS by_id m = (groups, m')"
  shows "\<exists>ts a db'. flush_groups ordS groups (db\<lparr>dbShards := m'\<rparr>) = (Some (ErrBeforeActive ts a), db')"
proof -
  let ?sps = "visited by_id (ordS by_id)"
  let ?g = "group_all ?sps (no_groups m)"
  have v: "visits (ordS by_id) by_id" by (rule iterates_visits [OF ord])
  have nn: "\<forall>sid. \<forall>q \<in> set (series_of by_id sid). 0 \<le>s TS q" using d by (simp add: dated_def fits_def)
  have w: "0 <s window m" using inv(1) by (simp add: mgr_inv_def)
  obtain ys sid p zs where s: "?sps = ys @ (sid, p) # zs" "\<forall>(s, q) \<in> set ys. \<not> recent m q" "recent m p" "TS p <s L"
    by (rule first_visited_before [OF v srt sp w nn])
  have fits: "\<forall>(sid, p) \<in> set ?sps. fits m (TS p)" using d by (auto simp: visited_def dated_def)
  note all = group_all_ok [OF inv fits]
  have first: "grOrder ?g \<noteq> []" "p \<in> set (grouped ?g (hd (grOrder ?g)) sid)"
    using group_all_first [OF inv fits [unfolded s(1)] s(2,3)] by (simp_all add: first_holds_def s(1))
  obtain sq q where q: "q \<in> set (series_of by_id sq)" "L = aligned (window m) (TS q)" using sp by (auto simp: spread_def)
  have "sq \<in> set (ordS by_id)"
    using q(1) visits_mem [OF v, of sq] by (force simp: series_of_def split: option.splits)
  then have "(sq, q) \<in> set ?sps" using q(1) by (auto simp: visited_def)
  then have "TS q <s shEnd (last_shard ?g)" using all by auto
  then have L: "L \<le>s shStart (last_shard ?g)" using last_window_start [of m ?g q] all q(2) by simp
  have gr: "groups = map (group_at ?g) (grOrder ?g)" "m' = grShards ?g"
    using g by (simp_all add: groupByShard_visited Let_def)
  let ?grp = "group_at ?g (hd (grOrder ?g))"
  have groups: "groups = ?grp # map (group_at ?g) (tl (grOrder ?g))"
    using first(1) by (cases "grOrder ?g") (simp_all add: gr(1))
  have p: "p \<in> set (series_of ?grp sid)" using first(2) by (simp add: grouped_def)
  then have "series_of ?grp sid \<noteq> []" by auto
  then obtain a b where mm: "groupMinMax ordS ?grp = (a, b)" "a \<le>s TS p"
    by (rule groupMinMax_spans [OF ord]) (use p in blast)
  have "a <s shStart (last (shards m'))" using mm(2) s(4) L by (simp add: gr(2) last_shard_def go_int)
  then have "Route a m' = (Inl (ErrBeforeActive a (shStart (last (shards m')))), m')" by (rule Route_early)
  moreover obtain bid s1 where "Create ?grp a b (dbStore db) = (bid, s1)" by (rule prod.exhaust)
  ultimately show ?thesis using mm(1) by (simp add: groups Let_def)
qed

end
