(* ===== verification/LogRecords.thy ===== *)
theory LogRecords
  imports IngestFlow
begin

text \<open>
  What a start can read from a directory, whatever state a crash, a failed write or another
  program left it in: \<open>readable_records\<close> are the records of the lines that pass the checksum.
  Opening the log adds none, and replaying it delivers no others.
\<close>

section \<open>Readable records\<close>

definition readable_records :: "disk \<Rightarrow> wal_record set" where
  "readable_records d = {decode_line l | l name bs. segment_file name \<and> fmlookup (files d) name = Some bs
     \<and> l \<in> set (fst (scan_lines bs)) \<and> verifyChecksum l}"

text \<open>Opening the log adds empty files at most.\<close>

definition adds_empty :: "disk \<Rightarrow> disk \<Rightarrow> bool" where
  "adds_empty d d' \<longleftrightarrow> (\<forall>name bs. fmlookup (files d') name = Some bs \<longrightarrow> bs = [] \<or> fmlookup (files d) name = Some bs)"

lemma adds_empty_files: "files d' = files d \<Longrightarrow> adds_empty d d'"
  by (simp add: adds_empty_def)

lemma adds_empty_trans: "adds_empty a b \<Longrightarrow> adds_empty b c \<Longrightarrow> adds_empty a c"
  unfolding adds_empty_def by metis

lemma scan_lines_empty [simp]: "scan_lines [] = ([], False)"
  by (subst scan_lines.simps) simp

lemma adds_empty_records: "adds_empty d d' \<Longrightarrow> readable_records d' \<subseteq> readable_records d"
  by (force simp: adds_empty_def readable_records_def)

definition segments_named :: "wal \<Rightarrow> bool" where
  "segments_named w \<longleftrightarrow> fmpred (\<lambda>_ seg. segment_file (sgName seg)) (segments w)"

lemma openSegment_adds:
  assumes "openSegment name d = (Inr seg, d')"
  shows "adds_empty d d'" "sgName seg = name"
  using openSegment_effect(1,2) [OF assms] by (auto simp: adds_empty_def split: if_splits)

lemma load_loop_adds:
  assumes "load_loop names w = (None, w')" and "\<forall>name \<in> set names. segment_file name" and "segments_named w"
  shows "adds_empty (wDisk w) (wDisk w') \<and> segments_named w'"
  using assms
proof (induction names arbitrary: w)
  case Nil
  then show ?case by (simp add: adds_empty_files)
next
  case (Cons name names)
  obtain idx seg d where o: "segmentIndex name = Inr idx" "openSegment name (wDisk w) = (Inr seg, d)"
    using Cons.prems(1) by (auto split: sum.splits prod.splits)
  let ?w = "w\<lparr>segments := fmupd idx seg (segments w), wDisk := d,
      nextSeq := (if nextSeq w \<le> sgLast seg then sgLast seg + 1 else nextSeq w)\<rparr>"
  have "adds_empty (wDisk ?w) (wDisk w') \<and> segments_named w'"
    using Cons.prems o openSegment_adds(2) [OF o(2)]
    by (intro Cons.IH) (auto simp: segments_named_def fmpred_iff split: if_splits)
  with openSegment_adds(1) [OF o(2)] adds_empty_trans show ?case by auto
qed

lemma loadCheckpoint_frame:
  assumes "loadCheckpoint w = (None, w')"
  shows "files (wDisk w') = files (wDisk w) \<and> segments w' = segments w"
proof -
  obtain e d where o: "os_open checkpointName (wDisk w) = (e, d)" by (rule prod.exhaust)
  obtain bs failed d1 where r: "os_read checkpointName d = ((bs, failed), d1)" by (metis prod.exhaust)
  have "files d = files (wDisk w)" "files d1 = files (wDisk w)"
    using os_open_files [OF o] os_read_files [OF r] by simp_all
  with assms o r show ?thesis by (auto simp: loadCheckpoint_def split: option.splits err.splits bool.splits)
qed

lemma Wal_Open_adds:
  assumes o: "Wal_Open ms d = (Inr w, d')"
  shows "adds_empty d (wDisk w)" "segments_named w"
proof -
  obtain d1 where o1: "os_call d = (None, d1)"
      "loadSegments \<lparr>segments = fmempty, nextSeq = 0, nextReplay = 0, maxSize = ms, wDisk = d1\<rparr> = (None, w)"
    using o by (auto simp: Wal_Open_def split: prod.splits option.splits)
  let ?w0 = "\<lparr>segments = fmempty, nextSeq = 0, nextReplay = 0, maxSize = ms, wDisk = d1\<rparr>"
  obtain entries d2 w1 w2 where o2: "os_read_dir d1 = (Inr entries, d2)"
      "load_loop (sort (filter segment_file entries)) (?w0\<lparr>wDisk := d2\<rparr>) = (None, w1)"
      "loadCheckpoint w1 = (None, w2)" "(if fmsize (segments w2) = 0 then rotate_log w2 else (None, w2)) = (None, w)"
    using o1(2) by (auto simp: loadSegments_def split: prod.splits sum.splits option.splits)
  have f2: "files d2 = files d" using os_read_dir_success [OF o2(1)] os_call_files [OF o1(1)] by simp
  have l: "adds_empty d2 (wDisk w1)" "segments_named w1"
    using load_loop_adds [OF o2(2)] by (simp_all add: segments_named_def)
  have c: "files (wDisk w2) = files (wDisk w1)" "segments w2 = segments w1"
    using loadCheckpoint_frame [OF o2(3)] by simp_all
  have "adds_empty (wDisk w2) (wDisk w) \<and> segments_named w"
  proof (cases "fmsize (segments w2) = 0")
    case True
    then have "segments w2 = fmempty" by (simp add: fmsize_0_iff)
    moreover have "top_index fmempty = 0" using top_index_mem [of fmempty] by auto
    ultimately obtain seg d3 where s: "openSegment (segment_name 1) (wDisk w2) = (Inr seg, d3)"
        "w = w2\<lparr>segments := fmupd 1 seg fmempty, wDisk := d3\<rparr>"
      using o2(4) True next_index [of 0] by (auto simp: rotate_log_def Let_def split: prod.splits sum.splits)
    then show ?thesis using openSegment_adds [OF s(1)]
      by (auto simp: segments_named_def segment_file_name fmpred_iff split: if_splits)
  next
    case False
    then show ?thesis using o2(4) l(2) c(2) by (simp add: adds_empty_files segments_named_def)
  qed
  moreover have "adds_empty d (wDisk w2)"
    using l(1) c(1) f2 by (metis adds_empty_def)
  ultimately show "adds_empty d (wDisk w)" "segments_named w" using adds_empty_trans by blast+
qed

lemma replay_loop_any:
  assumes "replay_loop from recover_record is (mem, reg) w = ((None, mem', reg'), w')" and "segments_named w"
  shows "\<exists>rs. mem' = fold write_record rs mem \<and> set rs \<subseteq> readable_records (wDisk w)"
  using assms
proof (induction "is" arbitrary: mem reg w)
  case Nil
  then show ?case by (intro exI [of _ "[]"]) simp
next
  case (Cons i is')
  show ?case
  proof (cases "fmlookup (segments w) i")
    case None
    then show ?thesis using Cons.IH [of mem reg w] Cons.prems by simp
  next
    case (Some seg)
    show ?thesis
    proof (cases "sgLast seg < from")
      case True
      then show ?thesis using Some Cons.IH [of mem reg w] Cons.prems by simp
    next
      case False
      obtain d where o: "os_open (sgName seg) (wDisk w) = (None, d)"
      proof -
        obtain e d where "os_open (sgName seg) (wDisk w) = (e, d)" by (rule prod.exhaust)
        with Cons.prems(1) Some False that show ?thesis by (cases e) simp_all
      qed
      obtain bs failed d1 where rd: "os_read (sgName seg) d = ((bs, failed), d1)" by (metis prod.exhaust)
      let ?w = "w\<lparr>wDisk := snd (os_call d1)\<rparr>"
      let ?rs = "filter (\<lambda>r. from \<le> rSeq r) (map decode_line (filter verifyChecksum (fst (scan_lines bs))))"
      obtain reg1 where dl: "deliver recover_record ?rs (mem, reg) = (None, fold write_record ?rs mem, reg1)"
        using deliver_recover by blast
      have step: "replay_loop from recover_record (i # is') (mem, reg) w =
          (case scanRecords bs from recover_record (mem, reg) of
             (Some e, s1) \<Rightarrow> ((Some e, s1), ?w)
           | (None, s1) \<Rightarrow> if failed then ((Some ErrIO, s1), ?w) else replay_loop from recover_record is' s1 ?w)"
        using Some False o rd by (simp add: Let_def)
      have "scanRecords bs from recover_record (mem, reg)
          = (if snd (scan_lines bs) then Some ErrTooLong else None, fold write_record ?rs mem, reg1)"
        using dl by (simp add: scanRecords_def scan_loop_deliver split_beta)
      note step [unfolded this]
      with Cons.prems(1) have ok: "\<not> snd (scan_lines bs)" "\<not> failed"
          "replay_loop from recover_record is' (fold write_record ?rs mem, reg1) ?w = ((None, mem', reg'), w')"
        by (simp_all split: if_splits)
      have fl: "files d = files (wDisk w)" "files (wDisk ?w) = files (wDisk w)"
        using os_open_files [OF o] os_read_files [OF rd] os_call_files [OF prod.collapse [symmetric], of d1] by simp_all
      obtain rs where rs: "mem' = fold write_record rs (fold write_record ?rs mem)" "set rs \<subseteq> readable_records (wDisk ?w)"
        using Cons.IH [OF ok(3)] Cons.prems(2) by (force simp: segments_named_def)
      have "bs = content (sgName seg) d" using os_read_content rd ok(2) by simp
      then have "bs = content (sgName seg) (wDisk w)" using fl(1) by (simp add: content_def)
      then have bs: "fmlookup (files (wDisk w)) (sgName seg) = Some bs \<or> bs = []"
        by (auto simp: content_def split: option.splits)
      have named: "segment_file (sgName seg)"
        using Cons.prems(2) Some by (simp add: segments_named_def fmpred_iff)
      have "r \<in> readable_records (wDisk w)" if "r \<in> set ?rs" for r
      proof -
        from that obtain l where l: "l \<in> set (fst (scan_lines bs))" "verifyChecksum l" "r = decode_line l"
          by (auto simp del: fold_simps)
        with bs have "fmlookup (files (wDisk w)) (sgName seg) = Some bs" by auto
        with l named show ?thesis unfolding readable_records_def by blast
      qed
      moreover have "readable_records (wDisk ?w) = readable_records (wDisk w)" using fl(2) by (simp add: readable_records_def)
      ultimately show ?thesis using rs by (intro exI [of _ "?rs @ rs"]) auto
    qed
  qed
qed

section \<open>Sequence numbers of a directory\<close>

lemma sgLast_readable:
  assumes "openSegment name d = (Inr seg, d')" and "segment_file name"
  shows "sgLast seg = 0 \<or> (\<exists>r \<in> readable_records d. sgLast seg = rSeq r)"
proof -
  let ?ls = "filter verifyChecksum (fst (scan_lines (content name d)))"
  have max: "fold max xs b \<in> insert b (set xs)" for xs :: "uint64 list" and b
    by (induction xs arbitrary: b) (auto simp: max_def split: if_splits)
  have "sgLast seg = fold max (map (\<lambda>l. rSeq (decode_line l)) ?ls) 0"
    using openSegment_effect(4) [OF assms(1)] by (simp add: scan_segment_last)
  with max have "sgLast seg \<in> insert 0 ((\<lambda>l. rSeq (decode_line l)) ` set ?ls)" by (metis list.set_map)
  moreover have "decode_line l \<in> readable_records d" if "l \<in> set ?ls" for l
  proof (cases "fmlookup (files d) name")
    case None
    with that show ?thesis by (simp add: content_def)
  next
    case (Some bs)
    with that assms(2) show ?thesis by (auto simp: content_def readable_records_def)
  qed
  ultimately show ?thesis by auto
qed

lemma load_loop_next:
  assumes "load_loop names w = (None, w')" and "\<forall>name \<in> set names. segment_file name"
    and "\<forall>r \<in> readable_records (wDisk w). rSeq r + 1 \<noteq> 0" and "nextSeq w \<noteq> 0 \<or> names \<noteq> []"
  shows "nextSeq w' \<noteq> 0"
  using assms
proof (induction names arbitrary: w)
  case (Cons name names)
  obtain idx seg d where o: "segmentIndex name = Inr idx" "openSegment name (wDisk w) = (Inr seg, d)"
    using Cons.prems(1) by (auto split: sum.splits prod.splits)
  let ?w = "w\<lparr>segments := fmupd idx seg (segments w), wDisk := d,
      nextSeq := (if nextSeq w \<le> sgLast seg then sgLast seg + 1 else nextSeq w)\<rparr>"
  have "sgLast seg + 1 \<noteq> 0"
    using sgLast_readable [OF o(2)] Cons.prems(2,3) by auto
  moreover have "nextSeq w \<noteq> 0" if "\<not> nextSeq w \<le> sgLast seg" using that by auto
  moreover have "readable_records d \<subseteq> readable_records (wDisk w)"
    by (rule adds_empty_records [OF openSegment_adds(1) [OF o(2)]])
  ultimately show ?case using Cons.prems o by (intro Cons.IH [of ?w]) auto
qed simp

lemma Wal_Open_unnumbered:
  assumes o: "Wal_Open ms d = (Inr w, d')" and z: "nextSeq w = 0" and nw: "\<forall>r \<in> readable_records d. rSeq r + 1 \<noteq> 0"
  shows "readable_records d = {}"
proof -
  obtain d1 where o1: "os_call d = (None, d1)"
      "loadSegments \<lparr>segments = fmempty, nextSeq = 0, nextReplay = 0, maxSize = ms, wDisk = d1\<rparr> = (None, w)"
    using o by (auto simp: Wal_Open_def split: prod.splits option.splits)
  let ?w0 = "\<lparr>segments = fmempty, nextSeq = 0, nextReplay = 0, maxSize = ms, wDisk = d1\<rparr>"
  obtain entries d2 w1 w2 where o2: "os_read_dir d1 = (Inr entries, d2)"
      "load_loop (sort (filter segment_file entries)) (?w0\<lparr>wDisk := d2\<rparr>) = (None, w1)"
      "loadCheckpoint w1 = (None, w2)" "(if fmsize (segments w2) = 0 then rotate_log w2 else (None, w2)) = (None, w)"
    using o1(2) by (auto simp: loadSegments_def split: prod.splits sum.splits option.splits)
  have f: "files d2 = files d" and e: "entries = sorted_list_of_fset (fmdom (files d))"
    using os_read_dir_success [OF o2(1)] os_call_files [OF o1(1)] by simp_all
  have "nextSeq w2 = nextSeq w1" "nextSeq w = nextSeq w2"
    using o2(3,4) rotate_log_counters [of w2]
    by (auto simp: loadCheckpoint_def split: prod.splits option.splits err.splits bool.splits if_splits)
  then have "nextSeq w1 = 0" using z by simp
  moreover have "readable_records d2 = readable_records d" using f by (simp add: readable_records_def)
  ultimately have "sort (filter segment_file entries) = []"
    using load_loop_next [OF o2(2)] nw by force
  then have none: "set (filter segment_file entries) = {}" by (metis set_sort set_empty)
  have "\<not> segment_file name" if "fmlookup (files d) name = Some bs" for name bs
  proof -
    from that have "name \<in> set entries" by (simp add: e fmlookup_dom_iff)
    with none show ?thesis by auto
  qed
  then show ?thesis by (auto simp: readable_records_def)
qed

text \<open>A log whose calls have succeeded holds no records but those appended to it.\<close>

lemma crash_records:
  assumes ok: "wal_ok w recs" and d: "files d = files (wDisk w)"
  shows "readable_records d \<subseteq> set (wal_entries w recs)"
proof
  fix r
  assume "r \<in> readable_records d"
  then obtain l name bs where r: "r = decode_line l" "segment_file name" "fmlookup (files d) name = Some bs"
      "l \<in> set (fst (scan_lines bs))" "verifyChecksum l"
    unfolding readable_records_def by blast
  obtain recs' m where dl: "disk_log d (fmdom' (segments w)) recs'"
      "concat (map recs' (key_order (segments w))) = take m (wal_entries w recs)"
    using crash_disk_log [OF ok d] by blast
  obtain i where i: "i \<in> fmdom' (segments w)" "name = segment_name i"
    using dl(1) r(2,3) by (auto simp: disk_log_def)
  have "scans_as bs (recs' i)" using dl(1) i r(3) by (auto simp: disk_log_def content_def)
  moreover have "l \<in> set (filter verifyChecksum (fst (scan_lines bs)))" using r(4,5) by simp
  ultimately have "l \<in> (\<lambda>r. appendChecksum (payload r)) ` set (recs' i)" by (auto simp: scans_as_def)
  then have "r \<in> set (recs' i)" using r(1) by (auto simp: decode_body)
  moreover have "i \<in> set (key_order (segments w))" using i(1) by (simp add: set_key_order)
  ultimately have "r \<in> set (take m (wal_entries w recs))" unfolding dl(2) [symmetric] by auto
  then show "r \<in> set (wal_entries w recs)" by (rule in_set_takeD)
qed

section \<open>The memtable that a replay builds\<close>

lemma last_value_found: "(\<exists>v. last_value rs sid ts = Some v) \<longleftrightarrow> (\<exists>r \<in> set rs. rSeriesID r = sid \<and> rTS r = ts)"
proof -
  have "find P (rev rs) \<noteq> None \<longleftrightarrow> (\<exists>r \<in> set rs. P r)" for P :: "wal_record \<Rightarrow> bool"
    by (auto simp: find_None_iff)
  from this [of "\<lambda>r. rSeriesID r = sid \<and> rTS r = ts"] show ?thesis by (simp add: last_value_def)
qed

lemma replayed_points:
  shows "mem_inv (fold write_record rs NewMem)"
    and "(\<exists>p \<in> set (series_of (byID (current (fold write_record rs NewMem))) sid). TS p = ts)
      \<longleftrightarrow> (\<exists>r \<in> set rs. rSeriesID r = sid \<and> rTS r = ts)"
proof -
  let ?mem = "fold write_record rs NewMem"
  have new: "mem_inv NewMem" "mem_value NewMem = (\<lambda>_ _. None)"
    by (simp_all add: mem_inv_def NewMem_def empty_snapshot_def series_ok_def span_ok_def mem_value_def fun_eq_iff)
  have r: "mem_inv ?mem" "mem_value ?mem sid ts = last_value rs sid ts"
    using replayed_memtable [OF new(1), of rs] new(2) by (simp_all split: option.split)
  then show "mem_inv ?mem" by simp
  have "(\<exists>p \<in> set (series_of (byID (current ?mem)) sid). TS p = ts) \<longleftrightarrow> (\<exists>v. mem_value ?mem sid ts = Some v)"
  proof
    assume "\<exists>v. mem_value ?mem sid ts = Some v"
    then obtain v where "mem_value ?mem sid ts = Some v" ..
    then have "\<lparr>TS = ts, Value = v, SeriesID = sid\<rparr> \<in> set (series_of (byID (current ?mem)) sid)"
      using mem_member [OF r(1)] by simp
    then show "\<exists>p \<in> set (series_of (byID (current ?mem)) sid). TS p = ts" by (intro bexI) simp_all
  qed (use mem_member [OF r(1)] in auto)
  with r(2) last_value_found show "(\<exists>p \<in> set (series_of (byID (current ?mem)) sid). TS p = ts)
      \<longleftrightarrow> (\<exists>r \<in> set rs. rSeriesID r = sid \<and> rTS r = ts)" by simp
qed

text \<open>A log that replays a record has numbered it, so an opened log knows its next number.\<close>

lemma reopened_numbered:
  assumes ok: "wal_ok w0 recs" "all_synced w0" and o: "Wal_Open ms (wDisk w0) = (Inr w, d')" "faults (wDisk w) = []"
    and unnumbered: "\<forall>r \<in> set (wal_entries w0 recs). rSeq r + 1 \<noteq> 0"
    and found: "found (nextReplay w) (wal_entries w recs) \<noteq> []"
  shows "nextSeq w \<noteq> 0"
proof
  assume "nextSeq w = 0"
  with Wal_Open_unnumbered [OF o(1)] crash_records [OF ok(1) refl] unnumbered
  have "readable_records (wDisk w0) = {}" by blast
  then have none: "readable_records (wDisk w) = {}"
    using adds_empty_records [OF Wal_Open_adds(1) [OF o(1)]] by blast
  let ?rs = "found (nextReplay w) (wal_entries w recs)"
  note rd = synced_readable [OF Wal_Open_synced(1,2) [OF ok refl o(1)]]
  obtain reg w' where rp: "Replay (nextReplay w) recover_record (NewMem, NewRegistry) w = ((None, fold write_record ?rs NewMem, reg), w')"
    using Replay_readable [OF rd o(2), of "nextReplay w" recover_record "(NewMem, NewRegistry)"]
      deliver_recover [of ?rs NewMem NewRegistry] by (metis prod.collapse)
  have "fold write_record ?rs NewMem = NewMem"
    using replay_loop_any [OF rp [unfolded Replay_def] Wal_Open_adds(2) [OF o(1)]] none by auto
  moreover obtain r where "r \<in> set ?rs" using found by (cases ?rs) auto
  ultimately show False
    using replayed_points(2) [of ?rs "rSeriesID r" "rTS r"] by (auto simp: NewMem_def empty_snapshot_def series_of_def)
qed

end
