(* ===== verification/ServerFlow.thy ===== *)
theory ServerFlow
  imports Server Grouping LogRecords
begin

text \<open>
  The process as a whole: every handler, every tick, the self check and the start keep
  \<open>server_ok\<close>, so it holds in every state a run reaches (\<open>server_run\<close>).
\<close>

section \<open>The server\<close>

definition server_ok :: "server \<Rightarrow> bool" where
  "server_ok sv \<longleftrightarrow> pipeline_ok (svIngest sv)"

definition choices_ok :: "choices \<Rightarrow> bool" where
  "choices_ok ch \<longleftrightarrow> iterates (chSeries ch) \<and> iterates (chBlocks ch) \<and> (\<forall>ix. visits_all (chIndex ch ix) ix)"

lemma pipeline_ok_gauge [simp]: "pipeline_ok (set_gauge name v inp) = pipeline_ok inp"
proof -
  have "db_inv (db\<lparr>dbReg := reg\<rparr>) = db_inv db" "refs_ok (db\<lparr>dbReg := reg\<rparr>) = refs_ok db" for db reg
    by (simp_all add: db_inv_def refs_ok_def)
  then show ?thesis by (simp add: pipeline_ok_def ingest_inv_def set_gauge_def)
qed

text \<open>The timestamps a write request carries.\<close>

definition stamps :: "choices \<Rightarrow> request \<Rightarrow> int64 list" where
  "stamps ch r =
     (if rqContentType r = ''application/json''
      then (case chDecode ch (rqBody r) of None \<Rightarrow> [] | Some batch \<Rightarrow> map bpTS batch)
      else (case parse_int (query_get r ''ts'') of None \<Rightarrow> [] | Some ts \<Rightarrow> [word_of_int ts]))"

text \<open>
  What the guarantees ask of the surroundings: timestamps that are not negative and leave a
  window's length below \<open>2 ^ 63\<close>, a next window that ends below \<open>2 ^ 63\<close>, and ids that do not run over.
\<close>

definition in_bounds :: "nat \<Rightarrow> server \<Rightarrow> bool" where
  "in_bounds n sv \<longleftrightarrow> headroom (n + fmsize (blocks (dbStore (inDb (svIngest sv)))) + 1) (svIngest sv)
     \<and> sint (active_end (inDb (svIngest sv))) + sint (window (dbShards (inDb (svIngest sv)))) < 2 ^ 63"

definition admissible :: "choices \<Rightarrow> request \<Rightarrow> server \<Rightarrow> bool" where
  "admissible ch r sv \<longleftrightarrow> (\<forall>ts \<in> set (stamps ch r). fits (dbShards (inDb (svIngest sv))) ts)
     \<and> in_bounds (length (stamps ch r)) sv"

lemma server_ok_db:
  "server_ok sv \<Longrightarrow> db_moves n (inDb (svIngest sv)) db \<Longrightarrow> server_ok (with_db db sv)"
  by (simp add: server_ok_def with_db_def pipeline_ok_db)

text \<open>A step that only the database takes part in.\<close>

definition db_only :: "server \<Rightarrow> server \<Rightarrow> bool" where
  "db_only sv sv' \<longleftrightarrow> (\<exists>n db. sv' = with_db db sv \<and> db_moves n (inDb (svIngest sv)) db)"

lemma db_onlyI: "db_moves n (inDb (svIngest sv)) db \<Longrightarrow> sv' = with_db db sv \<Longrightarrow> db_only sv sv'"
  by (auto simp: db_only_def)

lemma db_only_ok: "server_ok sv \<Longrightarrow> db_only sv sv' \<Longrightarrow> server_ok sv'"
  by (auto simp: db_only_def server_ok_db)

lemma db_only_refl: "server_ok sv \<Longrightarrow> db_only sv sv"
  by (rule db_onlyI [of 0, OF db_moves_refl]) (simp_all add: server_ok_def pipeline_ok_def with_db_def)

lemma db_only_store:
  assumes "server_ok sv" and "store_ok (active_end (inDb (svIngest sv))) s"
    and "sNextID s = sNextID (dbStore (inDb (svIngest sv)))"
  shows "db_only sv (with_store s sv)"
proof -
  have "db_moves 0 (inDb (svIngest sv)) ((inDb (svIngest sv))\<lparr>dbStore := s\<rparr>)"
    using assms by (intro db_moves_same_store) (simp_all add: server_ok_def pipeline_ok_def)
  from db_onlyI [OF this] show ?thesis by (simp add: with_db_def with_store_def)
qed

lemma server_db: "server_ok sv \<Longrightarrow> db_ok (inDb (svIngest sv))"
  by (simp add: server_ok_def pipeline_ok_def)

lemma headroom_mono: "headroom m inp \<Longrightarrow> n \<le> m \<Longrightarrow> headroom n inp"
  by (simp add: headroom_def)

text \<open>A write request changes nothing, appends a batch, or appends one sample.\<close>

lemma handleWrite_cases:
  obtains (no) "snd (handleWrite ch r sv) = sv"
    | (batch) b where "chDecode ch (rqBody r) = Some b" "stamps ch r = map bpTS b"
        "snd (handleWrite ch r sv)
          = sv\<lparr>svIngest := snd (AppendBatch (chLabels ch) (chSeries ch) (chSegments ch) b (svIngest sv))\<rparr>"
    | (one) ts val where "stamps ch r = [word_of_int ts]"
        "snd (handleWrite ch r sv) = sv\<lparr>svIngest := snd (Ingest_Append (chLabels ch) (chSeries ch) (chSegments ch)
          (query_get r ''name'') (parseLabels (query_get r ''labels'')) (word_of_int ts) val (svIngest sv))\<rparr>"
proof (cases "rqMethod r \<noteq> ''POST''")
  case True
  with that(1) show ?thesis by (simp add: handleWrite_def)
next
  case post: False
  show ?thesis
  proof (cases "rqContentType r = ''application/json''")
    case True
    show ?thesis
    proof (cases "chDecode ch (rqBody r)")
      case None
      with True post that(1) show ?thesis by (simp add: handleWrite_def)
    next
      case (Some b)
      obtain e inp where "AppendBatch (chLabels ch) (chSeries ch) (chSegments ch) b (svIngest sv) = (e, inp)"
        by (rule prod.exhaust)
      with Some True post show ?thesis
        by (intro that(2) [of b]) (simp_all add: handleWrite_def stamps_def split: option.splits)
    qed
  next
    case plain: False
    show ?thesis
    proof (cases "parse_int (query_get r ''ts'')")
      case None
      with plain post that(1) show ?thesis by (simp add: handleWrite_def)
    next
      case ts: (Some ts)
      show ?thesis
      proof (cases "chParseFloat ch (query_get r ''value'')")
        case None
        with ts plain post that(1) show ?thesis by (simp add: handleWrite_def)
      next
        case (Some v)
        obtain e inp where "Ingest_Append (chLabels ch) (chSeries ch) (chSegments ch) (query_get r ''name'')
            (parseLabels (query_get r ''labels'')) (word_of_int ts) v (svIngest sv) = (e, inp)" by (rule prod.exhaust)
        with Some ts plain post show ?thesis
          by (intro that(3) [of ts v]) (simp_all add: handleWrite_def stamps_def split: option.splits)
      qed
    qed
  qed
qed

lemma handleWrite_ok:
  assumes ch: "choices_ok ch" and ok: "server_ok sv" and adm: "admissible ch r sv"
  shows "server_ok (snd (handleWrite ch r sv))"
proof -
  have ord: "iterates (chSeries ch)" using ch by (simp add: choices_ok_def)
  have hr: "headroom (Suc (length (stamps ch r))) (svIngest sv)"
    using adm by (auto simp: admissible_def in_bounds_def intro: headroom_mono)
  show ?thesis
  proof (cases rule: handleWrite_cases [of ch r sv])
    case no
    with ok show ?thesis by simp
  next
    case (batch b)
    have "pipeline_moves (length b) (svIngest sv) (snd (AppendBatch (chLabels ch) (chSeries ch) (chSegments ch) b (svIngest sv)))"
      using ok adm hr batch(2) by (intro AppendBatch_moves ord) (auto simp: server_ok_def admissible_def)
    from pipeline_moves_ok [OF this] show ?thesis by (simp add: batch(3) server_ok_def)
  next
    case (one ts val)
    have "fits (dbShards (inDb (svIngest sv))) (word_of_int ts)" using adm one(1) by (simp add: admissible_def)
    from pipeline_moves_ok [OF Append_moves [OF ord _ hr this]] ok show ?thesis
      by (simp add: one(2) server_ok_def)
  qed
qed

lemma handleQuery_moves:
  assumes "server_ok sv"
  shows "db_only sv (snd (handleQuery ch r sv))"
proof -
  let ?db = "inDb (svIngest sv)"
  note st = db_ok_store [OF server_db [OF assms]]
  have "snd (handleQuery ch r sv) = sv \<or>
      (\<exists>s. snd (handleQuery ch r sv) = with_store s sv \<and> store_ok (active_end ?db) s \<and> sNextID s = sNextID (dbStore ?db))"
    using QueryRange_ok [OF st] QueryMulti_ok [OF st]
    by (auto simp: handleQuery_def Let_def split: option.splits sum.splits prod.splits) (metis snd_conv)+
  with assms db_only_store db_only_refl show ?thesis by metis
qed

lemma handleExpand_index:
  assumes "choices_ok ch" and "server_ok sv"
  obtains (that_ix) ix where "index_inv ix" "snd (handleExpand ch r sv) = sv\<lparr>svIngest := (svIngest sv)\<lparr>inIdx := ix\<rparr>\<rparr>"
proof -
  let ?ix = "inIdx (svIngest sv)"
  have ix: "index_inv ?ix" using assms(2) by (simp add: server_ok_def pipeline_ok_def ingest_inv_def)
  have ex: "index_inv ix'" if "Expand (chIndex ch ?ix) n ?ix = Inr ix'" for n ix'
  proof -
    from that have "int (length (buckets ?ix)) < n" by (auto simp: Expand_def split: if_splits)
    from Expand_spec [OF ix _ this, of "chIndex ch ?ix"] assms(1) that show ?thesis by (auto simp: choices_ok_def)
  qed
  have same: thesis if "snd (handleExpand ch r sv) = sv"
    using that ix by (intro that_ix [of ?ix]) simp_all
  show ?thesis
  proof (cases "parse_int (query_get r ''buckets'')")
    case None
    then show ?thesis by (intro same) (simp add: handleExpand_def)
  next
    case (Some n)
    show ?thesis
    proof (cases "0 < n \<and> (\<exists>ix'. Expand (chIndex ch ?ix) n ?ix = Inr ix')")
      case True
      then obtain ix' where "Expand (chIndex ch ?ix) n ?ix = Inr ix'" "\<not> n \<le> 0" by auto
      with Some ex show ?thesis by (intro that_ix [of ix']) (simp_all add: handleExpand_def)
    next
      case False
      with Some show ?thesis
        by (intro same) (cases "Expand (chIndex ch ?ix) n ?ix"; simp add: handleExpand_def not_less)
    qed
  qed
qed

lemma compact_pass_moves:
  assumes ch: "choices_ok ch" and ok: "server_ok sv" and b: "in_bounds n sv"
  shows "db_only sv (snd (compact_pass ch sv))"
proof -
  let ?db = "inDb (svIngest sv)"
  have len: "length (jobs_of ch (dbStore ?db)) = fmsize (blocks (dbStore ?db))"
    using ch visits_length [OF iterates_visits [of "chBlocks ch"]]
    by (simp add: jobs_of_def store_List_def choices_ok_def)
  have m: "db_moves (length (jobs_of ch (dbStore ?db))) ?db (snd (compact_loop (svDownsample sv) (jobs_of ch (dbStore ?db)) 0 ?db))"
  proof (rule compact_loop_moves [OF _ server_db [OF ok]])
    show "\<forall>(bid, ordS, ordB) \<in> set (jobs_of ch (dbStore ?db)). iterates ordS \<and> iterates ordB"
      using ch by (auto simp: jobs_of_def choices_ok_def)
    show "unat (sNextID (dbStore ?db)) + length (jobs_of ch (dbStore ?db)) < 2 ^ 64"
      unfolding len using b by (simp add: in_bounds_def headroom_def)
  qed
  from db_onlyI [OF m] show ?thesis
    by (auto simp: compact_pass_def CompactAll_def split: prod.splits)
qed

lemma sweep_pass_moves:
  assumes ch: "choices_ok ch" and ok: "server_ok sv"
  shows "db_only sv (snd (sweep_pass ch now sv))"
  using db_onlyI [OF Sweep_moves [OF _ server_db [OF ok]]] ch
  by (auto simp: sweep_pass_def choices_ok_def Let_def split: prod.splits)

lemma with_store_same:
  "with_store (dbStore (inDb (svIngest sv))) sv = sv"
  by (simp add: with_store_def)

lemma handleAdminCompact_moves:
  assumes "choices_ok ch" and "server_ok sv" and "in_bounds n sv"
  shows "db_only sv (snd (handleAdminCompact ch sv))"
  using compact_pass_moves [OF assms]
  by (auto simp: handleAdminCompact_def Eligible_spec with_store_same Let_def split: prod.splits option.splits)

lemma handleAdminRotate_moves:
  assumes "server_ok sv" and "in_bounds n sv"
  shows "db_only sv (snd (handleAdminRotate sv))"
  using db_onlyI [OF ForceRotate_moves [OF server_db [OF assms(1)]]] assms(2)
  by (auto simp: handleAdminRotate_def in_bounds_def Let_def split: prod.splits)

text \<open>A request is a write, replaces the series table, or concerns the database only.\<close>

lemma serve_cases:
  assumes ch: "choices_ok ch" and ok: "server_ok sv" and adm: "admissible ch r sv"
  obtains (sample) "snd (serve ch now r sv) = snd (handleWrite ch r sv)"
    | (index) ix where "index_inv ix" "snd (serve ch now r sv) = sv\<lparr>svIngest := (svIngest sv)\<lparr>inIdx := ix\<rparr>\<rparr>"
    | (database) "db_only sv (snd (serve ch now r sv))"
proof -
  have b: "in_bounds (length (stamps ch r)) sv" using adm by (simp add: admissible_def)
  have "db_only sv (snd (handleAdminSweep ch now sv))"
    using sweep_pass_moves [OF ch ok, of now] by (auto simp: handleAdminSweep_def split: prod.splits)
  note moves = this db_only_refl [OF ok] handleQuery_moves [OF ok] handleAdminCompact_moves [OF ch ok b]
    handleAdminRotate_moves [OF ok b]
  obtain ix where ix: "index_inv ix" "snd (handleExpand ch r sv) = sv\<lparr>svIngest := (svIngest sv)\<lparr>inIdx := ix\<rparr>\<rparr>"
    by (rule handleExpand_index [OF ch ok])
  consider "rqPath r = ''/api/write''" | "rqPath r = ''/api/admin/expand''"
    | "rqPath r \<noteq> ''/api/write''" "rqPath r \<noteq> ''/api/admin/expand''" by blast
  then show ?thesis
  proof cases
    case 1
    then show ?thesis by (intro sample) (simp add: serve_def)
  next
    case 2
    with ix show ?thesis by (intro index) (simp_all add: serve_def)
  next
    case 3
    then show ?thesis using moves by (intro database) (simp add: serve_def)
  qed
qed

lemma serve_ok:
  assumes ch: "choices_ok ch" and ok: "server_ok sv" and adm: "admissible ch r sv"
  shows "server_ok (snd (serve ch now r sv))"
  by (rule serve_cases [OF assms, of now])
    (use ok handleWrite_ok [OF assms] db_only_ok in \<open>auto simp: server_ok_def pipeline_ok_index\<close>)

lemma in_bounds_room: "in_bounds n sv \<Longrightarrow> room (svIngest sv)"
  by (rule headroom_room [of 0]) (auto simp: in_bounds_def intro: headroom_mono)

lemma flush_tick_ok:
  assumes ch: "choices_ok ch" and ok: "server_ok sv" and b: "in_bounds n sv" and t: "flush_tick ch sv = Inr (es, sv')"
  shows "server_ok sv'"
proof -
  obtain e inp where f: "Ingest_Flush (chSeries ch) (chSegments ch) (svIngest sv) = (e, inp)" by (rule prod.exhaust)
  have "pipeline_ok inp"
    using ch ok in_bounds_room [OF b]
    by (intro pipeline_moves_ok [OF Flush_moves [OF _ _ _ f]]) (simp_all add: choices_ok_def server_ok_def room_def)
  with f t show ?thesis by (auto simp: flush_tick_def server_ok_def Let_def split: prod.splits if_splits)
qed

lemma compact_tick_moves:
  assumes "choices_ok ch" and "server_ok sv" and "in_bounds n sv"
  shows "db_only sv (snd (compact_tick ch sv))"
  using compact_pass_moves [OF assms] by (auto simp: compact_tick_def split: prod.splits)

lemma sweep_tick_moves:
  assumes ch: "choices_ok ch" and ok: "server_ok sv"
  shows "db_only sv (sweep_tick ch now sv)"
proof -
  obtain res sv1 where s: "sweep_pass ch now sv = (res, sv1)" by (rule prod.exhaust)
  with sweep_pass_moves [OF ch ok, of now] obtain n db where m: "sv1 = with_db db sv" "db_moves n (inDb (svIngest sv)) db"
    by (auto simp: db_only_def)
  have "db_moves n (inDb (svIngest sv)) (db\<lparr>dbReg := reg\<rparr>)" for reg
    using m(2) by (subst db_moves_cong(1)) simp_all
  from db_onlyI [OF this] s m(1) show ?thesis by (simp add: sweep_tick_def Let_def with_db_def)
qed

text \<open>The sample that the self check writes; after it the check only reads.\<close>

definition checked :: "choices \<Rightarrow> int64 \<Rightarrow> server \<Rightarrow> server" where
  "checked ch now sv = sv\<lparr>svIngest := snd (Ingest_Append (chLabels ch) (chSeries ch) (chSegments ch) ''selfcheck''
     (fmupd ''check'' ''1'' fmempty) now 0x4045000000000000 (svIngest sv))\<rparr>"

lemma selfCheck_moves:
  assumes ok: "server_ok (checked ch now sv)" and c: "selfCheck ch now sv = Inr (r, sv')"
  shows "db_only (checked ch now sv) sv'"
proof -
  let ?labels = "fmupd ''check'' ''1'' fmempty" and ?sv = "checked ch now sv"
  obtain e inp where a: "Ingest_Append (chLabels ch) (chSeries ch) (chSegments ch) ''selfcheck'' ?labels now
      0x4045000000000000 (svIngest sv) = (e, inp)" by (rule prod.exhaust)
  then have sv: "?sv = sv\<lparr>svIngest := inp\<rparr>" by (simp add: checked_def)
  note st = db_ok_store [OF server_db [OF ok]]
  have "sv' = ?sv \<or> (\<exists>s. sv' = with_store s ?sv
      \<and> store_ok (active_end (inDb inp)) s \<and> sNextID s = sNextID (dbStore (inDb inp)))"
    using c QueryRange_ok [OF st]
    by (auto simp: selfCheck_def a sv Let_def split: option.splits sum.splits prod.splits if_splits) (metis snd_conv)+
  with ok sv db_only_store [OF ok] db_only_refl show ?thesis by auto
qed

lemma selfCheck_ok:
  assumes ch: "choices_ok ch" and ok: "server_ok sv" and b: "in_bounds n sv"
    and fits: "fits (dbShards (inDb (svIngest sv))) now" and c: "selfCheck ch now sv = Inr (r, sv')"
  shows "server_ok sv'"
proof -
  have ord: "iterates (chSeries ch)" using ch by (simp add: choices_ok_def)
  have hr: "headroom (Suc 0) (svIngest sv)" using b by (auto simp: in_bounds_def intro: headroom_mono)
  have "server_ok (checked ch now sv)"
    using pipeline_moves_ok [OF Append_moves [OF ord _ hr fits]] ok by (simp add: server_ok_def checked_def)
  from db_only_ok [OF this selfCheck_moves [OF this c]] show ?thesis .
qed

section \<open>Start-up and runs\<close>

text \<open>The log a start finds: readable, on a disk without faults, and holding no record beyond the first window.\<close>

definition good_log :: "config \<Rightarrow> int64 \<Rightarrow> disk \<Rightarrow> (int \<Rightarrow> wal_record list) \<Rightarrow> bool" where
  "good_log cf now d recs \<longleftrightarrow> faults d = []
     \<and> (\<forall>w d'. Wal_Open (push_bit 20 64) d = (Inr w, d') \<longrightarrow>
          log_readable w recs \<and> faults (wDisk w) = []
          \<and> (\<forall>r \<in> set (found (nextReplay w) (wal_entries w recs)). rTS r <s aligned (cfWindow cf) now + cfWindow cf))"

lemma start_ok:
  assumes "NewManager win now = Inr m" and "sint now + sint win < 2 ^ 63" and "0 \<le>s now"
  shows "pipeline_ok \<lparr>inIdx = NewIndex n, inWal = w, inMem = NewMem,
      inDb = \<lparr>dbStore = NewStore, dbShards = m, dbReg = NewRegistry\<rparr>, flushThreshold = k, lastFlushSeq = 0\<rparr>"
    and "shEnd (last (shards m)) = aligned win now + win"
proof -
  have m: "m = \<lparr>window = win, shards = [new_shard 1 (aligned win now) win], mNextID = 2\<rparr>"
    using assms(1) by (auto simp: NewManager_def split: if_splits)
  show e: "shEnd (last (shards m)) = aligned win now + win" by (simp add: m new_shard_def)
  have inv: "mgr_inv m" "covers (last (shards m)) now" by (rule NewManager_inv [OF assms])+
  have pos: "0 <s shEnd (last (shards m))" using inv(2) assms(3) by (simp add: covers_def go_int)
  have s: "store_ok e NewStore" for e
    using NewStore_inv by (simp add: store_ok_def blocks_sorted_def store_below_def store_typed_def NewStore_def)
  have refs: "refs_ok \<lparr>dbStore = NewStore, dbShards = m, dbReg = NewRegistry\<rparr>" by (simp add: refs_ok_def m new_shard_def)
  have db: "db_ok \<lparr>dbStore = NewStore, dbShards = m, dbReg = NewRegistry\<rparr>"
    using inv(1) refs pos s by (simp add: db_ok_def active_end_def)
  have mem: "mem_inv NewMem" "byID (current NewMem) = fmempty"
    by (simp_all add: mem_inv_def NewMem_def empty_snapshot_def series_ok_def span_ok_def)
  show "pipeline_ok \<lparr>inIdx = NewIndex n, inWal = w, inMem = NewMem,
      inDb = \<lparr>dbStore = NewStore, dbShards = m, dbReg = NewRegistry\<rparr>, flushThreshold = k, lastFlushSeq = 0\<rparr>"
    using db db_ok_parts [OF db] mem NewIndex_inv by (simp add: pipeline_ok_def ingest_inv_def)
qed

text \<open>
  A directory in any state: every record in it that can be read is dated in the range the
  windows cover, and numbered below the last number.
\<close>

definition log_dated :: "config \<Rightarrow> disk \<Rightarrow> bool" where
  "log_dated cf d \<longleftrightarrow> (\<forall>r \<in> readable_records d.
     0 \<le>s rTS r \<and> sint (rTS r) + sint (cfWindow cf) < 2 ^ 63 \<and> rSeq r + 1 \<noteq> 0)"

lemma log_dated_empty [simp]: "log_dated cf \<lparr>files = fmempty, faults = fs\<rparr>"
  by (simp add: log_dated_def readable_records_def)

lemma replayed_dated:
  assumes "\<forall>r \<in> set rs. fits m (rTS r)"
  shows "dated m (byID (current (fold write_record rs NewMem)))" and "mem_inv (fold write_record rs NewMem)"
  using assms replayed_points [of rs] by (auto simp: dated_def) metis

lemma Recover_any:
  assumes ord: "iterates ordS" and ok: "pipeline_ok inp" and new: "inMem inp = NewMem" "sNextID (dbStore (inDb inp)) = 0"
    and log: "segments_named (inWal inp)" "\<forall>r \<in> readable_records (wDisk (inWal inp)). fits (dbShards (inDb inp)) (rTS r)"
    and unnumbered: "nextSeq (inWal inp) = 0 \<Longrightarrow> readable_records (wDisk (inWal inp)) = {}"
    and rc: "Recover ordS ordW inp = (None, inp')"
  shows "pipeline_ok inp'"
proof -
  let ?m = "dbShards (inDb inp)"
  obtain e mem reg w where rp: "ReplayUnflushed recover_record (inMem inp, dbReg (inDb inp)) (inWal inp) = ((e, mem, reg), w)"
    by (metis prod.exhaust)
  have none: "e = None" using rc rp by (cases e) (simp_all add: Recover_def Let_def)
  obtain rs where rs: "mem = fold write_record rs NewMem" "set rs \<subseteq> readable_records (wDisk (inWal inp))"
    using replay_loop_any [OF _ log(1)] rp new(1) none by (metis ReplayUnflushed_def Replay_def)
  have w: "nextSeq w = nextSeq (inWal inp)"
    using rp Replay_counters(1) [of "nextReplay (inWal inp)" recover_record "(inMem inp, dbReg (inDb inp))" "inWal inp"]
    by (simp add: ReplayUnflushed_def)
  have d: "dated ?m (byID (current mem))" "mem_inv mem"
    using replayed_dated [of rs ?m] rs log(2) by auto
  let ?inp = "inp\<lparr>inMem := mem, inDb := (inDb inp)\<lparr>dbReg := reg\<rparr>, inWal := w\<rparr>"
  have f: "Ingest_Flush ordS ordW ?inp = (None, inp')"
    using rc rp none by (simp add: Recover_def Let_def)
  have db: "db_ok (inDb inp)" "index_inv (inIdx inp)" using ok by (simp_all add: pipeline_ok_def ingest_inv_def)
  show ?thesis
  proof (cases "Len mem = 0 \<or> nextSeq w = 0")
    case True
    have "mem = NewMem \<or> Len mem = 0" using True rs unnumbered w by auto
    then have "byID (current mem) = fmempty"
      using empty_memtable(1) [OF d(2)] by (auto simp: NewMem_def empty_snapshot_def)
    then have "pipeline_ok ?inp"
      using ok d(2) db db_ok_parts [of "(inDb inp)\<lparr>dbReg := reg\<rparr>"] by (simp add: pipeline_ok_def ingest_inv_def)
    moreover have "inp' = ?inp" using f True by (auto simp: Ingest_Flush_def flushLocked_def Let_def split: if_splits)
    ultimately show ?thesis by simp
  next
    case False
    then have "flushLocked ordS ordW (nextSeq w - 1) ?inp = (None, inp')"
      using f by (simp add: Ingest_Flush_def Let_def)
    from flushLocked_any [OF ord _ _ _ _ _ _ this] show ?thesis using False d db new(2) by simp
  qed
qed

text \<open>The pipeline that a start builds around a log and the shards, before it replays.\<close>

abbreviation blank_ingest :: "wal \<Rightarrow> manager \<Rightarrow> ingest" where
  "blank_ingest w m \<equiv> \<lparr>inIdx = NewIndex 1024, inWal = w, inMem = NewMem,
     inDb = \<lparr>dbStore = NewStore, dbShards = m, dbReg = NewRegistry\<rparr>, flushThreshold = 4096, lastFlushSeq = 0\<rparr>"

lemma boot_parts:
  assumes b: "boot ch cf now d = Inr sv"
  obtains d1 w d2 m inp where "os_call d = (None, d1)" "Wal_Open (push_bit 20 64) d1 = (Inr w, d2)"
    "NewManager (cfWindow cf) now = Inr m" "Recover (chSeries ch) (chSegments ch) (blank_ingest w m) = (None, inp)"
    "svIngest sv = set_gauge ''shards'' (word_of_nat (shard_Count (dbShards (inDb inp)))) inp"
    "svRetention sv = \<lparr>MaxAge = cfRetention cf, SweepStep = minute\<rparr>"
proof -
  obtain d1 where d1: "os_call d = (None, d1)" using b by (auto simp: boot_def split: prod.splits option.splits)
  obtain w d2 where o: "Wal_Open (push_bit 20 64) d1 = (Inr w, d2)"
    using b d1 by (auto simp: boot_def split: prod.splits sum.splits)
  obtain m where m: "NewManager (cfWindow cf) now = Inr m"
    using b d1 o by (auto simp: boot_def split: sum.splits)
  obtain e inp where r: "Recover (chSeries ch) (chSegments ch) (blank_ingest w m) = (e, inp)" by (rule prod.exhaust)
  with b d1 o m that show ?thesis by (cases e) (auto simp: boot_def Ingest_New_def)
qed

lemma boot_ok:
  assumes ch: "choices_ok ch" and log: "log_dated cf d" and b: "boot ch cf now d = Inr sv"
    and now: "0 \<le>s now" "sint now + sint (cfWindow cf) < 2 ^ 63"
  shows "server_ok sv"
proof -
  obtain d1 w d2 m inp where d1: "os_call d = (None, d1)" and o: "Wal_Open (push_bit 20 64) d1 = (Inr w, d2)"
    and m: "NewManager (cfWindow cf) now = Inr m"
    and r: "Recover (chSeries ch) (chSegments ch) (blank_ingest w m) = (None, inp)"
    and sv: "svIngest sv = set_gauge ''shards'' (word_of_nat (shard_Count (dbShards (inDb inp)))) inp"
    by (rule boot_parts [OF b])
  let ?inp = "blank_ingest w m"
  have d: "readable_records d1 = readable_records d" using os_call_files [OF d1] by (simp add: readable_records_def)
  have w: "segments_named w" "readable_records (wDisk w) \<subseteq> readable_records d"
    using Wal_Open_adds [OF o] adds_empty_records d by auto
  have win: "window m = cfWindow cf" using m by (auto simp: NewManager_def split: if_splits)
  have "pipeline_ok inp"
  proof (rule Recover_any [OF _ _ _ _ _ _ _ r])
    show "pipeline_ok ?inp" by (rule start_ok(1) [OF m now(2,1)])
    show "\<forall>r \<in> readable_records (wDisk (inWal ?inp)). fits (dbShards (inDb ?inp)) (rTS r)"
      using log w(2) win by (auto simp: log_dated_def fits_def)
    show "readable_records (wDisk (inWal ?inp)) = {}" if "nextSeq (inWal ?inp) = 0"
      using Wal_Open_unnumbered [OF o] that w(2) log d by (simp add: log_dated_def)
  qed (use ch w in \<open>simp_all add: choices_ok_def NewStore_def\<close>)
  with sv show ?thesis by (simp add: server_ok_def)
qed

text \<open>
  A run of the server: a start, then requests, ticks and the self check in any order. Handlers
  run concurrently, and an append releases its lock between logging the sample and buffering
  it, so the two halves are steps of their own: \<open>pending\<close> holds the samples that are logged and
  not yet buffered, and anything may happen between.
\<close>

type_synonym pending = "(uint64 \<times> point) multiset"

inductive server_run :: "server \<Rightarrow> pending \<Rightarrow> bool" where
  started: "choices_ok ch \<Longrightarrow> log_dated cf d \<Longrightarrow> 0 \<le>s now \<Longrightarrow> sint now + sint (cfWindow cf) < 2 ^ 63
    \<Longrightarrow> boot ch cf now d = Inr sv \<Longrightarrow> server_run sv {#}"
| request: "server_run sv P \<Longrightarrow> choices_ok ch \<Longrightarrow> admissible ch r sv \<Longrightarrow> server_run (snd (serve ch now r sv)) P"
| flushed: "server_run sv P \<Longrightarrow> choices_ok ch \<Longrightarrow> in_bounds 0 sv \<Longrightarrow> flush_tick ch sv = Inr (es, sv')
    \<Longrightarrow> server_run sv' P"
| compacted: "server_run sv P \<Longrightarrow> choices_ok ch \<Longrightarrow> in_bounds 0 sv \<Longrightarrow> server_run (snd (compact_tick ch sv)) P"
| swept: "server_run sv P \<Longrightarrow> choices_ok ch \<Longrightarrow> server_run (sweep_tick ch now sv) P"
| checked: "server_run sv P \<Longrightarrow> choices_ok ch \<Longrightarrow> in_bounds 1 sv \<Longrightarrow> fits (dbShards (inDb (svIngest sv))) now
    \<Longrightarrow> selfCheck ch now sv = Inr (r, sv') \<Longrightarrow> server_run sv' P"
| logged: "server_run sv P \<Longrightarrow> in_bounds 1 sv \<Longrightarrow> append_log ordL name labels ts v (svIngest sv) = (Inr sp, inp)
    \<Longrightarrow> server_run (sv\<lparr>svIngest := inp\<rparr>) (add_mset sp P)"
| log_failed: "server_run sv P \<Longrightarrow> in_bounds 1 sv \<Longrightarrow> append_log ordL name labels ts v (svIngest sv) = (Inl e, inp)
    \<Longrightarrow> server_run (sv\<lparr>svIngest := inp\<rparr>) P"
| buffered: "server_run sv P \<Longrightarrow> choices_ok ch \<Longrightarrow> in_bounds 1 sv \<Longrightarrow> (s, pt) \<in># P
    \<Longrightarrow> fits (dbShards (inDb (svIngest sv))) (TS pt)
    \<Longrightarrow> server_run (sv\<lparr>svIngest := snd (append_apply (chSeries ch) (chSegments ch) (s, pt) (svIngest sv))\<rparr>)
          (P - {#(s, pt)#})"

lemma append_log_ok:
  assumes "server_ok sv" and "in_bounds n sv" and "append_log ordL name labels ts v (svIngest sv) = (r, inp)"
  shows "server_ok (sv\<lparr>svIngest := inp\<rparr>)"
proof -
  have "pipeline_ok (svIngest sv)" using assms(1) by (simp add: server_ok_def)
  note m = append_log_moves [OF this in_bounds_room [OF assms(2)] assms(3)]
  show ?thesis using m(1) db_moves_ok [OF m(2)] by (simp add: server_ok_def pipeline_ok_def)
qed

lemma append_apply_ok:
  assumes "choices_ok ch" and "server_ok sv" and "in_bounds n sv" and "fits (dbShards (inDb (svIngest sv))) (TS pt)"
  shows "server_ok (sv\<lparr>svIngest := snd (append_apply (chSeries ch) (chSegments ch) (s, pt) (svIngest sv))\<rparr>)"
proof -
  have "pipeline_moves 1 (svIngest sv) (snd (append_apply (chSeries ch) (chSegments ch) (s, pt) (svIngest sv)))"
    using assms in_bounds_room [OF assms(3)]
    by (intro append_apply_moves) (simp_all add: choices_ok_def server_ok_def room_def)
  from pipeline_moves_ok [OF this] show ?thesis by (simp add: server_ok_def)
qed

lemma run_ok: "server_run sv P \<Longrightarrow> server_ok sv"
proof (induction rule: server_run.induct)
  case (started ch cf d now sv)
  then show ?case by (intro boot_ok)
next
  case (flushed sv P ch es sv')
  from flush_tick_ok [OF flushed.hyps(2) flushed.IH flushed.hyps(3,4)] show ?case .
next
  case (checked sv P ch now r sv')
  from selfCheck_ok [OF checked.hyps(2) checked.IH checked.hyps(3-5)] show ?case .
qed (simp_all add: serve_ok db_only_ok [OF _ compact_tick_moves] db_only_ok [OF _ sweep_tick_moves]
    append_log_ok append_apply_ok)

lemma parse_int_range: "parse_int s = Some k \<Longrightarrow> - (2 ^ 63) \<le> k \<and> k < 2 ^ 63"
  by (auto simp: parse_int_def Let_def split: if_splits option.splits list.splits prod.splits)

lemma sint_parsed: "parse_int s = Some k \<Longrightarrow> sint (word_of_int k :: int64) = k"
  using parse_int_range [of s k] by (simp add: sint_sbintrunc' signed_take_bit_int_eq_self)

section \<open>What a query answers\<close>

definition asks :: "request \<Rightarrow> int \<Rightarrow> int \<Rightarrow> bool" where
  "asks r start stop \<longleftrightarrow> rqPath r = ''/api/query'' \<and> parse_int (query_get r ''start'') = Some start
     \<and> parse_int (query_get r ''end'') = Some stop"

definition range_of :: "int \<Rightarrow> int \<Rightarrow> query_range" where
  "range_of start stop = \<lparr>Start = word_of_int start, End = word_of_int stop\<rparr>"

lemma serve_query:
  assumes ok: "server_ok sv" and r: "asks r start stop" "start \<le> stop" "query_get r ''multi'' \<noteq> ''1''"
    and m: "entry (inIdx (svIngest sv))
      (LabelsKey \<lparr>ID = 0, Name = query_get r ''name'', Labels = parseLabels (query_get r ''labels'')\<rparr>) = Some meta"
  shows "serve ch now r sv =
    (send_json (JsonResults (aggregate (chSort ch (visible (ID meta) (range_of start stop) (svIngest sv)))
       (agg_of (query_get r ''agg'')) (step_of (query_get r ''step'')))), sv)"
proof -
  let ?inp = "svIngest sv"
  have inv: "mem_inv (inMem ?inp)" "blocks_sorted (dbStore (inDb ?inp))"
    using ok by (simp_all add: server_ok_def pipeline_ok_def ingest_inv_def)
  have "Start (range_of start stop) \<le>s End (range_of start stop)"
    using r sint_parsed [of _ start] sint_parsed [of _ stop] by (auto simp: range_of_def go_int asks_def)
  note q = QueryRange_value [OF inv this]
  have "query_SeriesID (inIdx ?inp) (query_get r ''name'') (parseLabels (query_get r ''labels'')) = Inr (ID meta)"
    using m by (simp add: query_SeriesID_def Lookup_entry)
  moreover have "serve ch now r sv = handleQuery ch r sv" using r(1) by (simp add: serve_def asks_def)
  ultimately show ?thesis
    using r q by (simp add: handleQuery_def asks_def Let_def flip: range_of_def)
      (simp add: visible_def with_store_same)
qed

lemma serve_unknown:
  assumes r: "asks r start stop" 
    and m: "entry (inIdx (svIngest sv))
      (LabelsKey \<lparr>ID = 0, Name = query_get r ''name'', Labels = parseLabels (query_get r ''labels'')\<rparr>) = None"
  shows "serve ch now r sv = (\<lparr>rpStatus = 404, rpPayload = ErrorText (ErrUnknownSeries (query_get r ''name''))\<rparr>, sv)"
proof -
  have "query_SeriesID (inIdx (svIngest sv)) (query_get r ''name'') (parseLabels (query_get r ''labels''))
      = Inl (ErrUnknownSeries (query_get r ''name''))"
    using m by (simp add: query_SeriesID_def Lookup_entry)
  then show ?thesis
    using r by (simp add: serve_def asks_def handleQuery_def http_failure_def is_panic_def Let_def)
qed

text \<open>An accepted single write, and the append it stands for.\<close>

lemma serve_written:
  assumes r: "rqPath r = ''/api/write''" "rqContentType r \<noteq> ''application/json''"
    and s: "serve ch now r sv = (resp, sv1)" "rpStatus resp = 200"
  obtains ts v inp where "rqMethod r = ''POST''" "parse_int (query_get r ''ts'') = Some ts"
    "chParseFloat ch (query_get r ''value'') = Some v"
    "Ingest_Append (chLabels ch) (chSeries ch) (chSegments ch) (query_get r ''name'')
       (parseLabels (query_get r ''labels'')) (word_of_int ts) v (svIngest sv) = (None, inp)"
    "sv1 = sv\<lparr>svIngest := inp\<rparr>" "stamps ch r = [word_of_int ts]"
  using s r
  by (auto simp: serve_def handleWrite_def http_error_def http_failure_def stamps_def split: if_splits option.splits prod.splits)


text \<open>A map order for every map, the stable sort, and decoders that accept one value.\<close>

definition demo_choices :: choices where
  "demo_choices = \<lparr>chLabels = key_order, chSeries = key_order, chSegments = key_order, chBlocks = key_order,
     chIndex = (\<lambda>ix. map key_order (buckets ix)), chMetrics = key_order, chSort = point_sort,
     chDecode = (\<lambda>_. None), chParseFloat = (\<lambda>_. Some 5),
     chServeFile = (\<lambda>_ dir file. \<lparr>rpStatus = 200, rpPayload = ServedFile dir file\<rparr>)\<rparr>"

lemma demo_choices_ok: "choices_ok demo_choices"
  by (simp add: choices_ok_def demo_choices_def visits_all_def list_all2_conv_all_nth iterates_key_order
      iterates_visits [OF iterates_key_order])

text \<open>A first start, on an empty directory.\<close>

lemma first_log:
  obtains w d' where "Wal_Open ms \<lparr>files = fmempty, faults = []\<rparr> = (Inr w, d')" "wal_ok w (\<lambda>_. [])" "all_synced w"
    "faults (wDisk w) = []" "nextSeq w = 0" "wal_entries w (\<lambda>_. []) = []"
proof -
  let ?d = "\<lparr>files = fmempty, faults = []\<rparr> :: disk"
  have n: "no_segments ?d" and "checkpoint_value ?d = Some 0"
    by (simp_all add: no_segments_def checkpoint_value_def)
  then obtain w d' where o: "Wal_Open ms ?d = (Inr w, d')" "faults (wDisk w) = []"
    using Wal_Open_fresh_clean [of ?d 0 ms] by auto
  with Wal_Open_fresh [OF n o(1)] show ?thesis by (intro that)
qed

lemma first_start:
  assumes "iterates (chSeries ch)" and "0 <s cfWindow cf"
  shows "\<exists>sv. boot ch cf now \<lparr>files = fmempty, faults = []\<rparr> = Inr sv" 
    and "good_log cf now \<lparr>files = fmempty, faults = []\<rparr> (\<lambda>_. [])"
proof -
  let ?d = "\<lparr>files = fmempty, faults = []\<rparr> :: disk"
  obtain w d2 where w: "Wal_Open (push_bit 20 64) ?d = (Inr w, d2)" "wal_ok w (\<lambda>_. [])" "faults (wDisk w) = []"
      "nextSeq w = 0" "wal_entries w (\<lambda>_. []) = []" "all_synced w" by (rule first_log)
  have lr: "log_readable w (\<lambda>_. [])" by (rule synced_readable [OF w(2,6)])
  then show "good_log cf now ?d (\<lambda>_. [])"
    using w by (simp add: good_log_def found_def)
  obtain m where m: "NewManager (cfWindow cf) now = Inr m"
    using assms(2) by (simp add: NewManager_def go_int)
  let ?s = "(NewMem, NewRegistry)"
  obtain out w1 where r: "ReplayUnflushed recover_record ?s w = (out, w1)" by (rule prod.exhaust)
  have "out = (None, ?s)"
    using r Replay_readable [OF lr w(3), of "nextReplay w" recover_record ?s] w(5)
    by (simp add: ReplayUnflushed_def found_def)
  moreover have "nextSeq w1 = 0"
    using r w(4) Replay_counters(1) [of "nextReplay w" recover_record ?s w] by (simp add: ReplayUnflushed_def)
  moreover have "os_call ?d = (None, ?d)" by (simp add: os_call_def next_fault_none)
  ultimately show "\<exists>sv. boot ch cf now ?d = Inr sv"
    using w(1) m r by (simp add: boot_def Ingest_New_def Recover_def Ingest_Flush_def)
qed

section \<open>Properties\<close>

text \<open>
  C1. Whatever a run does after a start on any directory whose readable records carry
  timestamps in range and numbers below the greatest - whatever a crash or failing calls left
  there, and however the calls of the start itself fail - requests, flushes, compactions,
  sweeps, the self check, and appends whose two halves anything may separate, in any order and
  with any map iteration orders - the parts of the state stay well formed together: the series
  table, the memtable, the blocks, the windows, and every block that a shard lists was created.
  The requests may be of any kind, with any content, as long as the timestamps they write leave
  the length of a window below \<open>2 ^ 63\<close> and the ids stay short of running over 64 bits
  (\<open>admissible\<close>, \<open>in_bounds\<close>).
\<close>

theorem Server_invariant:
  assumes "server_run sv P"
  shows "index_inv (inIdx (svIngest sv)) \<and> mem_inv (inMem (svIngest sv))
    \<and> store_inv (dbStore (inDb (svIngest sv))) \<and> blocks_sorted (dbStore (inDb (svIngest sv)))
    \<and> mgr_inv (dbShards (inDb (svIngest sv))) \<and> refs_ok (inDb (svIngest sv))"
  using run_ok [OF assms] by (simp add: server_ok_def pipeline_ok_def ingest_inv_def db_inv_def)

theorem Server_invariant_witness:
  "\<exists>sv. boot demo_choices \<lparr>cfWindow = 3600, cfRetention = 9000, cfDownsample = 60, cfWeb = ''web''\<rparr> 100
        \<lparr>files = fmempty, faults = []\<rparr> = Inr sv
    \<and> index_inv (inIdx (svIngest sv)) \<and> mgr_inv (dbShards (inDb (svIngest sv)))"
proof -
  let ?cf = "\<lparr>cfWindow = 3600, cfRetention = 9000, cfDownsample = 60, cfWeb = ''web''\<rparr>"
  have "iterates (chSeries demo_choices)" "0 <s cfWindow ?cf"
    using demo_choices_ok by (simp_all add: choices_ok_def go_int)
  note f = first_start [OF this, of 100]
  from f(1) obtain sv where "boot demo_choices ?cf 100 \<lparr>files = fmempty, faults = []\<rparr> = Inr sv" by blast
  moreover have "server_run sv {#}"
    by (rule started [OF demo_choices_ok log_dated_empty _ _ calculation]) (simp_all add: go_int)
  ultimately show ?thesis using Server_invariant [of sv "{#}"] by blast
qed

text \<open>
  A query for a known series, over a range that does not run backwards, always answers
  200 with the aggregation of exactly what the memtable and the readable blocks of the
  overlapping shards hold, and changes nothing; for a series the index does not know it
  answers 404.
\<close>

theorem served_query:
  assumes "server_ok sv" and "asks r start stop" and "start \<le> stop" and "query_get r ''multi'' \<noteq> ''1''"
  shows "serve ch now r sv =
    (case entry (inIdx (svIngest sv))
        (LabelsKey \<lparr>ID = 0, Name = query_get r ''name'', Labels = parseLabels (query_get r ''labels'')\<rparr>) of
       None \<Rightarrow> \<lparr>rpStatus = 404, rpPayload = ErrorText (ErrUnknownSeries (query_get r ''name''))\<rparr>
     | Some meta \<Rightarrow>
         send_json (JsonResults (aggregate (chSort ch (visible (ID meta) (range_of start stop) (svIngest sv)))
           (agg_of (query_get r ''agg'')) (step_of (query_get r ''step'')))), sv)"
  using serve_unknown [OF assms(2)] serve_query [OF assms] by (simp split: option.split)

text \<open>A request for \<open>cpu.load\<close> without labels.\<close>

definition demo_write :: request where
  "demo_write = \<lparr>rqMethod = ''POST'', rqPath = ''/api/write'', rqContentType = [],
     rqQuery = fmupd ''name'' ''cpu.load'' (fmupd ''ts'' ''100'' (fmupd ''value'' ''5'' fmempty)), rqBody = []\<rparr>"

definition demo_ask :: request where
  "demo_ask = \<lparr>rqMethod = ''GET'', rqPath = ''/api/query'', rqContentType = [],
     rqQuery = fmupd ''name'' ''cpu.load'' (fmupd ''start'' ''0'' (fmupd ''end'' ''200'' fmempty)), rqBody = []\<rparr>"

definition demo_server :: "wal \<Rightarrow> server" where
  "demo_server w = \<lparr>svIngest = idle_ingest\<lparr>inWal := w\<rparr>, svDownsample = \<lparr>Window = 60\<rparr>,
     svRetention = \<lparr>MaxAge = 9000, SweepStep = minute\<rparr>, webDir = ''web''\<rparr>"

lemma parse_demo: "parse_int ''100'' = Some 100" "parse_int ''0'' = Some 0" "parse_int ''200'' = Some 200"
  by (simp_all add: parse_int_def parse_digits_def digit_value_def)

lemma demo_asks: "asks demo_ask 0 200" "query_get demo_ask ''multi'' = []" "query_get demo_ask ''name'' = ''cpu.load''"
  "query_get demo_ask ''labels'' = []"
  by (simp_all add: asks_def demo_ask_def query_get_def parse_demo)

lemma demo_server_ok: "server_ok (demo_server w)"
proof -
  have "ingest_inv (idle_ingest\<lparr>inWal := w\<rparr>)" using idle_inv(1) by (simp add: ingest_inv_def)
  with demo_db_ok show ?thesis by (simp add: server_ok_def pipeline_ok_def demo_server_def idle_ingest_def)
qed

theorem served_query_witness:
  "\<exists>w. server_ok (demo_server w) \<and> serve demo_choices 0 demo_ask (demo_server w)
    = (\<lparr>rpStatus = 404, rpPayload = ErrorText (ErrUnknownSeries ''cpu.load'')\<rparr>, demo_server w)"
proof (intro exI conjI)
  show "server_ok (demo_server idle_wal)" by (rule demo_server_ok)
  show "serve demo_choices 0 demo_ask (demo_server idle_wal)
    = (\<lparr>rpStatus = 404, rpPayload = ErrorText (ErrUnknownSeries ''cpu.load'')\<rparr>, demo_server idle_wal)"
    using served_query [OF demo_server_ok demo_asks(1)]
    by (simp add: demo_asks demo_server_def idle_ingest_def NewIndex_entry)
qed

text \<open>
  C2. A single write, sent as parameters and answered with 200, is seen by the next plain query
  (\<open>multi\<close> is not 1) of the same name and labels, for every range around its timestamp and
  whatever map orders either request meets: the answer aggregates a set of samples that holds
  the written one. Its timestamp must leave the length of a window below \<open>2 ^ 63\<close>, with the ids
  short of their bounds (\<open>admissible\<close>), and its labels must be such that the sanitiser leaves
  them as they are, because a query does not trim what a write trims. JSON batches
  are outside of the claim: the flush that a long batch sets off can drop its first samples
  when its last ones open a later window, and the answer is 200 all the same.
\<close>

theorem write_then_query:
  assumes ch: "choices_ok ch" and ok: "server_ok sv" and adm: "admissible ch w sv"
    and w: "rqPath w = ''/api/write''" "rqContentType w \<noteq> ''application/json''"
    and s: "serve ch now w sv = (resp, sv1)" "rpStatus resp = 200"
    and val: "parse_int (query_get w ''ts'') = Some ts" "chParseFloat ch (query_get w ''value'') = Some v"
    and q: "asks r start stop" "start \<le> ts" "ts < stop" "query_get r ''multi'' \<noteq> ''1''"
    and same: "query_get r ''name'' = query_get w ''name''" "query_get r ''labels'' = query_get w ''labels''"
    and clean: "SanitizeLabels (chLabels ch (parseLabels (query_get w ''labels''))) (parseLabels (query_get w ''labels''))
      = Inr (parseLabels (query_get w ''labels''))"
  shows "\<exists>sid. serve ch' now' r sv1 =
      (send_json (JsonResults (aggregate (chSort ch' (visible sid (range_of start stop) (svIngest sv1)))
         (agg_of (query_get r ''agg'')) (step_of (query_get r ''step'')))), sv1)
    \<and> \<lparr>TS = word_of_int ts, Value = v, SeriesID = sid\<rparr> \<in> set (visible sid (range_of start stop) (svIngest sv1))"
proof -
  obtain ts1 v1 inp where a: "parse_int (query_get w ''ts'') = Some ts1"
      "chParseFloat ch (query_get w ''value'') = Some v1"
      "Ingest_Append (chLabels ch) (chSeries ch) (chSegments ch) (query_get w ''name'')
         (parseLabels (query_get w ''labels'')) (word_of_int ts1) v1 (svIngest sv) = (None, inp)"
      "sv1 = sv\<lparr>svIngest := inp\<rparr>" "stamps ch w = [word_of_int ts1]"
    by (rule serve_written [OF w s])
  have eq: "ts1 = ts" "v1 = v" using a val by simp_all
  have inv: "ingest_inv (svIngest sv)" using ok by (simp add: server_ok_def pipeline_ok_def)
  have room: "room (svIngest sv)" using adm in_bounds_room by (auto simp: admissible_def)
  have fits: "fits (dbShards (inDb (svIngest sv))) (word_of_int ts)" using adm a(5) eq by (simp add: admissible_def)
  have ord: "iterates (chSeries ch)" using ch by (simp add: choices_ok_def)
  have sint: "sint (word_of_int ts :: int64) = ts" "sint (word_of_int start :: int64) = start"
      "sint (word_of_int stop :: int64) = stop"
    using val(1) q(1) sint_parsed by (auto simp: asks_def)
  have rng: "Start (range_of start stop) \<le>s word_of_int ts" "word_of_int ts <s End (range_of start stop)"
    using q(2,3) sint by (simp_all add: range_of_def go_int)
  obtain meta :: series_meta where m:
      "entry (inIdx inp) (LabelsKey \<lparr>ID = 0, Name = query_get w ''name'', Labels = parseLabels (query_get w ''labels'')\<rparr>) = Some meta"
      "\<lparr>TS = word_of_int ts, Value = v, SeriesID = ID meta\<rparr> \<in> set (visible (ID meta) (range_of start stop) inp)"
    using Append_stored [OF ord inv room fits a(3) [unfolded eq] rng] clean by auto
  have ok1: "server_ok sv1" using serve_ok [OF ch ok adm, of now] s by simp
  have "serve ch' now' r sv1 =
      (send_json (JsonResults (aggregate (chSort ch' (visible (ID meta) (range_of start stop) (svIngest sv1)))
         (agg_of (query_get r ''agg'')) (step_of (query_get r ''step'')))), sv1)"
    using q m(1) same a(4) by (intro serve_query [OF ok1]) auto
  with m(2) a(4) show ?thesis by auto
qed

lemma demo_write_parts:
  "rqPath demo_write = ''/api/write''" "rqMethod demo_write = ''POST''" "rqContentType demo_write = []"
  "query_get demo_write ''name'' = ''cpu.load''" "query_get demo_write ''ts'' = ''100''"
  "query_get demo_write ''labels'' = []" "chParseFloat demo_choices s = Some 5"
  by (simp_all add: demo_write_def query_get_def demo_choices_def)

lemma demo_written_on:
  assumes w: "wal_ok w recs" "top_index (segments w) = 1" "faults (wDisk w) = []"
  obtains sv1 where "serve demo_choices 0 demo_write (demo_server w) = (ok_text ''{\"ok\":true}'', sv1)"
proof -
  let ?inp = "idle_ingest\<lparr>inWal := w\<rparr>"
  have inv: "ingest_inv ?inp" "room ?inp" using idle_inv by (simp_all add: ingest_inv_def room_def)
  obtain meta :: series_meta and inp1 where l: "append_log key_order ''cpu.load'' fmempty 100 5 ?inp
      = (Inr (nextSeq (inWal ?inp), \<lparr>TS = 100, Value = 5, SeriesID = ID meta\<rparr>), inp1)"
      "flushThreshold inp1 = flushThreshold ?inp"
    by (rule cpu_load [OF inv, of recs 100 5]) (use w in \<open>simp_all add: idle_ingest_def\<close>)
  note e = append_log_effect [OF inv l(1)]
  have "Route 100 (dbShards (inDb inp1)) = (Inr 0, demo_manager)"
    using e(3) busy_route by (simp add: idle_ingest_def demo_facts)
  moreover have "Len (inMem inp1) = 0" using e(4) by (simp add: idle_ingest_def NewMem_def Len_def)
  ultimately obtain inp2 where "Ingest_Append key_order key_order key_order ''cpu.load'' fmempty 100 5 ?inp = (None, inp2)"
    using l by (simp add: Ingest_Append_def append_apply_def Let_def idle_ingest_def)
  then have "Ingest_Append (chLabels demo_choices) (chSeries demo_choices) (chSegments demo_choices) ''cpu.load''
      (parseLabels []) (word_of_int 100) 5 (svIngest (demo_server w)) = (None, inp2)"
    by (simp add: demo_choices_def parseLabels_def demo_server_def)
  then have "handleWrite demo_choices demo_write (demo_server w) = (ok_text ''{\"ok\":true}'', demo_server w\<lparr>svIngest := inp2\<rparr>)"
    by (simp add: handleWrite_def demo_write_parts parse_demo)
  then show ?thesis by (intro that) (simp add: serve_def demo_write_parts)
qed

lemma demo_written:
  obtains w sv1 where "serve demo_choices 0 demo_write (demo_server w) = (ok_text ''{\"ok\":true}'', sv1)"
  using fresh_wal demo_written_on by metis

lemma demo_admissible: "admissible demo_choices demo_write (demo_server w)"
proof -
  have s: "stamps demo_choices demo_write = [100]" by (simp add: stamps_def demo_write_parts parse_demo)
  have "fmsize (blocks demo_store) = 1"
    by (simp add: demo_store_def Create_spec NewStore_def fmsize_upd)
  then have "headroom 3 (idle_ingest\<lparr>inWal := w\<rparr>)"
    by (simp add: headroom_def idle_ingest_def demo_facts NewIndex_def)
  then show ?thesis
    using \<open>fmsize (blocks demo_store) = 1\<close>
    by (simp add: admissible_def s in_bounds_def demo_server_def)
       (simp add: idle_ingest_def demo_facts demo_manager_def fits_def active_end_def new_shard_def go_int numeral_3_eq_3)
qed

theorem write_then_query_witness:
  "\<exists>w sv1 sid. serve demo_choices 0 demo_write (demo_server w) = (ok_text ''{\"ok\":true}'', sv1)
    \<and> serve demo_choices 1 demo_ask sv1 =
        (send_json (JsonResults (aggregate (point_sort (visible sid (range_of 0 200) (svIngest sv1))) AggAvg minute)), sv1)
    \<and> \<lparr>TS = 100, Value = 5, SeriesID = sid\<rparr> \<in> set (visible sid (range_of 0 200) (svIngest sv1))"
proof -
  obtain w sv1 where s: "serve demo_choices 0 demo_write (demo_server w) = (ok_text ''{\"ok\":true}'', sv1)"
    by (rule demo_written)
  have "agg_of (query_get demo_ask ''agg'') = AggAvg" "step_of (query_get demo_ask ''step'') = minute"
    by (simp_all add: agg_of_def step_of_def parse_lenient_def demo_ask_def query_get_def)
  moreover have "key_order (fmempty :: labels) = []" using set_key_order [of "fmempty :: labels"] by simp
  ultimately show ?thesis
    using write_then_query [OF demo_choices_ok demo_server_ok demo_admissible _ _ s, of 100 5 demo_ask 0 200 demo_choices 1]
      s demo_asks demo_write_parts parse_demo
    by (auto simp: ok_text_def parseLabels_def SanitizeLabels_def demo_choices_def)
qed

end
