(* ===== verification/Restart.thy ===== *)
theory Restart
  imports ServerFlow
begin

text \<open>
  Stopping the process and starting it again: what the log gives back, what only memory held,
  and what becomes of the series ids.
\<close>

section \<open>What a restart forgets\<close>

lemma Recover_index: "inIdx (snd (Recover ordS ordW inp)) = inIdx inp"
  using flushLocked_index by (simp add: Recover_def Ingest_Flush_def Let_def split: prod.split option.split)

lemma boot_index:
  assumes "boot ch cf now d = Inr sv"
  shows "inIdx (svIngest sv) = NewIndex 1024"
proof (rule boot_parts [OF assms])
  fix w m inp
  assume r: "Recover (chSeries ch) (chSegments ch) (blank_ingest w m) = (None, inp)"
    and sv: "svIngest sv = set_gauge ''shards'' (word_of_nat (shard_Count (dbShards (inDb inp)))) inp"
  from r Recover_index [of "chSeries ch" "chSegments ch" "blank_ingest w m"] have "inIdx inp = NewIndex 1024" by simp
  with sv show ?thesis by (simp add: set_gauge_def)
qed

text \<open>The first series that an empty table registers gets id 1.\<close>

lemma SeriesOf_first:
  assumes "ValidName name" and "SanitizeLabels (ordL labels) labels = Inr clean" and ix: "inIdx inp = NewIndex n"
  obtains ix' where "SeriesOf ordL name labels inp = (Inr \<lparr>ID = 1, Name = name, Labels = clean\<rparr>,
    inp\<lparr>inIdx := ix', inDb := count_metric ''series_registered'' 1 (inDb inp)\<rparr>)"
proof -
  let ?m = "\<lparr>ID = 0, Name = name, Labels = clean\<rparr> :: series_meta"
  obtain ix' where "Register ?m (NewIndex n) = ((?m\<lparr>ID := ixNextID (NewIndex n)\<rparr>, True), ix')"
    using Register_absent [OF NewIndex_inv, of n ?m] by (auto simp: NewIndex_entry)
  moreover have "ixNextID (NewIndex n) = 1" by (simp add: NewIndex_def)
  ultimately show ?thesis using assms by (intro that [of ix']) (simp add: SeriesOf_def Lookup_entry NewIndex_entry)
qed

text \<open>
  C6. A restart forgets the series table although the log replays samples under the old ids:
  after every start a query for any series answers 404, and the first series that is written
  afterwards, whatever its name, gets id 1 and with it all samples that the log replayed under
  the former series 1.
\<close>

theorem restart_forgets_series:
  assumes b: "boot ch cf now d = Inr sv" and a: "asks r start stop"
    and name: "ValidName name" and clean: "SanitizeLabels (ordL labels) labels = Inr clean"
  shows "rpStatus (fst (serve ch' now' r sv)) = 404
    \<and> (\<exists>(meta :: series_meta) inp. SeriesOf ordL name labels (svIngest sv) = (Inr meta, inp) \<and> ID meta = 1
        \<and> visible 1 rng inp = visible 1 rng (svIngest sv))"
proof
  note ix = boot_index [OF b]
  show "rpStatus (fst (serve ch' now' r sv)) = 404"
    using serve_unknown [OF a, of sv ch' now'] by (simp add: ix NewIndex_entry)
  obtain ix' where "SeriesOf ordL name labels (svIngest sv) = (Inr \<lparr>ID = 1, Name = name, Labels = clean\<rparr>,
      (svIngest sv)\<lparr>inIdx := ix', inDb := count_metric ''series_registered'' 1 (inDb (svIngest sv))\<rparr>)"
    by (rule SeriesOf_first [where ordL = ordL and labels = labels, OF name clean ix])
  moreover have "visible 1 rng ((svIngest sv)\<lparr>inIdx := ix', inDb := count_metric ''series_registered'' 1 (inDb (svIngest sv))\<rparr>)
      = visible 1 rng (svIngest sv)"
    by (simp add: visible_parts)
  ultimately show "\<exists>(meta :: series_meta) inp. SeriesOf ordL name labels (svIngest sv) = (Inr meta, inp) \<and> ID meta = 1
      \<and> visible 1 rng inp = visible 1 rng (svIngest sv)"
    by (intro exI conjI) (assumption | simp)+
qed

theorem restart_forgets_series_witness:
  "\<exists>sv. boot demo_choices \<lparr>cfWindow = 3600, cfRetention = 9000, cfDownsample = 60, cfWeb = ''web''\<rparr> 100
        \<lparr>files = fmempty, faults = []\<rparr> = Inr sv
    \<and> rpStatus (fst (serve demo_choices 100 demo_ask sv)) = 404"
proof -
  let ?cf = "\<lparr>cfWindow = 3600, cfRetention = 9000, cfDownsample = 60, cfWeb = ''web''\<rparr>"
  have "iterates (chSeries demo_choices)" "0 <s cfWindow ?cf"
    using demo_choices_ok by (simp_all add: choices_ok_def go_int)
  from first_start(1) [OF this, of 100] obtain sv
    where b: "boot demo_choices ?cf 100 \<lparr>files = fmempty, faults = []\<rparr> = Inr sv" by blast
  have "ValidName ''cpu.load''" by (simp add: ValidName_def name_char_def alnum_def less_eq_char_def)
  moreover have "SanitizeLabels (key_order (fmempty :: labels)) fmempty = Inr fmempty"
    using set_key_order [of "fmempty :: labels"] by (simp add: SanitizeLabels_def)
  ultimately show ?thesis using restart_forgets_series [OF b demo_asks(1)] b by blast
qed

lemma Replay_idle:
  assumes "faults (wDisk w) = []"
  shows "snd (Replay from fn s w) = w"
proof -
  have "snd (replay_loop from fn ks s w) = w" for ks
  proof (induction ks arbitrary: s)
    case (Cons i ks)
    have "os_read name (wDisk w) = ((content name (wDisk w), False), wDisk w)"
        "os_call (wDisk w) = (None, wDisk w)"
        "os_open name (wDisk w)
          = (if fmlookup (files (wDisk w)) name = None then Some (ErrNotExist name) else None, wDisk w)" for name
      using assms by (simp_all add: os_read_def os_call_def os_open_def next_fault_none)
    with Cons show ?case by (simp add: Let_def split: option.split prod.split)
  qed simp
  then show ?thesis by (simp add: Replay_def)
qed

lemma restart_sees:
  assumes ch: "choices_ok ch" and log: "good_log cf now d recs" and b: "boot ch cf now d = Inr sv"
    and now: "0 \<le>s now" "sint now + sint (cfWindow cf) < 2 ^ 63"
    and o: "Wal_Open (push_bit 20 64) d = (Inr w, d')" "nextSeq w \<noteq> 0"
  shows "p \<in> set (visible sid rng (svIngest sv)) \<longleftrightarrow>
    in_range rng p \<and> aligned (cfWindow cf) now \<le>s TS p \<and> SeriesID p = sid
    \<and> last_value (found (nextReplay w) (wal_entries w recs)) sid (TS p) = Some (Value p)"
proof -
  have d: "os_call d = (None, d)" using log by (simp add: good_log_def os_call_def next_fault_none)
  obtain m where m: "NewManager (cfWindow cf) now = Inr m"
    using b d o by (auto simp: boot_def split: sum.splits)
  let ?inp = "blank_ingest w m"
  obtain e inp where r: "Recover (chSeries ch) (chSegments ch) ?inp = (e, inp)" by (rule prod.exhaust)
  note st = start_ok [OF m now(2,1)]
  have inv: "ingest_inv ?inp" using st(1) [of 1024 w 4096] by (simp add: pipeline_ok_def)
  have w: "log_readable w recs" "faults (wDisk w) = []"
      "\<forall>r \<in> set (found (nextReplay w) (wal_entries w recs)). rTS r <s shEnd (last (shards m))"
    using log o(1) st(2) by (auto simp: good_log_def)
  have ms: "shards m = [new_shard 1 (aligned (cfWindow cf) now) (cfWindow cf)]"
    using m by (auto simp: NewManager_def split: if_splits)
  then have none: "stored_points sid rng (inDb ?inp) = []"
    by (simp add: stored_points_def covering_blocks_def ShardsCovering_def Shard_Blocks_def new_shard_def)
  have "p \<in> set (visible sid rng (snd (Recover (chSeries ch) (chSegments ch) ?inp))) \<longleftrightarrow>
      p \<in> set (stored_points sid rng (inDb ?inp))
      \<or> in_range rng p \<and> recent m p \<and> SeriesID p = sid
        \<and> last_value (found (nextReplay w) (wal_entries w recs)) sid (TS p) = Some (Value p)"
    using Recover_sees [of "chSeries ch" ?inp recs p sid rng "chSegments ch"] ch inv w o(2)
    by (simp add: choices_ok_def NewStore_def NewMem_def Len_def)
  moreover have "visible sid rng (svIngest sv) = visible sid rng inp"
    using b d o(1) m r by (auto simp: boot_def Ingest_New_def set_gauge_def visible_parts stored_points_def split: option.splits)
  ultimately show ?thesis using none r by (auto simp: recent_def ms new_shard_def)
qed

text \<open>
  C5. After a start on a readable log whose records end before the first window ends, a query
  sees exactly what the log replays into the current window: per series and timestamp the last
  record with a sequence number from the watermark on. What was flushed before, and so lies
  below the watermark, is gone: blocks are kept in memory only.
\<close>

theorem restart_keeps_log_only:
  assumes ch: "choices_ok ch" and log: "good_log cf now d recs" and b: "boot ch cf now d = Inr sv"
    and now: "0 \<le>s now" "sint now + sint (cfWindow cf) < 2 ^ 63"
    and o: "Wal_Open (push_bit 20 64) d = (Inr w, d')" "nextSeq w \<noteq> 0"
  shows "p \<in> set (visible sid rng (svIngest sv)) \<longleftrightarrow>
    in_range rng p \<and> aligned (cfWindow cf) now \<le>s TS p \<and> SeriesID p = sid
    \<and> last_value (found (nextReplay w) (wal_entries w recs)) sid (TS p) = Some (Value p)"
  by (rule restart_sees [OF assms])

lemma Recover_clean:
  assumes ord: "iterates ordS" "iterates ordW" and ok: "pipeline_ok inp"
    and log: "wal_ok (inWal inp) recs" "log_readable (inWal inp) recs" "faults (wDisk (inWal inp)) = []"
    and past: "\<forall>r \<in> set (found (nextReplay (inWal inp)) (wal_entries (inWal inp) recs)). rTS r <s active_end (inDb inp)"
  shows "\<exists>inp'. Recover ordS ordW inp = (None, inp')"
proof -
  let ?rs = "found (nextReplay (inWal inp)) (wal_entries (inWal inp) recs)"
  let ?mem = "fold write_record ?rs (inMem inp)"
  obtain reg where rp: "ReplayUnflushed recover_record (inMem inp, dbReg (inDb inp)) (inWal inp) = ((None, ?mem, reg), inWal inp)"
    using Replay_readable [OF log(2,3), of "nextReplay (inWal inp)" recover_record "(inMem inp, dbReg (inDb inp))"]
      deliver_recover [of ?rs "inMem inp" "dbReg (inDb inp)"]
      Replay_idle [OF log(3), of "nextReplay (inWal inp)" recover_record "(inMem inp, dbReg (inDb inp))"]
    by (metis ReplayUnflushed_def prod.collapse)
  let ?inp = "inp\<lparr>inMem := ?mem, inDb := (inDb inp)\<lparr>dbReg := reg\<rparr>, inWal := inWal inp\<rparr>"
  have inv: "ingest_inv inp" and db: "db_ok (inDb inp)" using ok by (simp_all add: pipeline_ok_def)
  have "routed (dbShards (inDb inp)) (byID (current ?mem))"
    using inv past by (intro replayed_routed) (simp_all add: ingest_inv_def active_end_def)
  moreover have "mem_inv ?mem" using inv replayed_memtable [of "inMem inp" ?rs] by (simp add: ingest_inv_def)
  ultimately have inv1: "ingest_inv ?inp"
    using inv db db_ok_parts [of "(inDb inp)\<lparr>dbReg := reg\<rparr>"] by (simp add: ingest_inv_def)
  have "\<exists>inp'. Ingest_Flush ordS ordW ?inp = (None, inp')"
  proof (cases "nextSeq (inWal inp) = 0 \<or> Len ?mem = 0")
    case True
    then show ?thesis by (auto simp: Ingest_Flush_def flushLocked_def Let_def)
  next
    case False
    then show ?thesis using flush_clean [OF ord inv1, of recs] log(1,3) by auto
  qed
  with rp show ?thesis by (simp add: Recover_def Let_def)
qed

text \<open>A log that a stopped process left: every buffer written, no call failing from now on.\<close>

definition stopped_log :: "uint64 \<Rightarrow> wal_record list \<Rightarrow> disk \<Rightarrow> bool" where
  "stopped_log from es d \<longleftrightarrow> (\<exists>w recs. wDisk w = d \<and> wal_ok w recs \<and> all_synced w \<and> faults d = []
     \<and> checkpoint_value d = Some from \<and> wal_entries w recs = es \<and> (\<forall>r \<in> set es. rSeq r + 1 \<noteq> 0))"

lemma stopped_log_open:
  assumes "stopped_log from es d"
  obtains w recs d' where "Wal_Open ms d = (Inr w, d')" "faults (wDisk w) = []" "wal_ok w recs" "log_readable w recs"
    "wal_entries w recs = es" "nextReplay w = from" "nextSeq w \<noteq> 0 \<or> found from es = []" "stopped_log from es (wDisk w)"
proof -
  obtain w0 recs where w0: "wDisk w0 = d" "wal_ok w0 recs" "all_synced w0" "faults (wDisk w0) = []"
      "checkpoint_value (wDisk w0) = Some from" "wal_entries w0 recs = es" "\<forall>r \<in> set es. rSeq r + 1 \<noteq> 0"
    using assms by (auto simp: stopped_log_def)
  obtain w d' where o: "Wal_Open ms (wDisk w0) = (Inr w, d')" "faults (wDisk w) = []" by (rule reopen_clean [OF w0(2,4,5)])
  note e = Wal_Open_synced [OF w0(2,3) refl o(1)]
  have ne: "fmdom' (segments w0) \<noteq> {}" by (rule wal_ok_current [OF w0(2)]) (auto dest: fmdom'I)
  obtain recs' where "disk_log (wDisk w0) (fmdom' (segments w0)) recs'" using crash_disk_log [OF w0(2) refl] by metis
  from Wal_Open_effect(3) [OF this ne o(1)] have "checkpoint_value (wDisk w) = Some from"
    using w0(5) by (simp add: checkpoint_value_def)
  then have "stopped_log from es (wDisk w)" using e o(2) w0(6,7) by (auto simp: stopped_log_def)
  moreover have n: "nextReplay w = from" "wal_entries w recs = es" using e(3,5) w0(5,6) by simp_all
  moreover have "nextSeq w \<noteq> 0 \<or> found from es = []" using reopened_numbered [OF w0(2,3) o] w0(6,7) n by auto
  ultimately show ?thesis using that o w0(1) e(1) synced_readable [OF e(1,2)] by blast
qed

lemma stopped_log_boots:
  assumes ch: "choices_ok ch" "iterates (chSegments ch)" and d: "stopped_log from es d"
    and now: "0 <s cfWindow cf" "0 \<le>s now" "sint now + sint (cfWindow cf) < 2 ^ 63"
    and past: "\<forall>r \<in> set (found from es). rTS r <s aligned (cfWindow cf) now + cfWindow cf"
  obtains w d' recs sv where "good_log cf now d recs" "boot ch cf now d = Inr sv" "Wal_Open (push_bit 20 64) d = (Inr w, d')"
    "wal_entries w recs = es" "nextReplay w = from" "nextSeq w \<noteq> 0 \<or> found from es = []"
proof -
  obtain w recs d' where w: "Wal_Open (push_bit 20 64) d = (Inr w, d')" "faults (wDisk w) = []" "wal_ok w recs"
      "log_readable w recs" "wal_entries w recs = es" "nextReplay w = from" "nextSeq w \<noteq> 0 \<or> found from es = []"
    by (rule stopped_log_open [OF d])
  have fd: "faults d = []" using d by (auto simp: stopped_log_def)
  have gl: "good_log cf now d recs" using w past fd by (auto simp: good_log_def)
  obtain m where m: "NewManager (cfWindow cf) now = Inr m" using now(1) by (simp add: NewManager_def go_int)
  let ?inp = "blank_ingest w m"
  note st = start_ok [OF m now(3,2)]
  have past': "\<forall>r \<in> set (found (nextReplay (inWal ?inp)) (wal_entries (inWal ?inp) recs)). rTS r <s active_end (inDb ?inp)"
    using past st(2) w(5,6) by (simp add: active_end_def)
  have "iterates (chSeries ch)" using ch(1) by (simp add: choices_ok_def)
  then obtain inp where r: "Recover (chSeries ch) (chSegments ch) ?inp = (None, inp)"
    using Recover_clean [OF _ ch(2) st(1) _ _ _ past'] w(2-4) by auto
  have "os_call d = (None, d)" using fd by (simp add: os_call_def next_fault_none)
  then obtain sv where "boot ch cf now d = Inr sv" using w(1) m r by (simp add: boot_def Ingest_New_def)
  with that gl w(1,5-7) show ?thesis by blast
qed

lemma stopped_log_dated:
  assumes "stopped_log from es d" and "\<forall>r \<in> set es. 0 \<le>s rTS r \<and> sint (rTS r) + sint (cfWindow cf) < 2 ^ 63"
  shows "log_dated cf d"
  using assms crash_records [OF _ refl] unfolding stopped_log_def log_dated_def by blast

text \<open>A start on the directory that the two demonstration records left.\<close>

definition demo_config :: config where
  "demo_config = \<lparr>cfWindow = 3600, cfRetention = 9000, cfDownsample = 60, cfWeb = ''web''\<rparr>"

lemma old_record_safe: "frame_safe old_record"
  by (simp add: old_record_def frame_safe_def payload_def appendChecksum_def crcSize_def newline_free_def
      put8 put4 checksum_def crc_byte_def crc_bit_def funpow8 crc_poly_def)

lemma demo_found: "found 0 [old_record, demo_record] = [old_record, demo_record]"
  using old_record_safe demo_record_safe by (simp add: found_def)

lemma demo_stopped:
  obtains d where "stopped_log 0 [old_record, demo_record] d"
proof -
  obtain w0 recs where w0: "wal_ok w0 recs" "all_synced w0" "faults (wDisk w0) = []"
      "wal_entries w0 recs = [old_record, demo_record]" "checkpoint_value (wDisk w0) = Some 0" by (rule demo_log)
  then have "stopped_log 0 [old_record, demo_record] (wDisk w0)"
    by (auto simp: stopped_log_def old_record_def demo_record_def)
  with that show ?thesis .
qed

lemma second_start:
  obtains d w d' recs sv where "good_log demo_config 7300 d recs" "boot demo_choices demo_config 7300 d = Inr sv"
    "Wal_Open (push_bit 20 64) d = (Inr w, d')" "nextSeq w \<noteq> 0"
    "found (nextReplay w) (wal_entries w recs) = [old_record, demo_record]" "log_dated demo_config d"
proof -
  obtain d where d: "stopped_log 0 [old_record, demo_record] d" by (rule demo_stopped)
  have al: "aligned 3600 7300 = 7200" by (simp add: aligned_def bucket_start_def go_rem_def signed_modulo_int_def)
  have past: "\<forall>r \<in> set (found 0 [old_record, demo_record]). rTS r <s aligned (cfWindow demo_config) 7300 + cfWindow demo_config"
    unfolding demo_found by (simp add: old_record_def demo_record_def demo_config_def al go_int)
  have seg: "iterates (chSegments demo_choices)" by (simp add: demo_choices_def iterates_key_order)
  have now: "0 <s cfWindow demo_config" "0 \<le>s (7300 :: int64)" "sint (7300 :: int64) + sint (cfWindow demo_config) < 2 ^ 63"
    by (simp_all add: demo_config_def go_int)
  obtain w d' recs sv where s: "good_log demo_config 7300 d recs" "boot demo_choices demo_config 7300 d = Inr sv"
      "Wal_Open (push_bit 20 64) d = (Inr w, d')" "wal_entries w recs = [old_record, demo_record]" "nextReplay w = 0"
      "nextSeq w \<noteq> 0 \<or> found 0 [old_record, demo_record] = []"
    by (rule stopped_log_boots [OF demo_choices_ok seg d now past])
  have "log_dated demo_config d"
    by (rule stopped_log_dated [OF d]) (simp add: old_record_def demo_record_def demo_config_def go_int)
  with that [OF s(1-3)] s(4-6) show ?thesis by (simp add: demo_found)
qed

lemma second_values:
  assumes "found from es = [old_record, demo_record]"
  shows "last_value (found from es) 7 7300 = Some 0" "aligned (cfWindow demo_config) 7300 = 7200"
    "sint (7300 :: int64) + sint (cfWindow demo_config) < 2 ^ 63"
  unfolding assms
  by (simp add: last_value_def, simp add: demo_record_def)
     (simp_all add: demo_config_def aligned_def bucket_start_def go_rem_def signed_modulo_int_def go_int)

theorem restart_keeps_log_only_witness:
  "\<exists>d sv. boot demo_choices demo_config 7300 d = Inr sv
    \<and> \<lparr>TS = 7300, Value = 0, SeriesID = 7\<rparr> \<in> set (visible 7 \<lparr>Start = 0, End = 9999\<rparr> (svIngest sv))
    \<and> \<lparr>TS = 100, Value = 1, SeriesID = 7\<rparr> \<notin> set (visible 7 \<lparr>Start = 0, End = 9999\<rparr> (svIngest sv))"
proof -
  obtain d w d' recs sv where s: "good_log demo_config 7300 d recs" "boot demo_choices demo_config 7300 d = Inr sv"
      "Wal_Open (push_bit 20 64) d = (Inr w, d')" "nextSeq w \<noteq> 0"
      "found (nextReplay w) (wal_entries w recs) = [old_record, demo_record]" by (rule second_start)
  note val = second_values [OF s(5)]
  note v = restart_keeps_log_only [OF demo_choices_ok s(1,2) _ val(3) s(3,4), of _ 7 "\<lparr>Start = 0, End = 9999\<rparr>"]
  from v [of "\<lparr>TS = 7300, Value = 0, SeriesID = 7\<rparr>"] v [of "\<lparr>TS = 100, Value = 1, SeriesID = 7\<rparr>"] val(1,2) s(2)
  show ?thesis by (intro exI [of _ d] exI [of _ sv]) (simp add: in_range_def go_int)
qed

section \<open>A start that is refused\<close>

lemma flushLocked_refused:
  assumes ord: "iterates ordS" and inv: "mgr_inv m" "0 <s shEnd (last (shards m))" "m = dbShards (inDb inp)"
    and d: "dated m (byID (current (inMem inp)))" and mem: "mem_inv (inMem inp)" and sp: "spread m L (byID (current (inMem inp)))"
    and len: "Len (inMem inp) \<noteq> 0"
  shows "\<exists>ts a inp'. flushLocked ordS ordW s inp = (Some (ErrBeforeActive ts a), inp') \<and> inWal inp' = inWal inp"
proof -
  obtain groups m' where g: "groupByShard ordS (byID (current (inMem inp))) m = (groups, m')" by (rule prod.exhaust)
  obtain ts a db where "flush_groups ordS groups ((inDb inp)\<lparr>dbShards := m'\<rparr>) = (Some (ErrBeforeActive ts a), db)"
    using flush_groups_refused [OF ord inv(1,2) d mem_inv_sorted [OF mem] sp g, of "inDb inp"] by blast
  with g len inv(3) show ?thesis by (simp add: flushLocked_def Flush_def)
qed

lemma replayed_spread:
  fixes m :: manager
  assumes L: "\<exists>q \<in> set rs. L = aligned (window m) (rTS q)"
    and before: "\<forall>q \<in> set rs. L \<le>s rTS q \<longrightarrow>
      (\<exists>r \<in> set rs. rSeriesID r = rSeriesID q \<and> shStart (last (shards m)) \<le>s rTS r \<and> rTS r <s L)"
  shows "spread m L (byID (current (fold write_record rs NewMem)))"
proof -
  note at = replayed_points(2) [of rs]
  let ?mem = "fold write_record rs NewMem"
  have "\<exists>p \<in> set (series_of (byID (current ?mem)) sid). recent m p \<and> TS p <s L"
    if q: "q \<in> set (series_of (byID (current ?mem)) sid)" "L \<le>s TS q" for q sid
  proof -
    obtain x where x: "x \<in> set rs" "rSeriesID x = sid" "rTS x = TS q" using at q(1) by blast
    with before q(2) obtain r where r: "r \<in> set rs" "rSeriesID r = sid" "shStart (last (shards m)) \<le>s rTS r" "rTS r <s L"
      by metis
    with at obtain p where "p \<in> set (series_of (byID (current ?mem)) sid)" "TS p = rTS r" by blast
    with r show ?thesis by (intro bexI [of _ p]) (simp_all add: recent_def)
  qed
  moreover obtain q where q: "q \<in> set rs" "L = aligned (window m) (rTS q)" using L by blast
  moreover have "\<exists>p \<in> set (series_of (byID (current ?mem)) (rSeriesID q)). L = aligned (window m) (TS p)"
    using at q by metis
  ultimately show ?thesis unfolding spread_def by blast
qed

text \<open>
  A log is stuck at a clock reading when every series that it replays into the window at \<open>L\<close>
  or a later one also has a record between the start of the current window and \<open>L\<close>.
\<close>

definition stuck :: "config \<Rightarrow> int64 \<Rightarrow> int64 \<Rightarrow> wal_record list \<Rightarrow> bool" where
  "stuck cf now L rs \<longleftrightarrow> (\<exists>q \<in> set rs. L = aligned (cfWindow cf) (rTS q))
     \<and> (\<forall>q \<in> set rs. L \<le>s rTS q \<longrightarrow>
          (\<exists>r \<in> set rs. rSeriesID r = rSeriesID q \<and> aligned (cfWindow cf) now \<le>s rTS r \<and> rTS r <s L))"

lemma refused_start:
  assumes ch: "choices_ok ch" and now: "0 \<le>s now" "sint now + sint (cfWindow cf) < 2 ^ 63" "0 <s cfWindow cf"
    and log: "stopped_log from es d"
    and dates: "\<forall>r \<in> set (found from es). 0 \<le>s rTS r \<and> sint (rTS r) + sint (cfWindow cf) < 2 ^ 63"
    and stuck: "stuck cf now L (found from es)"
  shows "\<exists>ts a d'. boot ch cf now d = Inl (ErrBeforeActive ts a, d') \<and> stopped_log from es d'"
proof -
  let ?rs = "found from es"
  let ?mem = "fold write_record ?rs NewMem"
  have "?rs \<noteq> []" using stuck by (auto simp: stuck_def)
  then obtain w recs d' where w: "Wal_Open (push_bit 20 64) d = (Inr w, d')" "faults (wDisk w) = []" "wal_ok w recs"
      "log_readable w recs" "wal_entries w recs = es" "nextReplay w = from" "nextSeq w \<noteq> 0" "stopped_log from es (wDisk w)"
    using stopped_log_open [OF log] by metis
  have d: "os_call d = (None, d)" using log by (auto simp: stopped_log_def os_call_def next_fault_none)
  obtain m where m: "NewManager (cfWindow cf) now = Inr m" using now(3) by (simp add: NewManager_def go_int)
  then have ms: "window m = cfWindow cf" "shStart (last (shards m)) = aligned (cfWindow cf) now"
    by (auto simp: NewManager_def new_shard_def split: if_splits)
  let ?inp = "blank_ingest w m"
  have ok: "mgr_inv m" "0 <s shEnd (last (shards m))"
    using start_ok(1) [OF m now(2,1), of 1024 w 4096] by (simp_all add: pipeline_ok_def db_ok_def active_end_def)
  have dm: "dated m (byID (current ?mem))" "mem_inv ?mem"
    using replayed_dated [of ?rs m] dates ms(1) by (simp_all add: fits_def)
  have sp: "spread m L (byID (current ?mem))"
    by (rule replayed_spread) (use stuck ms in \<open>simp_all add: stuck_def\<close>)
  have len: "Len ?mem \<noteq> 0"
  proof
    assume "Len ?mem = 0"
    from empty_memtable(1) [OF dm(2) this] sp show False by (auto simp: spread_def series_of_def)
  qed
  obtain reg where rp: "ReplayUnflushed recover_record (NewMem, NewRegistry) w = ((None, ?mem, reg), w)"
    using Replay_readable [OF w(4,2), of "nextReplay w" recover_record "(NewMem, NewRegistry)"]
      deliver_recover [of ?rs NewMem NewRegistry] Replay_idle [OF w(2), of "nextReplay w" recover_record "(NewMem, NewRegistry)"]
      w(5,6)
    by (metis ReplayUnflushed_def prod.collapse)
  let ?inp1 = "?inp\<lparr>inMem := ?mem, inDb := (inDb ?inp)\<lparr>dbReg := reg\<rparr>, inWal := w\<rparr>"
  have "iterates (chSeries ch)" using ch by (simp add: choices_ok_def)
  then obtain ts a inp' where f: "flushLocked (chSeries ch) (chSegments ch) (nextSeq w - 1) ?inp1 = (Some (ErrBeforeActive ts a), inp')"
      "inWal inp' = w"
    using flushLocked_refused [OF _ ok _ _ _ _ , of "chSeries ch" ?inp1 L "chSegments ch" "nextSeq w - 1"] dm sp len by auto
  have "Recover (chSeries ch) (chSegments ch) ?inp = (Some (ErrBeforeActive ts a), inp')"
    using rp f(1) w(7) by (simp add: Recover_def Ingest_Flush_def Let_def)
  with d w(1,8) m f(2) show ?thesis by (simp add: boot_def Ingest_New_def)
qed

text \<open>A supervisor starts the process again each time it exits, until a start goes through.\<close>

fun restart_until :: "config \<Rightarrow> (choices \<times> int64) list \<Rightarrow> disk \<Rightarrow> disk + server" where
  "restart_until cf [] d = Inl d"
| "restart_until cf ((ch, now) # tries) d =
    (case boot ch cf now d of Inl (_, d') \<Rightarrow> restart_until cf tries d' | Inr sv \<Rightarrow> Inr sv)"

text \<open>
  C7. A server can lock itself out. When the log it left is stuck, the flush that ends the
  recovery asks the shard manager for a window before the active one, whatever the order in
  which the maps are visited, and is refused; the process exits with the log untouched. So no
  number of restarts brings the server up, for as long as the clock stays in windows at which
  the log is stuck.
\<close>

theorem restart_refused:
  assumes log: "stopped_log from es d"
    and dates: "\<forall>r \<in> set (found from es). 0 \<le>s rTS r \<and> sint (rTS r) + sint (cfWindow cf) < 2 ^ 63"
    and w: "0 <s cfWindow cf"
    and tries: "\<forall>(ch, now) \<in> set tries. choices_ok ch \<and> 0 \<le>s now \<and> sint now + sint (cfWindow cf) < 2 ^ 63
      \<and> (\<exists>L. stuck cf now L (found from es))"
  shows "\<exists>d'. restart_until cf tries d = Inl d' \<and> stopped_log from es d'"
  using log tries
proof (induction tries arbitrary: d)
  case (Cons t tries)
  obtain ch now where t: "t = (ch, now)" by (rule prod.exhaust)
  with Cons.prems obtain L where "choices_ok ch" "0 \<le>s now" "sint now + sint (cfWindow cf) < 2 ^ 63"
      "stuck cf now L (found from es)" by auto
  from refused_start [OF this(1-3) w Cons.prems(1) dates this(4)] obtain ts a d'
    where "boot ch cf now d = Inl (ErrBeforeActive ts a, d')" "stopped_log from es d'" by blast
  with Cons.IH [of d'] Cons.prems(2) t show ?case by simp
qed simp

theorem restart_refused_witness:
  "\<exists>d d'. stopped_log 0 [old_record, demo_record] d
    \<and> restart_until demo_config (replicate 1000 (demo_choices, 100)) d = Inl d'"
proof -
  obtain d where log: "stopped_log 0 [old_record, demo_record] d" by (rule demo_stopped)
  have al: "aligned 3600 7300 = 7200" "aligned 3600 100 = 0"
    by (simp_all add: aligned_def bucket_start_def go_rem_def signed_modulo_int_def)
  have "stuck demo_config 100 7200 (found 0 [old_record, demo_record])"
    unfolding demo_found by (simp add: stuck_def demo_config_def old_record_def demo_record_def al go_int)
  then have tries: "\<forall>(ch, now) \<in> set (replicate 1000 (demo_choices, 100)). choices_ok ch \<and> 0 \<le>s now
      \<and> sint now + sint (cfWindow demo_config) < 2 ^ 63 \<and> (\<exists>L. stuck demo_config now L (found 0 [old_record, demo_record]))"
    using demo_choices_ok by (auto simp: demo_config_def go_int)
  have "\<exists>d'. restart_until demo_config (replicate 1000 (demo_choices, 100)) d = Inl d'
      \<and> stopped_log 0 [old_record, demo_record] d'"
    by (rule restart_refused [OF log _ _ tries], unfold demo_found)
       (simp_all add: demo_config_def old_record_def demo_record_def go_int)
  with log show ?thesis by blast
qed

end
