(* ===== verification/Retained.thy ===== *)
theory Retained
  imports Restart
begin

text \<open>
  Where a running server keeps its points, and what its sweeps take away: in every state of a
  run the points are filed under their own series and a block's header gives their span, which
  is what makes the sweep's test on the header the right one.
\<close>

section \<open>Blocks of a running server\<close>

lemma run_store:
  assumes "server_run sv P"
  shows "store_ok (active_end (inDb (svIngest sv))) (dbStore (inDb (svIngest sv)))"
  using db_ok_store [OF server_db [OF run_ok [OF assms]]] .

lemma swept_readable:
  assumes "visits ids (blocks (dbStore db))" and "iterates ordB" and "Sweep ids ordB pol now db = (res, db')"
  shows "readable (dbStore db') bid =
    (case fmlookup (blocks (dbStore db)) bid of
       None \<Rightarrow> None
     | Some b \<Rightarrow> if bArchived b \<or> bMax b \<le>s Cutoff pol now then None else Some (bByID b))"
  using Sweep_parts(2) [OF assms, of bid]
  by (auto simp: readable_def swept_def mark_expired_def expired_def split: option.splits)

lemma swept_covering:
  assumes "visits ids (blocks (dbStore db))" and "iterates ordB" and "Sweep ids ordB pol now db = (res, db')"
  shows "covering_blocks rng (dbShards db') = covering_blocks rng (dbShards db)"
proof -
  have step: "shStart (archive_step c s) = shStart s" "shEnd (archive_step c s) = shEnd s"
      "Shard_Blocks (archive_step c s) = Shard_Blocks s" for c s
    by (simp_all add: archive_step_def Shard_Archive_def Shard_Blocks_def)
  have m: "dbShards db' = snd (ArchiveOlderThan (Cutoff pol now) (dbShards db))" by (rule Sweep_parts(3) [OF assms])
  have c: "ShardsCovering rng (dbShards db') = ShardsCovering rng (dbShards db)"
    unfolding ShardsCovering_def by (rule filter_cong) (simp_all add: m ArchiveOlderThan_def step)
  have "Shard_Blocks (shards (dbShards db') ! i) = Shard_Blocks (shards (dbShards db) ! i)"
    if "i \<in> set (ShardsCovering rng (dbShards db))" for i
    using that by (simp add: m ArchiveOlderThan_def step ShardsCovering_mem)
  then show ?thesis by (simp add: covering_blocks_def c cong: map_cong)
qed

lemma sweep_tick_parts:
  assumes "choices_ok ch"
  obtains ids res db' where "visits ids (blocks (dbStore (inDb (svIngest sv))))"
    "Sweep ids (chBlocks ch) (svRetention sv) now (inDb (svIngest sv)) = (res, db')"
    "dbStore (inDb (svIngest (sweep_tick ch now sv))) = dbStore db'"
    "dbShards (inDb (svIngest (sweep_tick ch now sv))) = dbShards db'"
    "inMem (svIngest (sweep_tick ch now sv)) = inMem (svIngest sv)"
proof -
  let ?db = "inDb (svIngest sv)" and ?ids = "chBlocks ch (blocks (dbStore (inDb (svIngest sv))))"
  obtain res db' where "Sweep ?ids (chBlocks ch) (svRetention sv) now ?db = (res, db')" by (rule prod.exhaust)
  moreover have "visits ?ids (blocks (dbStore ?db))" using assms by (intro iterates_visits) (simp add: choices_ok_def)
  ultimately show ?thesis
    using that by (simp add: sweep_tick_def sweep_pass_def with_db_def Let_def)
qed

section \<open>Properties\<close>

text \<open>
  C9. In every state of a run each point is filed under its own series, in the memtable and in
  every block, readable or not; a block is filed under its own id, its header gives the least
  and the greatest of its timestamps, and all of them lie before the active window ends.
\<close>

theorem points_in_place:
  assumes "server_run sv P" and "db = inDb (svIngest sv)"
  shows "(\<forall>p \<in> set (series_of (byID (current (inMem (svIngest sv)))) sid). SeriesID p = sid)
    \<and> (case fmlookup (blocks (dbStore db)) bid of
         None \<Rightarrow> True
       | Some b \<Rightarrow> bID b = bid
           \<and> (\<forall>p \<in> set (series_of (bByID b) sid).
                SeriesID p = sid \<and> bMin b \<le>s TS p \<and> TS p \<le>s bMax b \<and> TS p <s active_end db)
           \<and> (\<exists>k. bMin b \<in> TS ` set (series_of (bByID b) k)) \<and> (\<exists>k. bMax b \<in> TS ` set (series_of (bByID b) k)))"
proof (intro conjI)
  have mem: "mem_inv (inMem (svIngest sv))"
    using run_ok [OF assms(1)] by (simp add: server_ok_def pipeline_ok_def ingest_inv_def)
  show "\<forall>p \<in> set (series_of (byID (current (inMem (svIngest sv)))) sid). SeriesID p = sid"
    using mem_inv_own [OF mem] by blast
  have st: "store_ok (active_end db) (dbStore db)" using run_store [OF assms(1)] assms(2) by simp
  show "case fmlookup (blocks (dbStore db)) bid of None \<Rightarrow> True | Some b \<Rightarrow> bID b = bid
      \<and> (\<forall>p \<in> set (series_of (bByID b) sid). SeriesID p = sid \<and> bMin b \<le>s TS p \<and> TS p \<le>s bMax b \<and> TS p <s active_end db)
      \<and> (\<exists>k. bMin b \<in> TS ` set (series_of (bByID b) k)) \<and> (\<exists>k. bMax b \<in> TS ` set (series_of (bByID b) k))"
  proof (cases "fmlookup (blocks (dbStore db)) bid")
    case (Some b)
    have "bID b = bid" using st Some by (auto simp: store_ok_def store_inv_def fmpred_iff)
    moreover note block_series [OF st Some]
    then have "TS p <s active_end db" if "p \<in> set (series_of (bByID b) sid)" for p
      using that by (cases "fmlookup (bByID b) sid") (auto simp: series_of_def fmpred_iff)
    ultimately show ?thesis using Some block_series(3) [OF st Some] by (auto simp: headed_def)
  qed simp
qed

text \<open>A server that has replayed a log: its points lie in a block.\<close>

lemma flushLocked_drains: "Len (inMem (snd (flushLocked ordS ordW s inp))) = 0"
  by (simp add: flushLocked_def Flush_def Len_def Let_def split: prod.split option.split)

lemma Recover_drains:
  assumes "Recover ordS ordW inp = (None, inp')" and "nextSeq (inWal inp) \<noteq> 0"
  shows "Len (inMem inp') = 0"
proof -
  obtain e mem reg w where rp: "ReplayUnflushed recover_record (inMem inp, dbReg (inDb inp)) (inWal inp) = ((e, mem, reg), w)"
    by (metis prod.exhaust)
  have "nextSeq w = nextSeq (inWal inp)"
    using rp Replay_counters(1) [of "nextReplay (inWal inp)" recover_record "(inMem inp, dbReg (inDb inp))" "inWal inp"]
    by (simp add: ReplayUnflushed_def)
  with rp assms show ?thesis
    by (cases e) (auto simp: Recover_def Ingest_Flush_def Let_def dest: arg_cong [where f = "\<lambda>x. Len (inMem (snd x))"]
      simp: flushLocked_drains)
qed

lemma replayed_server:
  obtains d sv where "boot demo_choices demo_config 7300 d = Inr sv" "server_run sv {#}"
    "\<lparr>TS = 7300, Value = 0, SeriesID = 7\<rparr> \<in> set (visible 7 \<lparr>Start = 0, End = 9999\<rparr> (svIngest sv))"
    "byID (current (inMem (svIngest sv))) = fmempty"
proof -
  obtain d w d' recs sv where s: "good_log demo_config 7300 d recs" "boot demo_choices demo_config 7300 d = Inr sv"
      "Wal_Open (push_bit 20 64) d = (Inr w, d')" "nextSeq w \<noteq> 0"
      "found (nextReplay w) (wal_entries w recs) = [old_record, demo_record]" "log_dated demo_config d" by (rule second_start)
  note val = second_values [OF s(5)]
  have run: "server_run sv {#}" by (rule server_run.started [OF demo_choices_ok s(6) _ val(3) s(2)]) (simp add: go_int)
  have "\<lparr>TS = 7300, Value = 0, SeriesID = 7\<rparr> \<in> set (visible 7 \<lparr>Start = 0, End = 9999\<rparr> (svIngest sv))"
    using restart_sees [OF demo_choices_ok s(1,2) _ val(3) s(3,4)] val(1,2) by (simp add: in_range_def go_int)
  moreover have "byID (current (inMem (svIngest sv))) = fmempty"
  proof (rule boot_parts [OF s(2)])
    fix d1 w1 d2 m inp
    assume o: "os_call d = (None, d1)" "Wal_Open (push_bit 20 64) d1 = (Inr w1, d2)"
      and r: "Recover (chSeries demo_choices) (chSegments demo_choices) (blank_ingest w1 m) = (None, inp)"
      and sv: "svIngest sv = set_gauge ''shards'' (word_of_nat (shard_Count (dbShards (inDb inp)))) inp"
    have "d1 = d" using o(1) s(1) by (simp add: good_log_def os_call_def next_fault_none)
    then have "nextSeq (inWal (blank_ingest w1 m)) \<noteq> 0" using o(2) s(3,4) by simp
    from Recover_drains [OF r this] have "Len (inMem (svIngest sv)) = 0" by (simp add: sv set_gauge_def)
    moreover have "mem_inv (inMem (svIngest sv))"
      using run_ok [OF run] by (simp add: server_ok_def pipeline_ok_def ingest_inv_def)
    ultimately show ?thesis using empty_memtable(1) by blast
  qed
  ultimately show ?thesis using that s(2) run by blast
qed

theorem points_in_place_witness:
  "\<exists>sv bid b. server_run sv {#} \<and> fmlookup (blocks (dbStore (inDb (svIngest sv)))) bid = Some b
    \<and> \<lparr>TS = 7300, Value = 0, SeriesID = 7\<rparr> \<in> set (series_of (bByID b) 7) \<and> bMin b \<le>s 7300 \<and> 7300 \<le>s bMax b"
proof -
  let ?p = "\<lparr>TS = 7300, Value = 0, SeriesID = 7\<rparr> :: point"
  obtain d sv where r: "server_run sv {#}" "?p \<in> set (visible 7 \<lparr>Start = 0, End = 9999\<rparr> (svIngest sv))"
      "byID (current (inMem (svIngest sv))) = fmempty" by (rule replayed_server)
  then obtain bid b where b: "fmlookup (blocks (dbStore (inDb (svIngest sv)))) bid = Some b" "?p \<in> set (series_of (bByID b) 7)"
    by (auto simp: visible_def matching_points_def series_of_def [of fmempty] block_points_def readable_def
        split: option.splits if_splits)
  with points_in_place [OF r(1) refl, of 7 bid] r(1) show ?thesis by force
qed

text \<open>
  C18. What retention takes from a running server. A sweep shows queries no new point, and
  takes from them no point that is younger than the cutoff; every block that is still readable
  afterwards holds such a point. Points at or before the cutoff stay only in those blocks and
  in the memtable. So a block whose newest point lies exactly at the cutoff is taken away with
  it, although the comment on \<open>Cutoff\<close> calls the cutoff the oldest timestamp that must be
  retained.
\<close>

theorem sweep_on_a_run:
  assumes run: "server_run sv P" and ch: "choices_ok ch"
    and cut: "cutoff = Cutoff (svRetention sv) now" and sv': "sv' = sweep_tick ch now sv"
  shows "set (visible sid rng (svIngest sv')) \<subseteq> set (visible sid rng (svIngest sv))
    \<and> (\<forall>p \<in> set (visible sid rng (svIngest sv)). cutoff <s TS p \<longrightarrow> p \<in> set (visible sid rng (svIngest sv')))
    \<and> (\<forall>m. readable (dbStore (inDb (svIngest sv'))) bid = Some m \<longrightarrow> (\<exists>k. \<exists>p \<in> set (series_of m k). cutoff <s TS p))"
proof -
  let ?db = "inDb (svIngest sv)"
  obtain ids res db' where s: "visits ids (blocks (dbStore ?db))" "Sweep ids (chBlocks ch) (svRetention sv) now ?db = (res, db')"
      "dbStore (inDb (svIngest sv')) = dbStore db'" "dbShards (inDb (svIngest sv')) = dbShards db'"
      "inMem (svIngest sv') = inMem (svIngest sv)"
    unfolding sv' by (rule sweep_tick_parts [OF ch])
  have ord: "iterates (chBlocks ch)" using ch by (simp add: choices_ok_def)
  note rd = swept_readable [OF s(1) ord s(2), folded cut]
  have st: "store_ok (active_end ?db) (dbStore ?db)" by (rule run_store [OF run])
  have pts: "block_points k rng (dbStore db') id = (case fmlookup (blocks (dbStore ?db)) id of
      Some b \<Rightarrow> if bArchived b \<or> bMax b \<le>s cutoff then [] else filter (in_range rng) (series_of (bByID b) k) | None \<Rightarrow> [])"
    "block_points k rng (dbStore ?db) id = (case fmlookup (blocks (dbStore ?db)) id of
      Some b \<Rightarrow> if bArchived b then [] else filter (in_range rng) (series_of (bByID b) k) | None \<Rightarrow> [])" for k id
    by (simp_all add: block_points_def rd, simp_all add: readable_def split: option.split)
  have vis: "visible sid rng (svIngest sv') = filter (in_range rng) (series_of (byID (current (inMem (svIngest sv)))) sid)
      @ concat (map (block_points sid rng (dbStore db')) (covering_blocks rng (dbShards ?db)))"
    by (simp add: visible_def matching_points_def s swept_covering [OF s(1) ord s(2)])
  have old: "visible sid rng (svIngest sv) = filter (in_range rng) (series_of (byID (current (inMem (svIngest sv)))) sid)
      @ concat (map (block_points sid rng (dbStore ?db)) (covering_blocks rng (dbShards ?db)))"
    by (simp add: visible_def matching_points_def)
  have less: "set (block_points sid rng (dbStore db') id) \<subseteq> set (block_points sid rng (dbStore ?db) id)" for id
    by (auto simp: pts split: option.splits if_splits)
  have young: "p \<in> set (block_points sid rng (dbStore db') id)"
    if p: "p \<in> set (block_points sid rng (dbStore ?db) id)" "cutoff <s TS p" for p id
  proof -
    obtain b where b: "fmlookup (blocks (dbStore ?db)) id = Some b" "\<not> bArchived b"
        "p \<in> set (filter (in_range rng) (series_of (bByID b) sid))"
      using p(1) by (cases "fmlookup (blocks (dbStore ?db)) id") (auto simp: pts split: if_splits)
    then have "TS p \<le>s bMax b" using block_series(3) [OF st b(1)] by (auto simp: headed_def)
    with b p(2) show ?thesis by (simp add: pts go_int)
  qed
  have kept: "\<exists>k. \<exists>p \<in> set (series_of m k). cutoff <s TS p" if "readable (dbStore db') bid = Some m" for m
  proof -
    obtain b where b: "fmlookup (blocks (dbStore ?db)) bid = Some b" "\<not> bMax b \<le>s cutoff" "m = bByID b"
      using \<open>readable (dbStore db') bid = Some m\<close>
      by (cases "fmlookup (blocks (dbStore ?db)) bid") (auto simp: rd split: if_splits)
    then obtain k p where "p \<in> set (series_of m k)" "bMax b = TS p"
      using block_series(3) [OF st b(1)] by (auto simp: headed_def)
    with b(2) show ?thesis by (force simp: go_int)
  qed
  show ?thesis
  proof (intro conjI ballI impI allI)
    show "set (visible sid rng (svIngest sv')) \<subseteq> set (visible sid rng (svIngest sv))"
      unfolding vis old using less by fastforce
    show "p \<in> set (visible sid rng (svIngest sv'))" if "p \<in> set (visible sid rng (svIngest sv))" "cutoff <s TS p" for p
      using that young [of p] unfolding vis old by auto
  qed (use kept s(3) in simp)
qed

theorem sweep_on_a_run_witness:
  "\<exists>d sv. boot demo_choices demo_config 7300 d = Inr sv
    \<and> \<lparr>TS = 7300, Value = 0, SeriesID = 7\<rparr>
        \<in> set (visible 7 \<lparr>Start = 0, End = 9999\<rparr> (svIngest (sweep_tick demo_choices 16000 sv)))"
proof -
  let ?p = "\<lparr>TS = 7300, Value = 0, SeriesID = 7\<rparr> :: point"
  obtain d sv where r: "boot demo_choices demo_config 7300 d = Inr sv" "server_run sv {#}"
      "?p \<in> set (visible 7 \<lparr>Start = 0, End = 9999\<rparr> (svIngest sv))" by (rule replayed_server)
  have "svRetention sv = \<lparr>MaxAge = cfRetention demo_config, SweepStep = minute\<rparr>"
    by (rule boot_parts [OF r(1)])
  then have "Cutoff (svRetention sv) 16000 <s TS ?p" by (simp add: Cutoff_def demo_config_def go_int)
  with sweep_on_a_run [OF r(2) demo_choices_ok refl refl, of 7 "\<lparr>Start = 0, End = 9999\<rparr>" 16000] r show ?thesis by blast
qed

end
