(* ===== verification/QueryOverlap.thy ===== *)
theory QueryOverlap
  imports IngestFlow
begin

text \<open>
  A query while other operations run. The engine takes no lock that a writer takes, so between
  any two of its calls on the memtable, the shard manager and the store, every other operation
  may take steps of its own. The steps here are the calls that hold one of the three mutexes:
  \<open>world_step\<close> for the others, \<open>query_step\<close> for \<open>collect\<close>.

  The read of the memtable is two steps: \<open>Latest\<close> pins the snapshot and gives its lock back, and
  \<open>Range\<close> then reads the snapshot's slices without a lock. A flush may swap the snapshot out in
  between, which leaves its points alone. An append in between would insert into the slice that
  is being read, a data race (\<open>racing_read_misses\<close> in \<open>Memtable\<close> shows what it can do); the runs
  here have none (\<open>points_alone\<close>).
\<close>

section \<open>Steps\<close>

record world =
  wStore :: store
  wHeld :: "block_id multiset"
  wShards :: manager
  wMem :: memtable

definition unpinned :: "memtable \<Rightarrow> memtable" where
  "unpinned m = m\<lparr>current := the (Release (Some (current m)))\<rparr>"

text \<open>What flushes, compactions, sweeps, rotations, appends and other queries do, call by call.\<close>

inductive world_step :: "world \<Rightarrow> world \<Rightarrow> bool" where
  on_store: "reader_step (wStore w, wHeld w) (s, hs) \<Longrightarrow> blocks_sorted s \<Longrightarrow> world_step w (w\<lparr>wStore := s, wHeld := hs\<rparr>)"
| route: "world_step w (w\<lparr>wShards := snd (Route ts (wShards w))\<rparr>)"
| add_block: "world_step w (w\<lparr>wShards := on_shard i (AddBlock bid) (wShards w)\<rparr>)"
| rotate: "world_step w (w\<lparr>wShards := snd (ForceRotate (wShards w))\<rparr>)"
| archive_shards: "world_step w (w\<lparr>wShards := snd (ArchiveOlderThan ts (wShards w))\<rparr>)"
| buffer: "world_step w (w\<lparr>wMem := Write p (wMem w)\<rparr>)"
| swap: "world_step w (w\<lparr>wMem := snd (Flush (wMem w))\<rparr>)"
| pin: "world_step w (w\<lparr>wMem := snd (Latest (wMem w))\<rparr>)"
| unpin: "world_step w (w\<lparr>wMem := unpinned (wMem w)\<rparr>)"

text \<open>
  The step leaves the points of the live snapshot as they are, or swaps it out as a whole, or the
  live snapshot is no longer the one that is read: no append goes into a slice under a reader.
\<close>

definition points_alone :: "snapshot \<Rightarrow> world \<Rightarrow> world \<Rightarrow> bool" where
  "points_alone snap w w' \<longleftrightarrow>
     byID (current (wMem w')) = byID (current (wMem w)) \<or> wMem w' = snd (Flush (wMem w))
     \<or> byID (current (wMem w)) \<noteq> byID snap"

text \<open>
  Where a query is: the snapshot it has pinned and reads, or the blocks of the current shard
  still to read, the shards after it, the points so far.
\<close>

datatype query_pc =
    Asked
  | Reading snapshot
  | Buffered "point list"
  | Walking "block_id list" "nat list" "point list"
  | Holding block_id "block_id list" "nat list" "point list"
  | Releasing block_id "block_id list" "nat list" "point list"
  | Answered "point list"

fun held :: "query_pc \<Rightarrow> block_id multiset" where
  "held (Holding h bids is pts) = {#h#}"
| "held (Releasing h bids is pts) = {#h#}"
| "held _ = {#}"

text \<open>
  \<open>Release\<close> takes the reference back from the snapshot that was pinned: the live one, or one that
  a flush has swapped out and that the model does not keep. The counters are read by nothing.
\<close>

inductive query_step ::
  "(point list \<Rightarrow> point list) \<Rightarrow> uint64 \<Rightarrow> query_range \<Rightarrow> world \<times> query_pc \<Rightarrow> world \<times> query_pc \<Rightarrow> bool"
  for srt sid rng where
  pin_mem: "Latest (wMem w) = (Some snap, m) \<Longrightarrow> query_step srt sid rng (w, Asked) (w\<lparr>wMem := m\<rparr>, Reading snap)"
| read_live: "snapshot_Range (Some snap) sid rng = Inr pts \<Longrightarrow>
    query_step srt sid rng (w, Reading snap) (w\<lparr>wMem := unpinned (wMem w)\<rparr>, Buffered pts)"
| read_swapped: "snapshot_Range (Some snap) sid rng = Inr pts \<Longrightarrow>
    query_step srt sid rng (w, Reading snap) (w, Buffered pts)"
| list_shards: "query_step srt sid rng (w, Buffered pts) (w, Walking [] (ShardsCovering rng (wShards w)) pts)"
| next_shard: "query_step srt sid rng (w, Walking [] (i # is) pts) (w, Walking (Shard_Blocks (shards (wShards w) ! i)) is pts)"
| open_block: "Open bid (wStore w) = (Inr (Some h), s) \<Longrightarrow>
    query_step srt sid rng (w, Walking (bid # bids) is pts) (w\<lparr>wStore := s\<rparr>, Holding h bids is pts)"
| skip_block: "Open bid (wStore w) = (r, s) \<Longrightarrow> (\<forall>h. r \<noteq> Inr (Some h)) \<Longrightarrow>
    query_step srt sid rng (w, Walking (bid # bids) is pts) (w\<lparr>wStore := s\<rparr>, Walking bids is pts)"
| read_block: "fmlookup (blocks (wStore w)) h = Some b \<Longrightarrow> Block_Range sid rng b = Inr out \<Longrightarrow>
    query_step srt sid rng (w, Holding h bids is pts) (w, Releasing h bids is (pts @ out))"
| close_block: "query_step srt sid rng (w, Releasing h bids is pts) (w\<lparr>wStore := Close h (wStore w)\<rparr>, Walking bids is pts)"
| finish: "query_step srt sid rng (w, Walking [] [] pts) (w, Answered (srt pts))"

definition world_ok :: "block_id multiset \<Rightarrow> world \<Rightarrow> bool" where
  "world_ok own w \<longleftrightarrow> reader_inv (wStore w, wHeld w + own) \<and> blocks_sorted (wStore w) \<and> mem_inv (wMem w)"

text \<open>A query in progress, with the states passed since it was asked, the present one first.\<close>

inductive overlapped :: "(point list \<Rightarrow> point list) \<Rightarrow> uint64 \<Rightarrow> query_range \<Rightarrow> world list \<Rightarrow> query_pc \<Rightarrow> bool"
  for srt sid rng where
  asked: "world_ok {#} w \<Longrightarrow> overlapped srt sid rng [w] Asked"
| others: "overlapped srt sid rng (w # ws) pc \<Longrightarrow> world_step w w' \<Longrightarrow> (\<forall>snap. pc = Reading snap \<longrightarrow> points_alone snap w w')
    \<Longrightarrow> overlapped srt sid rng (w' # w # ws) pc"
| own: "overlapped srt sid rng (w # ws) pc \<Longrightarrow> query_step srt sid rng (w, pc) (w', pc')
    \<Longrightarrow> overlapped srt sid rng (w' # w # ws) pc'"

section \<open>What the steps keep\<close>

text \<open>Pins only count.\<close>

lemma pinned_points [simp]:
  "byID (current (snd (Latest m))) = byID (current m)" "byID (current (unpinned m)) = byID (current m)"
  by (simp_all add: Latest_def unpinned_def)

lemma pinned_inv: "mem_inv (snd (Latest m)) = mem_inv m" "mem_inv (unpinned m) = mem_inv m"
  by (simp_all add: Latest_def unpinned_def mem_inv_def span_ok_def)

lemma Latest_keeps: "Latest m = (r, m') \<Longrightarrow> mem_inv m' = mem_inv m"
  using pinned_inv(1) [of m] by simp

lemma unpinned_Latest [simp]: "unpinned (snd (Latest m)) = m"
  by (simp add: Latest_def unpinned_def)

text \<open>A step of the others does not touch a handle they do not hold.\<close>

lemma reader_step_frame:
  assumes "reader_step x y"
  shows "reader_step (fst x, snd x + own) (fst y, snd y + own)"
  using assms
proof (induction rule: reader_step.induct)
  case (close_block h hs s)
  then have "hs + own - {#h#} = hs - {#h#} + own" by (metis diff_union_single_conv add.commute)
  then show ?case using reader_step.close_block [of h "hs + own" s] close_block by simp
qed (auto intro: reader_step.intros)

text \<open>Blocks never change their points, and an id is never given again.\<close>

lemma reader_step_content:
  assumes "reader_step x y" and "reader_inv x" and "fmlookup (blocks (fst x)) k = Some b" and "fmlookup (blocks (fst y)) k = Some b'"
  shows "bByID b' = bByID b"
  using assms
proof (induction rule: reader_step.induct)
  case (create s hs m mn mx)
  have "store_inv s" using create.prems(1) by (simp add: reader_inv_def)
  from Create_fresh [OF this create.hyps] create.prems show ?case by (auto simp: Create_spec split: if_splits)
next
  case (open_block bid s h s' hs)
  then show ?case by (cases rule: Open_cases [of s bid]) (auto simp: on_block_lookup split: if_splits)
next
  case (open_fails bid s r s' hs)
  then show ?case by (cases rule: Open_cases [of s bid]) auto
next
  case (reclaim ks s hs)
  then show ?case by (auto simp: Reclaim_spec split: if_splits)
qed (auto simp: MarkArchived_on_block Close_def on_block_lookup split: if_splits)

lemma world_step_store:
  assumes "world_step w w'"
  shows "wStore w' = wStore w \<and> wHeld w' = wHeld w \<or> reader_step (wStore w, wHeld w) (wStore w', wHeld w') \<and> blocks_sorted (wStore w')"
  using assms by (cases rule: world_step.cases) auto

lemma world_step_ok:
  assumes "world_step w w'" and "world_ok own w"
  shows "world_ok own w'"
proof -
  have "mem_inv (wMem w')"
    using assms by (cases rule: world_step.cases) (simp_all add: world_ok_def Write_inv Flush_inv pinned_inv)
  then show ?thesis
    using world_step_store [OF assms(1)] assms(2) reader_step_inv reader_step_frame [of "(wStore w, wHeld w)" "(wStore w', wHeld w')" own]
    by (auto simp: world_ok_def)
qed

lemma world_step_shards: "world_step w w' \<Longrightarrow> advances (wShards w) (wShards w')"
  by (cases rule: world_step.cases)
     (auto simp: advances_refl Route_advances ForceRotate_advances ArchiveOlderThan_advances 
      advances_on_shard [OF moves_on_ops(4)])

lemma advances_at:
  assumes "advances m m'" and "i < length (shards m)"
  shows "i < length (shards m')" "moves_on (shards m ! i) (shards m' ! i)"
  using assms by (auto simp: advances_def list_all2_conv_all_nth)

lemma moves_on_blocks: "moves_on s s' \<Longrightarrow> set (Shard_Blocks s) \<subseteq> set (Shard_Blocks s')"
  unfolding moves_on_def Shard_Blocks_def by (metis set_take_subset)

lemma advances_covering:
  assumes "advances m m'"
  shows "set (ShardsCovering rng m) \<subseteq> set (ShardsCovering rng m')"
    and "set (covering_blocks rng m) \<subseteq> set (covering_blocks rng m')"
proof -
  show s: "set (ShardsCovering rng m) \<subseteq> set (ShardsCovering rng m')"
    using advances_at [OF assms] by (auto simp: ShardsCovering_mem moves_on_def)
  show "set (covering_blocks rng m) \<subseteq> set (covering_blocks rng m')"
  proof
    fix bid
    assume "bid \<in> set (covering_blocks rng m)"
    then obtain i where i: "i \<in> set (ShardsCovering rng m)" "bid \<in> set (Shard_Blocks (shards m ! i))"
      by (auto simp: covering_blocks_def)
    then have "i < length (shards m)" by (simp add: ShardsCovering_mem)
    from moves_on_blocks [OF advances_at(2) [OF assms this]] i s show "bid \<in> set (covering_blocks rng m')"
      by (auto simp: covering_blocks_def)
  qed
qed

lemma query_step_frame:
  "query_step srt sid rng (w, pc) (w', pc') \<Longrightarrow> wHeld w' = wHeld w \<and> wShards w' = wShards w \<and> mem_inv (wMem w') = mem_inv (wMem w)"
  by (erule query_step.cases) (auto simp: pinned_inv dest: Latest_keeps)

text \<open>Each step of the query on the store is a step of a reader.\<close>

lemma query_step_reader:
  assumes "query_step srt sid rng (w, pc) (w', pc')"
  shows "wStore w' = wStore w \<and> held pc' = held pc
    \<or> reader_step (wStore w, wHeld w + held pc) (wStore w', wHeld w + held pc')"
  using assms
proof (cases rule: query_step.cases)
  case (open_block bid h s bids "is" pts)
  then show ?thesis using reader_step.open_block [of bid "wStore w" h s "wHeld w"] by simp
next
  case (skip_block bid r s bids "is" pts)
  then show ?thesis using reader_step.open_fails [of bid "wStore w" r s "wHeld w"] by simp
next
  case (close_block h bids "is" pts)
  then show ?thesis using reader_step.close_block [of h "add_mset h (wHeld w)" "wStore w"] by simp
qed auto

lemma query_step_ok:
  assumes st: "query_step srt sid rng (w, pc) (w', pc')" and ok: "world_ok (held pc) w"
  shows "world_ok (held pc') w'"
proof -
  have "blocks_sorted (wStore w')"
    using st
  proof (cases rule: query_step.cases)
    case (open_block bid h s bids "is" pts)
    then show ?thesis
      using ok by (cases rule: Open_cases [of "wStore w" bid])
        (auto simp: world_ok_def blocks_sorted_def fmpred_iff on_block_lookup split: if_splits)
  next
    case (skip_block bid r s bids "is" pts)
    then show ?thesis using ok by (cases rule: Open_cases [of "wStore w" bid]) (auto simp: world_ok_def)
  next
    case (close_block h bids "is" pts)
    then show ?thesis
      using ok by (auto simp: world_ok_def blocks_sorted_def fmpred_iff Close_def on_block_lookup Block_Release_def split: if_splits)
  qed (use ok in \<open>auto simp: world_ok_def\<close>)
  with query_step_frame [OF st] query_step_reader [OF st] ok reader_step_inv show ?thesis
    by (auto simp: world_ok_def)
qed

lemma overlapped_ok: "overlapped srt sid rng ws pc \<Longrightarrow> \<exists>w ws'. ws = w # ws' \<and> world_ok (held pc) w"
  by (induction rule: overlapped.induct) (auto simp: world_step_ok query_step_ok)

text \<open>Whoever takes a step, the points of a block stay the same.\<close>

lemma step_content:
  assumes ok: "world_ok (held pc) w" and st: "world_step w w' \<and> pc' = pc \<or> query_step srt sid rng (w, pc) (w', pc')"
    and l: "fmlookup (blocks (wStore w)) k = Some b" "fmlookup (blocks (wStore w')) k = Some b'"
  shows "bByID b' = bByID b"
proof -
  have inv: "reader_inv (wStore w, wHeld w + held pc)" using ok by (simp add: world_ok_def)
  consider "wStore w' = wStore w" | y where "reader_step (wStore w, wHeld w + held pc) y" "fst y = wStore w'"
    using st world_step_store reader_step_frame [of "(wStore w, wHeld w)" "(wStore w', wHeld w')" "held pc"]
      query_step_reader by fastforce
  then show ?thesis
    by cases (use l reader_step_content [OF _ inv] in \<open>auto simp: prod_eq_iff\<close>)
qed

lemma held_there:
  assumes "world_ok (held pc) w" and "h \<in># held pc"
  obtains b where "fmlookup (blocks (wStore w)) h = Some b"
  using assms by (auto simp: world_ok_def reader_inv_def)

section \<open>What an overlapped query answers\<close>

text \<open>What a query would collect if nothing ran beside it from now on.\<close>

definition moment :: "uint64 \<Rightarrow> query_range \<Rightarrow> world \<Rightarrow> point set" where
  "moment sid rng w = set (matching_points sid rng (wMem w) (wShards w) (wStore w))"

definition moments :: "uint64 \<Rightarrow> query_range \<Rightarrow> world list \<Rightarrow> point set" where
  "moments sid rng ws = (\<Union>w \<in> set ws. moment sid rng w)"

definition in_block :: "uint64 \<Rightarrow> query_range \<Rightarrow> block_id \<Rightarrow> world \<Rightarrow> point set" where
  "in_block sid rng bid w =
     (if bid \<in> set (covering_blocks rng (wShards w)) then set (block_points sid rng (wStore w) bid) else {})"

definition in_memory :: "uint64 \<Rightarrow> query_range \<Rightarrow> world \<Rightarrow> point set" where
  "in_memory sid rng w = set (filter (in_range rng) (series_of (byID (current (wMem w))) sid))"

lemma moment_parts: "moment sid rng w = in_memory sid rng w \<union> (\<Union>bid. in_block sid rng bid w)"
  by (auto simp: moment_def matching_points_def in_memory_def in_block_def split: if_splits)

text \<open>The points that lie in one place, in memory or in one block, in all the states passed.\<close>

definition settled :: "uint64 \<Rightarrow> query_range \<Rightarrow> world list \<Rightarrow> point set" where
  "settled sid rng ws = (\<Inter>w \<in> set ws. in_memory sid rng w) \<union> (\<Union>bid. \<Inter>w \<in> set ws. in_block sid rng bid w)"

definition ahead :: "world \<Rightarrow> block_id list \<Rightarrow> nat list \<Rightarrow> block_id set" where
  "ahead w bids is = set bids \<union> (\<Union>i \<in> set is. set (Shard_Blocks (shards (wShards w) ! i)))"

definition walks :: "uint64 \<Rightarrow> query_range \<Rightarrow> world list \<Rightarrow> world \<Rightarrow> block_id set \<Rightarrow> block_id list \<Rightarrow> nat list \<Rightarrow> point list \<Rightarrow> bool" where
  "walks sid rng ws w extra bids is pts \<longleftrightarrow> set pts \<subseteq> moments sid rng ws
     \<and> set bids \<subseteq> set (covering_blocks rng (wShards w)) \<and> set is \<subseteq> set (ShardsCovering rng (wShards w))
     \<and> (\<Inter>w \<in> set ws. in_memory sid rng w) \<subseteq> set pts
     \<and> (\<forall>bid. bid \<notin> ahead w bids is \<union> extra \<longrightarrow> (\<Inter>w \<in> set ws. in_block sid rng bid w) \<subseteq> set pts)"

fun query_inv :: "uint64 \<Rightarrow> query_range \<Rightarrow> world list \<Rightarrow> world \<Rightarrow> query_pc \<Rightarrow> bool" where
  "query_inv sid rng ws w Asked = True"
| "query_inv sid rng ws w (Reading snap) = (time_sorted (series_of (byID snap) sid)
     \<and> set (filter (in_range rng) (series_of (byID snap) sid)) \<subseteq> moments sid rng ws
     \<and> (\<Inter>w \<in> set ws. in_memory sid rng w) \<subseteq> set (filter (in_range rng) (series_of (byID snap) sid)))"
| "query_inv sid rng ws w (Buffered pts) =
     (set pts \<subseteq> moments sid rng ws \<and> (\<Inter>w \<in> set ws. in_memory sid rng w) \<subseteq> set pts)"
| "query_inv sid rng ws w (Walking bids is pts) = walks sid rng ws w {} bids is pts"
| "query_inv sid rng ws w (Holding h bids is pts) = (walks sid rng ws w {h} bids is pts
     \<and> (\<forall>b. fmlookup (blocks (wStore w)) h = Some b \<longrightarrow>
          set (filter (in_range rng) (series_of (bByID b) sid)) \<subseteq> moments sid rng ws))"
| "query_inv sid rng ws w (Releasing h bids is pts) = walks sid rng ws w {} bids is pts"
| "query_inv sid rng ws w (Answered pts) = (set pts \<subseteq> moments sid rng ws \<and> settled sid rng ws \<subseteq> set pts)"

lemma moments_Cons: "moments sid rng (w # ws) = moment sid rng w \<union> moments sid rng ws"
  by (simp add: moments_def)

lemma moments_mono: "moments sid rng ws \<subseteq> moments sid rng (w # ws)"
  by (auto simp: moments_def)

lemma ahead_mono:
  assumes "advances (wShards w) (wShards w')" and "set is \<subseteq> set (ShardsCovering rng (wShards w))"
  shows "ahead w bids is \<subseteq> ahead w' bids is"
proof -
  have "set (Shard_Blocks (shards (wShards w) ! i)) \<subseteq> set (Shard_Blocks (shards (wShards w') ! i))" if "i \<in> set is" for i
  proof -
    from that assms(2) have "i \<in> set (ShardsCovering rng (wShards w))" by blast
    then have "i < length (shards (wShards w))" by (simp add: ShardsCovering_mem)
    from moves_on_blocks [OF advances_at(2) [OF assms(1) this]] show ?thesis .
  qed
  then show ?thesis unfolding ahead_def by blast
qed

lemma walks_mono:
  assumes w: "walks sid rng ws w extra bids is pts" and adv: "advances (wShards w) (wShards w')"
  shows "walks sid rng (w' # ws) w' extra bids is pts"
proof -
  have "bid \<notin> ahead w bids is" if "bid \<notin> ahead w' bids is" for bid
    using that ahead_mono [OF adv, of "is" rng bids] w by (auto simp: walks_def)
  then have "(\<Inter>w \<in> set (w' # ws). in_block sid rng bid w) \<subseteq> set pts" if "bid \<notin> ahead w' bids is \<union> extra" for bid
    using that w unfolding walks_def by (metis (no_types, lifting) INT_lower UnCI UnE dual_order.trans INF_superset_mono set_subset_Cons order_refl)
  moreover have "(\<Inter>w \<in> set (w' # ws). in_memory sid rng w) \<subseteq> set pts"
    using w by (auto simp: walks_def)
  ultimately show ?thesis
    using w advances_covering [OF adv, of rng] moments_mono [of sid rng ws w'] unfolding walks_def by blast
qed

lemma settled_anti: "ws \<noteq> [] \<Longrightarrow> settled sid rng (w # ws) \<subseteq> settled sid rng ws"
  by (auto simp: settled_def)

lemma others_inv:
  assumes inv: "query_inv sid rng (w # ws) w pc" and st: "world_step w w'" and ok: "world_ok (held pc) w"
  shows "query_inv sid rng (w' # w # ws) w' pc"
proof (cases pc)
  case (Holding h bids "is" pts)
  note W = walks_mono [OF _ world_step_shards [OF st]]
  obtain b where b: "fmlookup (blocks (wStore w)) h = Some b"
    using held_there [OF ok, of h] by (auto simp: Holding)
  have "bByID b' = bByID b" if "fmlookup (blocks (wStore w')) h = Some b'" for b'
    using step_content [OF ok disjI1, of w' pc] st b that by blast
  with inv b W moments_mono [of sid rng "w # ws" w'] show ?thesis unfolding Holding query_inv.simps by (metis order_trans)
next
  case (Answered pts)
  with inv moments_mono [of sid rng "w # ws" w'] settled_anti [of "w # ws" sid rng w'] show ?thesis by auto
next
  case (Buffered pts)
  with inv moments_mono [of sid rng "w # ws" w'] show ?thesis by auto
next
  case (Reading snap)
  with inv moments_mono [of sid rng "w # ws" w'] show ?thesis by auto
qed (use inv walks_mono [OF _ world_step_shards [OF st]] in simp_all)

lemma in_block_readable:
  "p \<in> in_block sid rng bid w \<Longrightarrow>
    \<exists>b. fmlookup (blocks (wStore w)) bid = Some b \<and> \<not> bArchived b
      \<and> p \<in> set (filter (in_range rng) (series_of (bByID b) sid))"
proof -
  assume p: "p \<in> in_block sid rng bid w"
  then obtain m where m: "readable (wStore w) bid = Some m"
    by (cases "readable (wStore w) bid") (simp_all add: in_block_def block_points_def split: if_splits)
  with p have "p \<in> set (filter (in_range rng) (series_of m sid))"
    by (simp add: in_block_def block_points_def split: if_splits)
  with m show ?thesis by (auto simp: readable_Some)
qed

lemma in_block_opened:
  assumes "bid \<in> set (covering_blocks rng (wShards w))" and "fmlookup (blocks (wStore w)) bid = Some b" "\<not> bArchived b"
  shows "set (filter (in_range rng) (series_of (bByID b) sid)) \<subseteq> moment sid rng w"
proof -
  have "readable (wStore w) bid = Some (bByID b)" using assms(2,3) by (simp add: readable_def)
  then have "set (filter (in_range rng) (series_of (bByID b) sid)) = in_block sid rng bid w"
    using assms(1) by (simp add: in_block_def block_points_def)
  then show ?thesis by (auto simp: moment_parts)
qed

lemma walks_same:
  assumes "walks sid rng (w # ws) w extra bids is pts" and "wShards w' = wShards w"
  shows "walks sid rng (w' # w # ws) w' extra bids is pts"
  using walks_mono [OF assms(1), of w'] assms(2) by (simp add: advances_refl)

lemma own_inv:
  assumes inv: "query_inv sid rng (w # ws) w pc" and st: "query_step srt sid rng (w, pc) (w', pc')"
    and ok: "world_ok (held pc) w" and rng: "Start rng \<le>s End rng" and srt: "slice_sort srt"
  shows "query_inv sid rng (w' # w # ws) w' pc'"
  using st
proof (cases rule: query_step.cases)
  case (pin_mem snap m)
  have "byID snap = byID (current (wMem w))" using pin_mem(4) by (auto simp: Latest_def)
  moreover have "mem_inv (wMem w)" using ok by (simp add: world_ok_def)
  ultimately show ?thesis
    using pin_mem mem_inv_sorted by (auto simp: moments_Cons moment_parts in_memory_def)
next
  case (read_live snap pts)
  with inv snapshot_Range_sorted [of snap sid rng] rng moments_mono [of sid rng "w # ws" w'] show ?thesis by auto
next
  case (read_swapped snap pts)
  with inv snapshot_Range_sorted [of snap sid rng] rng moments_mono [of sid rng "w # ws" w'] show ?thesis by auto
next
  case (list_shards pts)
  have "(\<Inter>w \<in> set (w' # w # ws). in_block sid rng bid w) \<subseteq> set pts" if "bid \<notin> ahead w' [] (ShardsCovering rng (wShards w))" for bid
    using that list_shards by (auto simp: in_block_def ahead_def covering_blocks_def split: if_splits)
  with inv list_shards moments_mono [of sid rng "w # ws" w'] show ?thesis by (auto simp: walks_def)
next
  case (next_shard i "is" pts)
  have "set (Shard_Blocks (shards (wShards w) ! i)) \<subseteq> set (covering_blocks rng (wShards w))"
    using inv next_shard by (auto simp: walks_def covering_blocks_def)
  then have "walks sid rng (w # ws) w {} (Shard_Blocks (shards (wShards w) ! i)) is pts"
    using inv next_shard by (auto simp: walks_def ahead_def)
  with walks_same [of sid rng w ws] next_shard show ?thesis by simp
next
  case (open_block bid h s bids "is" pts)
  obtain b where b: "h = bid" "fmlookup (blocks (wStore w)) bid = Some b" "\<not> bArchived b"
      "s = on_block bid (\<lambda>b. b\<lparr>bRefs := bRefs b + 1\<rparr>) (wStore w)"
    using open_block by (cases rule: Open_cases [of "wStore w" bid]) auto
  have W: "walks sid rng (w # ws) w {} (bid # bids) is pts" using inv open_block by simp
  then have "walks sid rng (w # ws) w {h} bids is pts" using b(1) by (auto simp: walks_def ahead_def)
  moreover have "set (filter (in_range rng) (series_of (bByID b) sid)) \<subseteq> moments sid rng (w' # w # ws)"
    using in_block_opened [of bid rng w b sid] b W by (auto simp: walks_def moments_Cons)
  ultimately show ?thesis
    using walks_same [of sid rng w ws "{h}" bids "is" pts w'] open_block b by (simp add: on_block_lookup)
next
  case (skip_block bid r s bids "is" pts)
  have "in_block sid rng bid w = {}"
    using skip_block in_block_readable [of _ sid rng bid w] by (cases rule: Open_cases [of "wStore w" bid]) auto
  then have "walks sid rng (w # ws) w {} bids is pts"
    using inv skip_block by (auto simp: walks_def ahead_def) 
  with walks_same [of sid rng w ws] skip_block show ?thesis by simp
next
  case (read_block h b out bids "is" pts)
  have "blocks_sorted (wStore w)" using ok by (simp add: world_ok_def)
  then have out: "out = filter (in_range rng) (series_of (bByID b) sid)"
    using read_block Block_Range_sorted [OF blocks_sorted_at rng, of "wStore w" h b sid] by simp
  have W: "walks sid rng (w # ws) w {h} bids is pts" "set out \<subseteq> moments sid rng (w # ws)"
    using inv read_block out by simp_all
  have "in_block sid rng h w \<subseteq> set out"
    using in_block_readable [of _ sid rng h w] read_block(4) out by fastforce
  then have "walks sid rng (w # ws) w {} bids is (pts @ out)"
    using W by (auto simp: walks_def)
  with walks_same [of sid rng w ws] read_block show ?thesis by simp
next
  case (close_block h bids "is" pts)
  with inv walks_same [of sid rng w ws "{}" bids "is" pts w'] show ?thesis by simp
next
  case (finish pts)
  have "set (srt pts) = set pts" using srt by (metis slice_sort_def set_mset_mset)
  moreover have "walks sid rng (w' # w # ws) w' {} [] [] pts"
    using inv finish walks_same [of sid rng w ws "{}" "[]" "[]" pts w'] by simp
  ultimately show ?thesis using finish by (auto simp: walks_def ahead_def settled_def)
qed

lemma overlapped_inv:
  assumes "overlapped srt sid rng ws pc" and "Start rng \<le>s End rng" and "slice_sort srt"
  shows "query_inv sid rng ws (hd ws) pc"
  using assms(1)
proof (induction rule: overlapped.induct)
  case (others w ws pc w')
  then show ?case using others_inv overlapped_ok [OF others.hyps(1)] by fastforce
next
  case (own w ws pc w' pc')
  then show ?case using own_inv [OF _ _ _ assms(2,3)] overlapped_ok [OF own.hyps(1)] by fastforce
qed simp

section \<open>A query that runs alone\<close>

text \<open>The steps are those of \<open>query_collect\<close>: alone, they reach its answer and leave its store.\<close>

lemma collect_blocks_steps:
  assumes "collect_blocks sid rng bids s = (Inr rest, s')"
  shows "(query_step srt sid rng)\<^sup>*\<^sup>* (w\<lparr>wStore := s\<rparr>, Walking bids is pts) (w\<lparr>wStore := s'\<rparr>, Walking [] is (pts @ rest))"
  using assms
proof (induction bids arbitrary: s pts rest)
  case (Cons bid bids)
  let ?w = "w\<lparr>wStore := s\<rparr>"
  have skip: ?case if "Open bid s = (r, s)" "\<forall>h. r \<noteq> Inr (Some h)"
      "collect_blocks sid rng bids s = (Inr rest, s')" for r
  proof -
    have "query_step srt sid rng (?w, Walking (bid # bids) is pts) (?w, Walking bids is pts)"
      using query_step.skip_block [of bid ?w r s] that by simp
    from converse_rtranclp_into_rtranclp [OF this Cons.IH [OF that(3)]] show ?thesis .
  qed
  show ?case
  proof (cases rule: Open_cases [of s bid])
    case (opened b)
    let ?b = "b\<lparr>bRefs := bRefs b + 1\<rparr>" and ?s1 = "on_block bid (\<lambda>b. b\<lparr>bRefs := bRefs b + 1\<rparr>) s"
    have at: "fmlookup (blocks ?s1) bid = Some ?b" using opened(1) by (simp add: on_block_lookup)
    obtain out rest' where r: "Block_Range sid rng ?b = Inr out"
        "collect_blocks sid rng bids (Close bid ?s1) = (Inr rest', s')" "rest = out @ rest'"
      using Cons.prems opened(3) at by (auto split: sum.splits prod.splits)
    let ?w1 = "w\<lparr>wStore := ?s1\<rparr>" and ?w2 = "w\<lparr>wStore := Close bid ?s1\<rparr>"
    have "query_step srt sid rng (?w, Walking (bid # bids) is pts) (?w1, Holding bid bids is pts)"
      using query_step.open_block [of bid ?w bid ?s1] opened(3) by simp
    moreover have "query_step srt sid rng (?w1, Holding bid bids is pts) (?w1, Releasing bid bids is (pts @ out))"
      using query_step.read_block [of ?w1 bid ?b] at r(1) by simp
    moreover have "query_step srt sid rng (?w1, Releasing bid bids is (pts @ out)) (?w2, Walking bids is (pts @ out))"
      using query_step.close_block [of srt sid rng ?w1 bid bids "is" "pts @ out"] by simp
    moreover note Cons.IH [OF r(2), of "pts @ out"]
    ultimately show ?thesis using r(3) by (simp add: converse_rtranclp_into_rtranclp)
  qed (use Cons.prems skip in simp_all)
qed simp

lemma collect_blocks_append:
  "collect_blocks sid rng (xs @ ys) s =
    (case collect_blocks sid rng xs s of
       (Inl e, s1) \<Rightarrow> (Inl e, s1)
     | (Inr a, s1) \<Rightarrow>
         (case collect_blocks sid rng ys s1 of (Inl e, s2) \<Rightarrow> (Inl e, s2) | (Inr b, s2) \<Rightarrow> (Inr (a @ b), s2)))"
  by (induction sid rng xs s rule: collect_blocks.induct) (auto split: sum.splits prod.splits option.splits)

lemma walk_steps:
  assumes "collect_blocks sid rng (concat (map (\<lambda>i. Shard_Blocks (shards (wShards w) ! i)) is)) s = (Inr rest, s')"
  shows "(query_step srt sid rng)\<^sup>*\<^sup>* (w\<lparr>wStore := s\<rparr>, Walking [] is pts) (w\<lparr>wStore := s'\<rparr>, Walking [] [] (pts @ rest))"
  using assms
proof (induction "is" arbitrary: s pts rest)
  case (Cons i "is")
  let ?bids = "Shard_Blocks (shards (wShards w) ! i)"
  obtain a s1 b where c: "collect_blocks sid rng ?bids s = (Inr a, s1)" "rest = a @ b"
      "collect_blocks sid rng (concat (map (\<lambda>i. Shard_Blocks (shards (wShards w) ! i)) is)) s1 = (Inr b, s')"
    using Cons.prems by (auto simp: collect_blocks_append split: sum.splits prod.splits)
  have "query_step srt sid rng (w\<lparr>wStore := s\<rparr>, Walking [] (i # is) pts) (w\<lparr>wStore := s\<rparr>, Walking ?bids is pts)"
    using query_step.next_shard [of srt sid rng "w\<lparr>wStore := s\<rparr>" i "is" pts] by simp
  moreover note collect_blocks_steps [OF c(1), of srt w "is" pts]
  moreover note Cons.IH [OF c(3), of "pts @ a"]
  ultimately show ?case using c(2) by (simp add: converse_rtranclp_into_rtranclp)
qed simp

lemma read_mem_steps:
  assumes "fst (Read sid rng (wMem w)) = Inr buf"
  shows "(query_step srt sid rng)\<^sup>*\<^sup>* (w, Asked) (w, Buffered buf)"
proof -
  obtain snap m where l: "Latest (wMem w) = (Some snap, m)" by (simp add: Latest_def)
  then have m: "m = snd (Latest (wMem w))" by simp
  have "snapshot_Range (Some snap) sid rng = Inr buf" using assms l by (simp add: Read_def)
  from query_step.read_live [OF this, of srt "w\<lparr>wMem := m\<rparr>"]
  have "query_step srt sid rng (w\<lparr>wMem := m\<rparr>, Reading snap) (w, Buffered buf)" by (simp add: m)
  with query_step.pin_mem [OF l, of srt sid rng] show ?thesis by (meson converse_rtranclp_into_rtranclp r_into_rtranclp)
qed

lemma query_collect_steps:
  assumes "query_collect srt sid rng (wMem w) (wShards w) (wStore w) = (Inr pts, s')"
  shows "(query_step srt sid rng)\<^sup>*\<^sup>* (w, Asked) (w\<lparr>wStore := s'\<rparr>, Answered pts)"
proof -
  obtain buf rest where c: "fst (Read sid rng (wMem w)) = Inr buf"
      "collect_blocks sid rng (covering_blocks rng (wShards w)) (wStore w) = (Inr rest, s')" "pts = srt (buf @ rest)"
    using assms by (auto simp: query_collect_def split: sum.splits prod.splits)
  note walk_steps [of sid rng w "ShardsCovering rng (wShards w)" "wStore w" rest s' srt buf]
  with c(2) have "(query_step srt sid rng)\<^sup>*\<^sup>* (w, Walking [] (ShardsCovering rng (wShards w)) buf)
      (w\<lparr>wStore := s'\<rparr>, Walking [] [] (buf @ rest))"
    by (simp add: covering_blocks_def)
  moreover have "query_step srt sid rng (w\<lparr>wStore := s'\<rparr>, Walking [] [] (buf @ rest)) (w\<lparr>wStore := s'\<rparr>, Answered pts)"
    using query_step.finish [of srt sid rng "w\<lparr>wStore := s'\<rparr>" "buf @ rest"] c(3) by simp
  ultimately have "(query_step srt sid rng)\<^sup>*\<^sup>* (w, Walking [] (ShardsCovering rng (wShards w)) buf)
      (w\<lparr>wStore := s'\<rparr>, Answered pts)" by (rule rtranclp.rtrancl_into_rtrancl)
  with read_mem_steps [OF c(1), of srt] query_step.list_shards [of srt sid rng w buf]
  show ?thesis by (meson converse_rtranclp_into_rtranclp rtranclp_trans)
qed

section \<open>Properties\<close>

text \<open>
  C10. A query may run while appends, flushes, compactions, sweeps, rotations and other queries
  take steps between any two of its own, with one exception: from the moment it has pinned the
  live snapshot until it has read its points, no append goes into that snapshot
  (\<open>points_alone\<close>), for the code reads it without a lock and the two race. Every point the query
  answers was in the memtable or in a readable block of a covering shard at some moment while
  it ran, and it answers every point that stayed in one place, in the memtable or in one such
  block, all that time. Alone, its steps give the answer of \<open>query_collect\<close>.
\<close>

theorem overlapped_query:
  assumes "overlapped srt sid rng ws (Answered pts)" and "Start rng \<le>s End rng" and "slice_sort srt"
  shows "(\<forall>p \<in> set pts. \<exists>w \<in> set ws. p \<in> set (matching_points sid rng (wMem w) (wShards w) (wStore w)))
    \<and> (\<forall>p. (\<forall>w \<in> set ws. p \<in> in_memory sid rng w) \<or> (\<exists>bid. \<forall>w \<in> set ws. p \<in> in_block sid rng bid w) \<longrightarrow> p \<in> set pts)
    \<and> (query_collect srt sid rng (wMem w) (wShards w) (wStore w) = (Inr qs, s')
        \<longrightarrow> (query_step srt sid rng)\<^sup>*\<^sup>* (w, Asked) (w\<lparr>wStore := s'\<rparr>, Answered qs))"
proof (intro conjI)
  have inv: "set pts \<subseteq> moments sid rng ws" "settled sid rng ws \<subseteq> set pts"
    using overlapped_inv [OF assms] by simp_all
  show "\<forall>p \<in> set pts. \<exists>w \<in> set ws. p \<in> set (matching_points sid rng (wMem w) (wShards w) (wStore w))"
    using inv(1) by (auto simp: moments_def moment_def)
  show "\<forall>p. (\<forall>w \<in> set ws. p \<in> in_memory sid rng w) \<or> (\<exists>bid. \<forall>w \<in> set ws. p \<in> in_block sid rng bid w) \<longrightarrow> p \<in> set pts"
    using inv(2) unfolding settled_def by blast
qed (use query_collect_steps in blast)

text \<open>The memtable is swapped out while the query reads the snapshot it has pinned.\<close>

definition swapped_world :: world where
  "swapped_world = \<lparr>wStore = NewStore, wHeld = {#}, wShards = demo_manager\<lparr>shards := []\<rparr>, wMem = inMem busy_ingest\<rparr>"

theorem overlapped_query_witness:
  "\<exists>ws. overlapped point_sort 7 \<lparr>Start = 0, End = 200\<rparr> ws (Answered [busy_point])
    \<and> (\<exists>w \<in> set ws. busy_point \<in> set (matching_points 7 \<lparr>Start = 0, End = 200\<rparr> (wMem w) (wShards w) (wStore w)))
    \<and> matching_points 7 \<lparr>Start = 0, End = 200\<rparr> (wMem (hd ws)) (wShards (hd ws)) (wStore (hd ws)) = []"
proof -
  let ?rng = "\<lparr>Start = 0, End = 200\<rparr> :: query_range" and ?w = swapped_world
  let ?w' = "?w\<lparr>wMem := snd (Flush (wMem ?w))\<rparr>"
  have mem: "mem_inv (wMem ?w)" using busy_inv(1) by (simp add: swapped_world_def ingest_inv_def)
  then have ok: "world_ok {#} ?w"
    by (simp add: world_ok_def swapped_world_def reader_inv_def NewStore_inv)
       (simp add: NewStore_def blocks_sorted_def)
  obtain snap m where l: "Latest (wMem ?w) = (Some snap, m)" by (simp add: Latest_def)
  let ?w1 = "?w\<lparr>wMem := m\<rparr>"
  have "fst (Read 7 ?rng (wMem ?w)) = Inr [busy_point]"
    using Read_range [OF mem, of ?rng 7] busy_inv(4)
    by (simp add: swapped_world_def go_int) (simp add: in_range_def busy_point_def go_int)
  with l have rd: "snapshot_Range (Some snap) 7 ?rng = Inr [busy_point]" by (simp add: Read_def)
  have w': "snd (Flush m) = snd (Flush (wMem ?w))" using l by (auto simp: Latest_def Flush_def)
  have ls: "ShardsCovering ?rng (wShards ?w') = []" by (simp add: swapped_world_def ShardsCovering_def)
  note o1 = overlapped.own [OF overlapped.asked [OF ok, of point_sort 7 ?rng] query_step.pin_mem [OF l]]
  have o2: "overlapped point_sort 7 ?rng [?w', ?w1, ?w] (Reading snap)"
    using overlapped.others [OF o1 world_step.swap] by (simp add: points_alone_def w')
  note o3 = overlapped.own [OF o2 query_step.read_swapped [OF rd]]
  note o4 = overlapped.own [OF o3 query_step.list_shards [of point_sort 7 ?rng ?w', unfolded ls]]
  note o5 = overlapped.own [OF o4 query_step.finish]
  have srt: "point_sort [busy_point] = [busy_point]" by (simp add: point_sort_def)
  have empty: "matching_points 7 ?rng (wMem ?w') (wShards ?w') (wStore ?w') = []"
    by (simp add: matching_points_def covering_blocks_def ls [simplified] Flush_def empty_snapshot_def series_of_def)
  have "Start ?rng \<le>s End ?rng" by (simp add: go_int)
  from overlapped_query [OF o5 [unfolded srt] this slice_sort_point_sort] o5 srt empty show ?thesis
    by (intro exI [of _ "[?w', ?w', ?w', ?w', ?w1, ?w]"]) simp
qed

text \<open>
  C11. No lock keeps a query and a flush apart. A query that has read the memtable before a
  flush and reads the blocks after it counts every flushed point twice; one that reads the
  memtable after the flush has emptied it and the blocks before they are listed counts none of
  the buffered points, although they were acknowledged.
\<close>

theorem query_overlaps_flush:
  assumes ord: "iterates ordS" and inv: "ingest_inv inp" and fresh: "sNextID (dbStore (inDb inp)) + 1 \<noteq> 0"
    and len: "Len (inMem inp) \<noteq> 0" and f: "flushLocked ordS ordW s inp = (e, inp')"
    and rng: "Start rng \<le>s End rng" and srt: "slice_sort srt"
    and buf: "buf = filter (in_range rng) (series_of (byID (current (inMem inp))) sid)"
  shows "\<exists>early late. QueryRange srt sid rng agg step (inMem inp) (dbShards (inDb inp')) (dbStore (inDb inp'))
        = (Inr early, dbStore (inDb inp'))
    \<and> sum_list (map resCount early)
        = length (visible sid rng inp) + length (filter (recent (dbShards (inDb inp))) buf)
    \<and> QueryRange srt sid rng agg step (snd (Flush (inMem inp))) (dbShards (inDb inp)) (dbStore (inDb inp))
        = (Inr late, dbStore (inDb inp))
    \<and> sum_list (map resCount late) + length buf = length (visible sid rng inp)"
proof -
  note fl = flushLocked_inv [OF ord inv fresh f]
  have i: "mem_inv (inMem inp)" "blocks_sorted (dbStore (inDb inp))" "mem_inv (inMem inp')" "blocks_sorted (dbStore (inDb inp'))"
    using inv fl(1) by (simp_all add: ingest_inv_def)
  have count: "sum_list (map resCount (aggregate (srt ps) agg step)) = length ps" for ps
    using srt by (simp add: aggregate_frame fold_points_length) (metis slice_sort_def size_mset)
  have "byID (current (inMem inp')) = fmempty" using empty_memtable(1) [OF i(3) fl(4)] .
  then have st: "stored_points sid rng (inDb inp') = stored_points sid rng (inDb inp) @ filter (recent (dbShards (inDb inp))) buf"
    using fl(3) [of sid rng] len by (simp add: visible_parts buf filter_filter conj_commute cong: filter_cong)
  have early: "length (matching_points sid rng (inMem inp) (dbShards (inDb inp')) (dbStore (inDb inp')))
      = length (visible sid rng inp) + length (filter (recent (dbShards (inDb inp))) buf)"
    using st by (simp add: visible_parts matching_points_def stored_points_def buf)
  have late: "length (matching_points sid rng (snd (Flush (inMem inp))) (dbShards (inDb inp)) (dbStore (inDb inp))) + length buf
      = length (visible sid rng inp)"
    by (simp add: visible_parts matching_points_def stored_points_def buf Flush_def empty_snapshot_def)
  show ?thesis
    using QueryRange_value [OF i(1,4) rng, of srt sid agg step "dbShards (inDb inp')"]
      QueryRange_value [OF Flush_inv i(2) rng, of srt sid agg step "inMem inp" "dbShards (inDb inp)"]
      count early late by simp
qed

theorem query_overlaps_flush_witness:
  "\<exists>early late inp'. snd (flushLocked key_order key_order 0 busy_ingest) = inp'
    \<and> fst (QueryRange point_sort 7 \<lparr>Start = 90, End = 200\<rparr> AggCount 60 (inMem busy_ingest) (dbShards (inDb inp')) (dbStore (inDb inp'))) = Inr early
    \<and> fst (QueryRange point_sort 7 \<lparr>Start = 90, End = 200\<rparr> AggCount 60 (snd (Flush (inMem busy_ingest)))
        (dbShards (inDb busy_ingest)) (dbStore (inDb busy_ingest))) = Inr late
    \<and> sum_list (map resCount early) = Suc (length (visible 7 \<lparr>Start = 90, End = 200\<rparr> busy_ingest))
    \<and> Suc (sum_list (map resCount late)) = length (visible 7 \<lparr>Start = 90, End = 200\<rparr> busy_ingest)"
proof -
  let ?rng = "\<lparr>Start = 90, End = 200\<rparr> :: query_range"
  obtain e inp' where f: "flushLocked key_order key_order 0 busy_ingest = (e, inp')" by (rule prod.exhaust)
  have b: "[busy_point] = filter (in_range ?rng) (series_of (byID (current (inMem busy_ingest))) 7)"
      "filter (recent (dbShards (inDb busy_ingest))) [busy_point] = [busy_point]"
    by (simp_all add: busy_inv(4,5) recent_def) (simp_all add: in_range_def busy_point_def demo_manager_def new_shard_def go_int)
  have rng: "Start ?rng \<le>s End ?rng" by (simp add: go_int)
  have "Len (inMem busy_ingest) \<noteq> 0" using busy_inv(3) by simp
  from query_overlaps_flush [OF iterates_key_order busy_inv(1,2) this f rng slice_sort_point_sort b(1), of AggCount 60] b(2) f
  show ?thesis by (metis (no_types, lifting) One_nat_def Suc_eq_plus1 fst_conv length_Cons list.size(3) snd_conv)
qed

end
