(* ===== verification/CompactionOverlap.thy ===== *)
theory CompactionOverlap
  imports QueryOverlap DatabaseFlow
begin

text \<open>
  A query while a compaction runs. \<open>Compact\<close> takes the mutex of the store, of the source block
  and of the shard manager one call at a time, so another goroutine sees what it has done so
  far: it lists the new block before it archives the source. \<open>compaction_steps\<close> takes
  \<open>Compact\<close> apart into those calls, as steps of \<open>world_step\<close>, up to the state in which both
  blocks can be read and from there to its end.
\<close>

section \<open>Compaction, call by call\<close>

definition world_of :: "database \<Rightarrow> block_id multiset \<Rightarrow> memtable \<Rightarrow> world" where
  "world_of db hs mem = \<lparr>wStore = dbStore db, wHeld = hs, wShards = dbShards db, wMem = mem\<rparr>"

lemma world_of_simps [simp]:
  "wStore (world_of db hs mem) = dbStore db" "wHeld (world_of db hs mem) = hs"
  "wShards (world_of db hs mem) = dbShards db" "wMem (world_of db hs mem) = mem"
  by (simp_all add: world_of_def)

lemma store_calls:
  assumes "reader_step (s, hs) (s', hs')" and "store_ok e s'"
  shows "world_step \<lparr>wStore = s, wHeld = hs, wShards = m, wMem = mem\<rparr> \<lparr>wStore = s', wHeld = hs', wShards = m, wMem = mem\<rparr>"
  using world_step.on_store [of "\<lparr>wStore = s, wHeld = hs, wShards = m, wMem = mem\<rparr>" s' hs'] assms
  by (simp add: store_ok_def)

lemma shard_calls:
  "world_step \<lparr>wStore = s, wHeld = hs, wShards = m, wMem = mem\<rparr>
     \<lparr>wStore = s, wHeld = hs, wShards = on_shard i (AddBlock bid) m, wMem = mem\<rparr>"
  using world_step.add_block [of "\<lparr>wStore = s, wHeld = hs, wShards = m, wMem = mem\<rparr>" i bid] by simp

text \<open>The source is opened and marked, the new block is written and sealed.\<close>

lemma compaction_writes:
  assumes st: "store_ok e s" and fresh: "sNextID s + 1 \<noteq> 0" and b: "fmlookup (blocks s) src = Some b" "\<not> bArchived b"
    and out: "spanMin span <s e" "fmpred (\<lambda>_ pts. time_sorted pts \<and> (\<forall>p \<in> set pts. TS p <s e)) out" "headed (spanMin span) (spanMax span) out"
    and s3: "s3 = on_block (sNextID s + 1) Block_Seal (snd (Create out (spanMin span) (spanMax span) (source_step src s)))"
  shows "world_step\<^sup>*\<^sup>* \<lparr>wStore = s, wHeld = hs, wShards = m, wMem = mem\<rparr> \<lparr>wStore = s3, wHeld = add_mset src hs, wShards = m, wMem = mem\<rparr>
    \<and> store_ok e s3"
proof -
  let ?s0 = "on_block src (\<lambda>b. b\<lparr>bRefs := bRefs b + 1\<rparr>) s" and ?s1 = "source_step src s"
  let ?s2 = "snd (Create out (spanMin span) (spanMax span) ?s1)"
  have o: "Open src s = (Inr (Some src), ?s0)" using b by (cases rule: Open_cases [of s src]) auto
  have mark: "on_block src MarkCompacting ?s0 = ?s1" by (simp add: on_block_twice source_step_def)
  have k0: "store_ok e ?s0" by (intro store_ok_on_block st) simp_all
  have k1: "store_ok e ?s1" unfolding mark [symmetric] by (intro store_ok_on_block k0) simp_all
  have k2: "store_ok e ?s2" using k1 fresh out by (intro store_ok_Create) simp_all
  have k3: "store_ok e s3" unfolding s3 by (intro store_ok_on_block k2) simp_all
  note r0 = reader_step.open_block [OF o, of hs]
  have r1: "reader_step (?s0, add_mset src hs) (?s1, add_mset src hs)"
    unfolding mark [symmetric] by (rule reader_step.compacting) simp
  have r2: "reader_step (?s1, add_mset src hs) (?s2, add_mset src hs)" by (rule reader_step.create) (simp add: fresh)
  have r3: "reader_step (?s2, add_mset src hs) (s3, add_mset src hs)" unfolding s3 by (rule reader_step.seal)
  note store_calls [OF r0 k0, of m mem] store_calls [OF r1 k1, of m mem] store_calls [OF r2 k2, of m mem]
    store_calls [OF r3 k3, of m mem]
  then have "world_step\<^sup>*\<^sup>* \<lparr>wStore = s, wHeld = hs, wShards = m, wMem = mem\<rparr>
      \<lparr>wStore = s3, wHeld = add_mset src hs, wShards = m, wMem = mem\<rparr>"
    by (meson converse_rtranclp_into_rtranclp rtranclp.rtrancl_refl)
  with k3 show ?thesis by simp
qed

text \<open>The source is archived, the archived blocks without readers are dropped, the handle is given back.\<close>

lemma compaction_finishes:
  assumes st: "store_ok e s" and ord: "iterates ordB"
  shows "world_step\<^sup>*\<^sup>* \<lparr>wStore = s, wHeld = add_mset src hs, wShards = m, wMem = mem\<rparr>
    \<lparr>wStore = Close src (finish_source ordB src s), wHeld = hs, wShards = m, wMem = mem\<rparr>"
proof -
  let ?s1 = "on_block src Block_MarkArchived s" and ?s2 = "finish_source ordB src s"
  have f: "?s2 = snd (Reclaim (ordB (blocks ?s1)) ?s1)" by (simp add: finish_source_def Let_def)
  have k1: "store_ok e ?s1" by (intro store_ok_on_block st) simp_all
  have k2: "store_ok e ?s2" by (rule store_ok_finish [OF st ord])
  have k3: "store_ok e (Close src ?s2)" by (rule store_ok_Close [OF k2])
  have r1: "reader_step (s, add_mset src hs) (?s1, add_mset src hs)" by (rule reader_step.archive_handle) simp
  have r2: "reader_step (?s1, add_mset src hs) (?s2, add_mset src hs)"
    unfolding f by (rule reader_step.reclaim) (rule iterates_visits [OF ord])
  have r3: "reader_step (?s2, add_mset src hs) (Close src ?s2, hs)"
    using reader_step.close_block [of src "add_mset src hs" ?s2] by simp
  note store_calls [OF r1 k1, of m mem] store_calls [OF r2 k2, of m mem] store_calls [OF r3 k3, of m mem]
  then show ?thesis by (meson converse_rtranclp_into_rtranclp rtranclp.rtrancl_refl)
qed

lemma compaction_steps:
  assumes ord: "iterates ordS" "iterates ordB" and ok: "db_ok db" and fresh: "sNextID (dbStore db) + 1 \<noteq> 0"
    and b: "fmlookup (blocks (dbStore db)) src = Some b" "\<not> bArchived b"
    and c: "Compact ordS ordB pol src db = (Inr bid, db')" "bid \<noteq> 0"
  obtains s where "bid = sNextID (dbStore db) + 1"
    and "dbShards db' = on_shard (length (shards (dbShards db)) - 1) (AddBlock bid) (dbShards db)"
    and "readable s = (readable (dbStore db))(bid := Some (downsampled (effective_step (Window pol)) (bByID b)))"
    and "readable (dbStore db') = (readable s)(src := None)"
    and "world_step\<^sup>*\<^sup>* (world_of db hs mem) \<lparr>wStore = s, wHeld = add_mset src hs, wShards = dbShards db', wMem = mem\<rparr>"
    and "world_step\<^sup>*\<^sup>* \<lparr>wStore = s, wHeld = add_mset src hs, wShards = dbShards db', wMem = mem\<rparr> (world_of db' hs mem)"
proof -
  let ?step = "effective_step (Window pol)" and ?e = "active_end db" and ?m = "dbShards db" and ?n = "sNextID (dbStore db) + 1"
  let ?out = "downsampled ?step (bByID b)" and ?i = "length (shards (dbShards db)) - 1"
  obtain span where d: "downsample ?step (ordS (bByID b)) (bByID b) = (?out, span)"
    using downsample_spec [OF iterates_visits [OF ord(1)], of ?step "bByID b"] by (metis prod.collapse)
  have st: "store_ok ?e (dbStore db)" and pos: "0 <s ?e" and m: "mgr_inv ?m"
    using ok by (simp_all add: db_ok_def)
  note series = block_series [OF st b(1)]
  have ne: "fmsize ?out \<noteq> 0" by (rule notI) (use c in \<open>simp add: Compact_readable [OF ord(1) b] Let_def\<close>)
  have below: "fmpred (\<lambda>_ pts. time_sorted pts \<and> (\<forall>p \<in> set pts. TS p <s ?e)) ?out"
    by (rule downsampled_below [OF effective_step_pos pos series(1)])
  have h: "headed (spanMin span) (spanMax span) ?out"
    using downsample_headed [OF iterates_visits [OF ord(1)] ne series(3)] by (simp add: d)
  have mn: "spanMin span <s ?e" by (rule headed_below [OF h]) (use below in \<open>auto simp: fmpred_iff\<close>)
  have early: "bMin b <s shEnd (last (shards ?m))" using series(2) by (simp add: active_end_def)
  have route: "Route (bMin b) ?m = (Inr ?i, ?m)"
    by (rule Route_below [OF m early]) (use ne c in \<open>simp_all add: Compact_readable [OF ord(1) b] d Let_def\<close>)
  obtain s3 where s3: "s3 = on_block ?n Block_Seal (snd (Create ?out (spanMin span) (spanMax span) (source_step src (dbStore db))))"
    by simp
  have db': "bid = ?n" "dbStore db' = Close src (finish_source ordB src s3)" "dbShards db' = on_shard ?i (AddBlock ?n) ?m"
    using c ne by (auto simp: Compact_readable [OF ord(1) b] d Let_def route s3)
  from compaction_writes [OF st fresh b mn below h s3, of hs ?m mem] have w: "store_ok ?e s3"
      "world_step\<^sup>*\<^sup>* (world_of db hs mem) \<lparr>wStore = s3, wHeld = add_mset src hs, wShards = ?m, wMem = mem\<rparr>"
    by (simp_all add: world_of_def)
  note w(2)
  also note shard_calls [of s3 "add_mset src hs" ?m mem ?i ?n]
  finally have w2: "world_step\<^sup>*\<^sup>* (world_of db hs mem) \<lparr>wStore = s3, wHeld = add_mset src hs, wShards = dbShards db', wMem = mem\<rparr>"
    by (simp add: db')
  have w3: "world_step\<^sup>*\<^sup>* \<lparr>wStore = s3, wHeld = add_mset src hs, wShards = dbShards db', wMem = mem\<rparr> (world_of db' hs mem)"
    using compaction_finishes [OF w(1) ord(2)] by (simp add: world_of_def db'(2))
  have rd: "readable s3 = (readable (dbStore db))(bid := Some ?out)"
    by (simp add: fun_eq_iff s3 db'(1) readable_Create)
  show thesis
    by (rule that [OF db'(1) _ rd _ w2 w3])
       (simp_all add: db' fun_eq_iff readable_finish [OF ord(2)])
qed

section \<open>Runs\<close>

lemma overlapped_others:
  "world_step\<^sup>*\<^sup>* w w' \<Longrightarrow> overlapped srt sid rng (w # ws) pc \<Longrightarrow> \<forall>snap. pc \<noteq> Reading snap
    \<Longrightarrow> \<exists>ws'. overlapped srt sid rng (w' # ws') pc \<and> last (w' # ws') = last (w # ws)"
proof (induction rule: rtranclp_induct)
  case (step w1 w2)
  then obtain ws' where "overlapped srt sid rng (w1 # ws') pc" "last (w1 # ws') = last (w # ws)" by blast
  from overlapped.others [OF this(1) step(2)] this(2) step(5) show ?case by (intro exI [of _ "w1 # ws'"]) simp
qed blast

lemma overlapped_own:
  "(query_step srt sid rng)\<^sup>*\<^sup>* (w, pc) y \<Longrightarrow> overlapped srt sid rng (w # ws) pc
    \<Longrightarrow> \<exists>ws'. overlapped srt sid rng (fst y # ws') (snd y) \<and> last (fst y # ws') = last (w # ws)"
proof (induction rule: rtranclp_induct)
  case (step y z)
  then obtain ws' where "overlapped srt sid rng (fst y # ws') (snd y)" "last (fst y # ws') = last (w # ws)" by blast
  with overlapped.own [OF this(1), of "fst z" "snd z"] step(2) show ?case by (intro exI [of _ "fst y # ws'"]) simp
qed auto

lemma overlapped_sorted: "overlapped srt sid rng (w # ws) pc \<Longrightarrow> blocks_sorted (wStore w) \<and> mem_inv (wMem w)"
  using overlapped_ok [of srt sid rng "w # ws" pc] by (auto simp: world_ok_def)

text \<open>A query asked now that runs alone until it is answered.\<close>

lemma overlapped_alone:
  assumes "overlapped srt sid rng (w # ws) Asked" and "Start rng \<le>s End rng"
  shows "\<exists>ws'. overlapped srt sid rng (w # ws') (Answered (srt (matching_points sid rng (wMem w) (wShards w) (wStore w))))
    \<and> last (w # ws') = last (w # ws)"
proof -
  have "query_collect srt sid rng (wMem w) (wShards w) (wStore w) =
      (Inr (srt (matching_points sid rng (wMem w) (wShards w) (wStore w))), wStore w)"
    using overlapped_sorted [OF assms(1)] assms(2) by (simp add: query_collect_spec)
  from overlapped_own [OF query_collect_steps [OF this] assms(1)] show ?thesis by simp
qed

text \<open>A query that reads the rest of its blocks, the list of the last shard being in its hands.\<close>

lemma overlapped_rest:
  assumes "overlapped srt sid rng (w # ws) (Walking bids [] pts)" and "Start rng \<le>s End rng"
  shows "\<exists>ws'. overlapped srt sid rng (w # ws') (Answered (srt (pts @ concat (map (block_points sid rng (wStore w)) bids))))
    \<and> last (w # ws') = last (w # ws)"
proof -
  have "blocks_sorted (wStore w)" using overlapped_sorted [OF assms(1)] by simp
  from collect_blocks_steps [OF collect_blocks_spec [OF this assms(2), of sid bids], of srt w "[]" pts]
  have "(query_step srt sid rng)\<^sup>*\<^sup>* (w, Walking bids [] pts) (w, Walking [] [] (pts @ concat (map (block_points sid rng (wStore w)) bids)))"
    by simp
  from overlapped_own [OF rtranclp.rtrancl_into_rtrancl [OF this query_step.finish] assms(1)] show ?thesis by simp
qed

section \<open>What such a query answers\<close>

lemma listed_below:
  assumes "refs_ok db" and "bid \<in> set (covering_blocks rng (dbShards db))"
  shows "bid \<le> sNextID (dbStore db)"
  using assms by (auto simp: refs_ok_def covering_blocks_def Shard_Blocks_def ShardsCovering_mem dest: in_set_takeD)

lemma listed_not_next:
  assumes "refs_ok db" and "sNextID (dbStore db) + 1 \<noteq> 0"
  shows "sNextID (dbStore db) + 1 \<notin> set (covering_blocks rng (dbShards db))"
  using listed_below [OF assms(1)] less_self_succ [OF assms(2)] by (metis leD)

lemma concat_without:
  "(\<And>k. k \<in> set ks \<Longrightarrow> k \<noteq> x \<Longrightarrow> f k = g k) \<Longrightarrow> f x = [] \<Longrightarrow> concat (map f ks) = concat (map g (filter (\<lambda>k. k \<noteq> x) ks))"
  by (induction ks) auto

text \<open>The points of the window's blocks while both blocks are there, and once the source is gone.\<close>

lemma points_between:
  assumes ok: "db_ok db" and new: "bid = sNextID (dbStore db) + 1" "bid \<noteq> 0"
    and rd: "readable s = (readable (dbStore db))(bid := Some (downsampled step raw))"
    and covers: "length (shards (dbShards db)) - 1 \<in> set (ShardsCovering rng (dbShards db))"
  shows "matching_points sid rng mem (on_shard (length (shards (dbShards db)) - 1) (AddBlock bid) (dbShards db)) s =
      matching_points sid rng mem (dbShards db) (dbStore db) @ filter (in_range rng) (aggregateWindow (series_of raw sid) step)"
    and "readable s' = (readable s)(src := None) \<Longrightarrow> concat (map (block_points sid rng s') (covering_blocks rng (dbShards db))) =
      concat (map (block_points sid rng (dbStore db)) (filter (\<lambda>k. k \<noteq> src) (covering_blocks rng (dbShards db))))"
proof -
  let ?bids = "covering_blocks rng (dbShards db)"
  have fresh: "bid \<notin> set ?bids" using listed_not_next [of db] ok new by (simp add: db_ok_def)
  have ne: "shards (dbShards db) \<noteq> []" using ok by (simp add: db_ok_def mgr_inv_def)
  have "shStart (last (shards (dbShards db))) <s End rng \<and> Start rng <s shEnd (last (shards (dbShards db)))"
    using covers ne by (simp add: ShardsCovering_mem last_conv_nth)
  moreover have "map (block_points sid rng s) ?bids = map (block_points sid rng (dbStore db)) ?bids"
    using fresh by (auto simp: block_points_def rd)
  moreover have "block_points sid rng s bid = filter (in_range rng) (aggregateWindow (series_of raw sid) step)"
    by (simp add: block_points_def rd series_of_downsampled)
  ultimately show "matching_points sid rng mem (on_shard (length (shards (dbShards db)) - 1) (AddBlock bid) (dbShards db)) s =
      matching_points sid rng mem (dbShards db) (dbStore db) @ filter (in_range rng) (aggregateWindow (series_of raw sid) step)"
    by (simp only: matching_points_def covering_blocks_add [OF ne] map_append concat_append append.assoc if_True) simp
  show "concat (map (block_points sid rng s') ?bids) = concat (map (block_points sid rng (dbStore db)) (filter (\<lambda>k. k \<noteq> src) ?bids))"
    if rd': "readable s' = (readable s)(src := None)"
    using fresh by (intro concat_without) (auto simp: block_points_def rd rd')
qed

text \<open>A query that has read the memtable and copied the list of the one shard it covers.\<close>

lemma overlapped_listed:
  assumes w: "world_ok {#} w" and rng: "Start rng \<le>s End rng" "ShardsCovering rng (wShards w) = [i]"
  shows "\<exists>ws. overlapped srt sid rng (w # ws)
      (Walking (covering_blocks rng (wShards w)) [] (filter (in_range rng) (series_of (byID (current (wMem w))) sid)))
    \<and> last (w # ws) = w"
proof -
  let ?buf = "filter (in_range rng) (series_of (byID (current (wMem w))) sid)"
  have "fst (Read sid rng (wMem w)) = Inr (filter (in_range rng) (series_of (byID (current (wMem w))) sid))"
    using Read_range [of "wMem w" rng sid] w rng(1) by (simp add: world_ok_def)
  from overlapped_own [OF read_mem_steps [OF this, of srt] overlapped.asked [OF w]]
  obtain ws where q: "overlapped srt sid rng (w # ws) (Buffered ?buf)" "last (w # ws) = w" by auto
  note q2 = overlapped.own [OF q(1) query_step.list_shards, unfolded rng(2)]
  from overlapped.own [OF q2 query_step.next_shard] q(2) show ?thesis
    by (intro exI [of _ "w # w # ws"]) (simp add: covering_blocks_def rng(2))
qed

section \<open>Properties\<close>

text \<open>
  C12. A query and a compaction of one block of the window it asks for, both of which start in
  the same state and end in the state \<open>Compact\<close> leaves: one interleaving of their calls
  answers the source's points and, beside them, the points they were downsampled to; another
  answers neither, only the points of the memtable and of the other blocks.
\<close>

theorem query_overlaps_compaction:
  assumes ord: "iterates ordS" "iterates ordB" and ok: "db_ok db" and fresh: "sNextID (dbStore db) + 1 \<noteq> 0"
    and src: "fmlookup (blocks (dbStore db)) src = Some b" "\<not> bArchived b"
    and c: "Compact ordS ordB pol src db = (Inr bid, db')" "bid \<noteq> 0"
    and w: "world_ok {#} (world_of db hs mem)"
    and rng: "Start rng \<le>s End rng" "ShardsCovering rng (dbShards db) = [length (shards (dbShards db)) - 1]"
  shows "\<exists>twice never.
      overlapped srt sid rng (world_of db' hs mem # twice) (Answered (srt
        (matching_points sid rng mem (dbShards db) (dbStore db)
         @ filter (in_range rng) (aggregateWindow (series_of (bByID b) sid) (effective_step (Window pol))))))
    \<and> last (world_of db' hs mem # twice) = world_of db hs mem
    \<and> overlapped srt sid rng (world_of db' hs mem # never) (Answered (srt
        (filter (in_range rng) (series_of (byID (current mem)) sid)
         @ concat (map (block_points sid rng (dbStore db)) (filter (\<lambda>k. k \<noteq> src) (covering_blocks rng (dbShards db)))))))
    \<and> last (world_of db' hs mem # never) = world_of db hs mem"
proof -
  let ?w = "world_of db hs mem" and ?w' = "world_of db' hs mem"
  obtain s where id: "bid = sNextID (dbStore db) + 1"
    and sh: "dbShards db' = on_shard (length (shards (dbShards db)) - 1) (AddBlock bid) (dbShards db)"
    and rd: "readable s = (readable (dbStore db))(bid := Some (downsampled (effective_step (Window pol)) (bByID b)))"
      "readable (dbStore db') = (readable s)(src := None)"
    and run: "world_step\<^sup>*\<^sup>* ?w \<lparr>wStore = s, wHeld = add_mset src hs, wShards = dbShards db', wMem = mem\<rparr>"
      "world_step\<^sup>*\<^sup>* \<lparr>wStore = s, wHeld = add_mset src hs, wShards = dbShards db', wMem = mem\<rparr> ?w'"
    by (rule compaction_steps [OF ord ok fresh src c, of hs mem])
  let ?mid = "\<lparr>wStore = s, wHeld = add_mset src hs, wShards = dbShards db', wMem = mem\<rparr>"
  note points = points_between [OF ok id c(2) rd(1), where rng = rng and sid = sid]
  obtain ws1 where ws1: "overlapped srt sid rng (?mid # ws1) Asked" "last (?mid # ws1) = ?w"
    using overlapped_others [OF run(1) overlapped.asked [OF w, of srt sid rng]] by auto
  obtain ws2 where ws2: "overlapped srt sid rng (?mid # ws2) (Answered (srt (matching_points sid rng mem (dbShards db') s)))"
      "last (?mid # ws2) = ?w"
    using overlapped_alone [OF ws1(1) rng(1)] ws1(2) by auto
  have twice: "\<exists>ws. overlapped srt sid rng (?w' # ws) (Answered (srt (matching_points sid rng mem (dbShards db') s)))
      \<and> last (?w' # ws) = ?w"
    using overlapped_others [OF run(2) ws2(1)] ws2(2) by simp
  obtain ws0 where ws0: "overlapped srt sid rng (?w # ws0) (Walking (covering_blocks rng (dbShards db)) []
        (filter (in_range rng) (series_of (byID (current mem)) sid)))" "last (?w # ws0) = ?w"
    using overlapped_listed [OF w rng(1), of _ srt sid] rng(2) by auto
  obtain ws3 where ws3: "overlapped srt sid rng (?w' # ws3) (Walking (covering_blocks rng (dbShards db)) []
        (filter (in_range rng) (series_of (byID (current mem)) sid)))" "last (?w' # ws3) = ?w"
    using overlapped_others [OF rtranclp_trans [OF run] ws0(1)] ws0(2) by auto
  from overlapped_rest [OF this(1) rng(1)] this(2) twice points(2) [OF _ rd(2)] points(1) sh rng(2) show ?thesis
    by (auto simp del: One_nat_def)
qed

text \<open>The demo block, listed by its shard: three points in two windows of a minute.\<close>

definition listed_db :: database where
  "listed_db = demo_db\<lparr>dbShards := demo_shards\<rparr>"

lemma listed_db_facts:
  "dbStore listed_db = demo_store" "db_ok listed_db" "length (shards (dbShards listed_db)) = 1"
  "Route 5 (dbShards listed_db) = (Inr 0, dbShards listed_db)"
  "covering_blocks \<lparr>Start = 0, End = 200\<rparr> (dbShards listed_db) = [1]"
  "ShardsCovering \<lparr>Start = 0, End = 200\<rparr> (dbShards listed_db) = [0]"
proof -
  show st: "dbStore listed_db = demo_store" by (simp add: listed_db_def demo_facts)
  have sh: "dbShards listed_db = \<lparr>window = 3600, shards = [AddBlock 1 (new_shard 1 0 3600)], mNextID = 2\<rparr>"
    by (simp add: listed_db_def demo_shards_def on_shard_def demo_manager_def)
  show "length (shards (dbShards listed_db)) = 1" "Route 5 (dbShards listed_db) = (Inr 0, dbShards listed_db)"
    by (simp_all add: sh Route_def new_shard_def AddBlock_def go_int)
  show cov: "ShardsCovering \<lparr>Start = 0, End = 200\<rparr> (dbShards listed_db) = [0]"
    by (simp add: sh ShardsCovering_def new_shard_def AddBlock_def go_int)
  show "covering_blocks \<lparr>Start = 0, End = 200\<rparr> (dbShards listed_db) = [1]"
    unfolding covering_blocks_def cov by (simp add: sh Shard_Blocks_def AddBlock_def new_shard_def)
  have "mgr_inv (dbShards listed_db)"
    by (simp add: sh mgr_inv_def window_ok_def ascending_def AddBlock_def new_shard_def go_int)
  then show "db_ok listed_db"
    using demo_db_ok by (simp add: db_ok_def refs_ok_def active_end_def st sh)
       (simp add: demo_facts demo_manager_def AddBlock_def new_shard_def)
qed

theorem query_overlaps_compaction_witness:
  "\<exists>db' twice ws ws'. Compact key_order key_order \<lparr>Window = 60\<rparr> 1 listed_db = (Inr 2, db')
    \<and> overlapped point_sort 7 \<lparr>Start = 0, End = 200\<rparr> (world_of db' {#} NewMem # ws) (Answered twice) \<and> length twice = 5
    \<and> overlapped point_sort 7 \<lparr>Start = 0, End = 200\<rparr> (world_of db' {#} NewMem # ws') (Answered [])
    \<and> last (world_of db' {#} NewMem # ws) = world_of listed_db {#} NewMem
    \<and> last (world_of db' {#} NewMem # ws') = world_of listed_db {#} NewMem"
proof -
  let ?rng = "\<lparr>Start = 0, End = 200\<rparr> :: query_range" and ?db = listed_db
  obtain db' where c: "Compact key_order key_order \<lparr>Window = 60\<rparr> 1 ?db = (Inr 2, db')"
    using Compact_replaces [of key_order key_order ?db 1 demo_block 7 0 "dbShards ?db" "\<lparr>Window = 60\<rparr>"]
    by (auto simp: listed_db_facts demo_facts iterates_key_order demo_block_def three_points_sorted)
  have src: "fmlookup (blocks (dbStore ?db)) 1 = Some demo_block" "\<not> bArchived demo_block"
    by (simp_all add: listed_db_facts demo_facts) (simp add: demo_block_def)
  have w: "world_ok {#} (world_of ?db {#} NewMem)"
  proof -
    have "bRefs b = 0" if "fmlookup (blocks demo_store) k = Some b" for k b
      using that demo_facts(5,6) by (cases "k = 1") (auto simp: demo_block_def)
    then show ?thesis
      using demo_db_ok NewMem_inv
      by (auto simp: world_ok_def reader_inv_def listed_db_facts db_ok_def store_ok_def demo_facts fmpred_iff)
  qed
  have near: "filter (in_range ?rng) three_points = three_points"
    by (simp add: three_points_def in_range_def go_int)
  have raw: "series_of (bByID demo_block) 7 = three_points" by (simp add: demo_block_def series_of_def)
  have "bucket_start 60 5 = 0" "bucket_start 60 65 = 60" by (simp_all add: bucket_start_def go_rem_def signed_modulo_int_def)
  moreover have step: "effective_step 60 = 60" by (simp add: effective_step_def go_int)
  ultimately have "filter (in_range ?rng) (aggregateWindow three_points 60) = aggregateWindow three_points 60"
      "length (aggregateWindow three_points 60) = 2"
    using demo_runs by (simp_all add: aggregateWindow_runs)
      (simp add: mean_point_def run_bucket_def three_points_def in_range_def go_int)
  then have pts: "matching_points 7 ?rng NewMem (dbShards ?db) (dbStore ?db) = three_points"
      "length (filter (in_range ?rng) (aggregateWindow (series_of (bByID demo_block) 7) (effective_step 60))) = 2"
    by (simp_all add: matching_points_def listed_db_facts block_points_def demo_reading near raw step)
       (simp add: NewMem_def empty_snapshot_def series_of_def)
  let ?twice = "point_sort (matching_points 7 ?rng NewMem (dbShards ?db) (dbStore ?db)
      @ filter (in_range ?rng) (aggregateWindow (series_of (bByID demo_block) 7) (effective_step 60)))"
  have "length ?twice = 5" by (simp add: point_sort_def pts) (simp add: three_points_def)
  moreover have "point_sort (filter (in_range ?rng) (series_of (byID (current NewMem)) 7)
      @ concat (map (block_points 7 ?rng (dbStore ?db)) (filter (\<lambda>k. k \<noteq> 1) (covering_blocks ?rng (dbShards ?db))))) = []"
    by (simp add: point_sort_def listed_db_facts NewMem_def empty_snapshot_def series_of_def)
  moreover have "sNextID (dbStore ?db) + 1 \<noteq> 0" "(2::block_id) \<noteq> 0" "Start ?rng \<le>s End ?rng"
      "ShardsCovering ?rng (dbShards ?db) = [length (shards (dbShards ?db)) - 1]"
    by (simp_all add: listed_db_facts demo_facts go_int)
  note query_overlaps_compaction [OF iterates_key_order iterates_key_order listed_db_facts(2) this(1) src c this(2) w this(3,4), of point_sort 7]
  ultimately show ?thesis using c by (auto simp del: last.simps)
qed

end
