(* ===== verification/TornTail.thy ===== *)
theory TornTail
  imports WalGuarantees
begin

text \<open>
  What a torn record at the end of a segment does to the records after it. \<open>Open\<close> leaves the
  torn bytes where they are and goes on writing behind them, so the next record shares a line
  with them and the line fails its checksum.
\<close>

section \<open>A record behind torn bytes\<close>

lemma scans_as_glued:
  assumes t: "newline_free t" "length t < 36" and r: "frame_safe r" "\<not> verifyChecksum (t @ appendChecksum (payload r))"
  shows "scans_as (logged rs @ t @ encodeRecord r) rs"
proof (induction rs)
  case Nil
  let ?l = "t @ appendChecksum (payload r)"
  have nl: "newline_free ?l" using t(1) r(1) by (auto simp: newline_free_def frame_safe_def)
  have "appendChecksum (payload r) \<noteq> []" using length_body [of r] by (metis list.size(3) zero_neq_numeral)
  then have cr: "drop_cr ?l = ?l" using r(1) by (simp add: drop_cr_def frame_safe_def)
  have "scan_lines (?l @ 0x0A # []) = (drop_cr ?l # fst (scan_lines []), snd (scan_lines []))"
    using t(2) by (intro scan_lines_newline nl) (simp add: max_token_def)
  moreover have "scan_lines [] = ([], False)" by (subst scan_lines.simps) simp
  ultimately show ?case using r(2) by (simp add: scans_as_def encodeRecord_def cr)
next
  case (Cons q rs)
  then show ?case using scans_as_record [of "logged rs @ t @ encodeRecord r" rs q] by (simp add: logged_def)
qed

lemma append_sync_bytes:
  assumes c: "currentLocked w = Some (i, seg)" "sgWriter seg = new_writer" and room: "\<not> maxSize w \<le>s sgSize seg"
    and a: "Wal_Append r w = (Inr s, w1)" and y: "Sync w1 = (None, w2)"
  shows "s = nextSeq w" "content (sgName seg) (wDisk w2) = content (sgName seg) (wDisk w) @ encodeRecord (r\<lparr>rSeq := s\<rparr>)"
    "k \<noteq> sgName seg \<Longrightarrow> fmlookup (files (wDisk w2)) k = fmlookup (files (wDisk w)) k"
    "fmlookup (files (wDisk w)) (sgName seg) \<noteq> None \<Longrightarrow> fmlookup (files (wDisk w2)) (sgName seg) \<noteq> None"
proof -
  let ?r = "r\<lparr>rSeq := nextSeq w\<rparr>"
  have at: "i = top_index (segments w)" "fmlookup (segments w) i = Some seg"
    using c(1) by (auto simp: currentLocked_def Let_def)
  have wc: "write_current ?r w = (Inr s, w1)" using a c(1) room by (simp add: Wal_Append_def Let_def)
  obtain seg1 d1 where s1: "seg_write ?r seg (wDisk w) = (None, seg1, d1)" "s = nextSeq w"
      "w1 = w\<lparr>segments := fmupd i seg1 (segments w), wDisk := d1, nextSeq := nextSeq w + 1\<rparr>"
    using wc c(1) by (auto simp: write_current_def split: prod.splits option.splits)
  obtain wr where b: "bufio_write (sgName seg) (encodeRecord ?r) (sgWriter seg) (wDisk w) = (None, wr, d1)"
      "sgWriter seg1 = wr" "sgName seg1 = sgName seg"
    using s1(1) by (auto simp: seg_write_def Let_def split: prod.splits option.splits)
  have wr: "wrote (sgName seg) (sgWriter seg) (wDisk w) (encodeRecord ?r) (None, wr, d1)"
    using bufio_write_wrote [of "sgName seg" "sgWriter seg" "wDisk w" "encodeRecord ?r"] b(1) by simp
  have "currentLocked w1 = Some (i, seg1)"
    using s1(3) at top_index_update [OF at(2)] by (simp add: currentLocked_def Let_def)
  then obtain seg2 d2 where f: "seg_flush seg1 d1 = (None, seg2, d2)" "wDisk w2 = d2"
    using y s1(3) by (auto simp: Sync_def flush_at_def split: prod.splits)
  note fe = seg_flush_effect(3,4) [OF f(1)]
  show "s = nextSeq w" by (rule s1(2))
  show "content (sgName seg) (wDisk w2) = content (sgName seg) (wDisk w) @ encodeRecord (r\<lparr>rSeq := s\<rparr>)"
    using fe(2) wr c(2) b(2,3) f(2) s1(2) by (auto simp: wrote_def new_writer_def)
  show "k \<noteq> sgName seg \<Longrightarrow> fmlookup (files (wDisk w2)) k = fmlookup (files (wDisk w)) k"
    using fe(1) [of k] wr b(3) f(2) by (auto simp: wrote_def)
  show "fmlookup (files (wDisk w2)) (sgName seg) \<noteq> None" if "fmlookup (files (wDisk w)) (sgName seg) \<noteq> None"
  proof -
    have "encodeRecord (r\<lparr>rSeq := s\<rparr>) \<noteq> []" by (simp add: encodeRecord_def)
    then have "content (sgName seg) (wDisk w2) \<noteq> []"
      using \<open>content (sgName seg) (wDisk w2) = _\<close> by simp
    then show ?thesis by (auto simp: content_def split: option.splits)
  qed
qed

section \<open>The sizes that a start reads\<close>

definition sized :: "disk \<Rightarrow> (int, segment) fmap \<Rightarrow> bool" where
  "sized d m \<longleftrightarrow> fmpred (\<lambda>_ seg. sgSize seg = word_of_nat (length (content (sgName seg) d))) m"

lemma load_loop_sizes:
  assumes "load_loop names w = (None, w')" and "disk_log (wDisk w) I recs" and "set names \<subseteq> segment_name ` I"
    and "sized (wDisk w) (segments w)"
  shows "sized (wDisk w) (segments w')"
  using assms
proof (induction names arbitrary: w)
  case (Cons name names)
  from Cons.prems(3) obtain i where i: "i \<in> I" "name = segment_name i" by auto
  then have b: "0 < i" "i < 2 ^ 63" "fmlookup (files (wDisk w)) name \<noteq> None"
    using Cons.prems(2) by (auto simp: disk_log_def)
  obtain seg d where o: "openSegment name (wDisk w) = (Inr seg, d)"
      "load_loop names (w\<lparr>segments := fmupd i seg (segments w), wDisk := d,
        nextSeq := (if nextSeq w \<le> sgLast seg then sgLast seg + 1 else nextSeq w)\<rparr>) = (None, w')"
    using Cons.prems(1) segmentIndex_name(1) [OF b(1,2)] i(2) by (auto split: prod.splits sum.splits)
  note e = openSegment_effect [OF o(1)]
  have d: "files d = files (wDisk w)" using e(1) b(3) by simp
  then have same: "content k d = content k (wDisk w)" for k by (simp add: content_def)
  have "sized d (fmupd i seg (segments w))"
    using Cons.prems(4) e(2,5) by (auto simp: sized_def same)
  with Cons.IH [OF o(2)] Cons.prems(2,3) disk_log_cong [OF d] have "sized d (segments w')" by simp
  then show ?case by (simp add: sized_def same)
qed simp

lemma Wal_Open_sizes:
  assumes dl: "disk_log d I recs" and ne: "I \<noteq> {}" and o: "Wal_Open ms d = (Inr w, d')"
  shows "sized d (segments w)"
proof -
  obtain d1 where o1: "os_call d = (None, d1)"
      "loadSegments \<lparr>segments = fmempty, nextSeq = 0, nextReplay = 0, maxSize = ms, wDisk = d1\<rparr> = (None, w)"
    using o by (auto simp: Wal_Open_def split: prod.splits option.splits)
  let ?w0 = "\<lparr>segments = fmempty, nextSeq = 0, nextReplay = 0, maxSize = ms, wDisk = d1\<rparr>"
  obtain entries d2 w1 w2 where o2: "os_read_dir d1 = (Inr entries, d2)"
      "load_loop (sort (filter segment_file entries)) (?w0\<lparr>wDisk := d2\<rparr>) = (None, w1)"
      "loadCheckpoint w1 = (None, w2)" "(if fmsize (segments w2) = 0 then rotate_log w2 else (None, w2)) = (None, w)"
    using o1(2) by (auto simp: loadSegments_def split: prod.splits sum.splits option.splits)
  have e: "entries = sorted_list_of_fset (fmdom (files d))" and f2: "files d2 = files d"
    using os_read_dir_success [OF o2(1)] os_call_files [OF o1(1)] by simp_all
  let ?names = "sort (filter segment_file entries)"
  have names: "set ?names = segment_name ` I"
    using dl by (auto simp: e disk_log_def segment_file_name fmlookup_dom_iff)
  have dl2: "disk_log d2 I recs" using dl disk_log_cong [OF f2] by simp
  have ll: "nextReplay w1 = 0" "fmdom' (segments w1) = segmentIndexFromPath ` set ?names"
    using load_loop_effect [OF o2(2), of I recs] names dl2 by (auto simp: loaded_def)
  note cp = loadCheckpoint_effect [OF o2(3) ll(1)]
  have "fmsize (segments w2) \<noteq> 0" using cp(2) ll(2) names ne by (auto simp: fmsize_0_iff)
  then have "segments w = segments w1" using o2(4) cp(2) by simp
  moreover have "sized d2 (segments w1)"
    using load_loop_sizes [OF o2(2), of I recs] dl2 names by (simp add: sized_def)
  ultimately show ?thesis using f2 by (simp add: sized_def content_def)
qed

section \<open>The directory reads as before\<close>

lemma torn_tail_log:
  assumes dl: "disk_log d I recs" and o: "Wal_Open ms d = (Inr w, d1)" and c: "currentLocked w = Some (i, seg)" "i \<in> I"
    and torn: "content (segment_name i) d = logged (recs i) @ t" "newline_free t" "length t < 36"
    and a: "Wal_Append r w = (Inr s, w1)" "Sync w1 = (None, w2)" and room: "\<not> ms \<le>s word_of_nat (length (logged (recs i) @ t))"
    and r: "frame_safe (r\<lparr>rSeq := s\<rparr>)" "\<not> verifyChecksum (t @ appendChecksum (payload (r\<lparr>rSeq := s\<rparr>)))"
  shows "disk_log (wDisk w2) I recs" "k \<noteq> segment_name i \<Longrightarrow> fmlookup (files (wDisk w2)) k = fmlookup (files d) k"
proof -
  have ne: "I \<noteq> {}" using c(2) by blast
  note e = Wal_Open_effect [OF dl ne o]
  have at: "fmlookup (segments w) i = Some seg" using c(1) by (auto simp: currentLocked_def Let_def)
  have s: "sgName seg = segment_name i" "sgWriter seg = new_writer"
    using e(5) at by (auto simp: loaded_def fmpred_iff)
  have ce: "content name (wDisk w) = content name d" for name by (simp add: content_def e(3))
  have "sgSize seg = word_of_nat (length (logged (recs i) @ t))"
    using Wal_Open_sizes [OF dl ne o] at s(1) torn(1) by (auto simp: sized_def fmpred_iff)
  with room e(6) have "\<not> maxSize w \<le>s sgSize seg" by simp
  note b = append_sync_bytes [OF c(1) s(2) this a, unfolded s(1) ce e(3)]
  show "k \<noteq> segment_name i \<Longrightarrow> fmlookup (files (wDisk w2)) k = fmlookup (files d) k" by (rule b(3))
  have "scans_as (content (segment_name j) (wDisk w2)) (recs j) \<and> fmlookup (files (wDisk w2)) (segment_name j) \<noteq> None"
    if j: "j \<in> I" for j
  proof (cases "j = i")
    case True
    have "fmlookup (files d) (segment_name i) \<noteq> None" using dl c(2) by (simp add: disk_log_def)
    with True b(2,4) torn scans_as_glued [OF torn(2,3) r, of "recs i"] show ?thesis by simp
  next
    case False
    have ij: "0 < i" "i < 2 ^ 63" "0 < j" "j < 2 ^ 63" using dl c(2) j by (simp_all add: disk_log_def)
    with False have "segment_name j \<noteq> segment_name i" by (simp add: segment_name_inject)
    with b(3) dl j show ?thesis by (simp add: disk_log_def content_def)
  qed
  moreover have "name \<in> segment_name ` I" if "segment_file name" "fmlookup (files (wDisk w2)) name \<noteq> None" for name
    using that b(3) [of name] dl c(2) by (cases "name = segment_name i") (auto simp: disk_log_def)
  ultimately show "disk_log (wDisk w2) I recs" using dl by (simp add: disk_log_def)
qed

section \<open>Properties\<close>

text \<open>
  C8. A record that is appended and synchronised after a crash can be lost all the same. When
  the crash left the beginning of a record, without a newline byte in it, at the end of the
  current segment, the first record written after the log is reopened continues that line;
  unless the checksum of the joined bytes happens to match, no later replay delivers it: each
  delivers what it would have delivered if the record had never been written.
\<close>

theorem torn_tail_swallows:
  assumes dl: "disk_log d I recs" and o: "Wal_Open ms d = (Inr w, d1)" and c: "currentLocked w = Some (i, seg)" "i \<in> I"
    and torn: "content (segment_name i) d = logged (recs i) @ t" "newline_free t" "length t < 36"
    and a: "Wal_Append r w = (Inr s, w1)" "Sync w1 = (None, w2)" and room: "\<not> ms \<le>s word_of_nat (length (logged (recs i) @ t))"
    and r: "frame_safe (r\<lparr>rSeq := s\<rparr>)" "\<not> verifyChecksum (t @ appendChecksum (payload (r\<lparr>rSeq := s\<rparr>)))"
    and again: "files d2 = files (wDisk w2)" "Wal_Open ms' d2 = (Inr w', d3)"
    and clean: "faults (wDisk w) = []" "faults (wDisk w') = []"
  shows "fst (Replay from fn st w') = fst (Replay from fn st w)"
proof -
  have ne: "I \<noteq> {}" using c(2) by blast
  note e = Wal_Open_effect [OF dl ne o]
  have "disk_log d2 I recs"
    using torn_tail_log(1) [OF dl o c torn a room r] disk_log_cong [OF again(1)] by simp
  note e2 = Wal_Open_effect [OF this ne again(2)]
  have "wal_entries w' recs = wal_entries w recs"
    using e2(1) e(1) same_keys_order [of "segments w'" "segments w"] by (simp add: wal_entries_def)
  then show ?thesis
    using Replay_readable [OF e2(2) clean(2), of "from" fn st] Replay_readable [OF e(2) clean(1), of "from" fn st]
    by simp
qed

text \<open>One byte of a record is on the disk; the next record is written whole and never seen again.\<close>

definition torn_disk :: disk where
  "torn_disk = \<lparr>files = fmupd (segment_name 1) [1] fmempty, faults = []\<rparr>"

lemma torn_disk_log: "disk_log torn_disk {1} (\<lambda>_. [])"
  using scans_as_torn [of "[1]" "[]"] by (auto simp: disk_log_def torn_disk_def content_def split: if_splits)

lemma append_sync_clean:
  assumes c: "currentLocked w = Some (i, seg)" "sgWriter seg = new_writer" and room: "\<not> maxSize w \<le>s sgSize seg"
    and nf: "faults (wDisk w) = []"
  obtains w1 w2 where "Wal_Append r w = (Inr (nextSeq w), w1)" "Sync w1 = (None, w2)" "faults (wDisk w2) = []"
proof -
  let ?r = "r\<lparr>rSeq := nextSeq w\<rparr>"
  have at: "i = top_index (segments w)" "fmlookup (segments w) i = Some seg"
    using c(1) by (auto simp: currentLocked_def Let_def)
  obtain wr d where b: "bufio_write (sgName seg) (encodeRecord ?r) (sgWriter seg) (wDisk w) = (None, wr, d)" "faults d = []"
    using bufio_write_ok [OF nf, of "sgWriter seg" "sgName seg" "encodeRecord ?r"] c(2) by (auto simp: new_writer_def)
  then have ok: "sound wr"
    using wrote_sound [of "sgName seg" "sgWriter seg" "wDisk w" "encodeRecord ?r" wr d] c(2)
      bufio_write_wrote [of "sgName seg" "sgWriter seg" "wDisk w" "encodeRecord ?r"] by (simp add: new_writer_def)
  then obtain wr' d' where f: "bufio_flush (sgName seg) wr d = (None, wr', d')" "faults d' = []"
    using bufio_flush_ok [OF b(2)] by blast
  have "\<not> wClosed wr'" using bufio_flush_clears [OF f(1)] ok by (simp add: sound_def)
  obtain seg1 where s1: "seg_write ?r seg (wDisk w) = (None, seg1, d)" "sgWriter seg1 = wr" "sgName seg1 = sgName seg"
    using b(1) by (simp add: seg_write_def Let_def)
  let ?w1 = "w\<lparr>segments := fmupd i seg1 (segments w), wDisk := d, nextSeq := nextSeq w + 1\<rparr>"
  have a: "Wal_Append r w = (Inr (nextSeq w), ?w1)"
    using c(1) room s1(1) by (simp add: Wal_Append_def write_current_def Let_def)
  have "currentLocked ?w1 = Some (i, seg1)" using at top_index_update [OF at(2)] by (simp add: currentLocked_def Let_def)
  with f s1 \<open>\<not> wClosed wr'\<close> have "\<exists>w2. Sync ?w1 = (None, w2) \<and> faults (wDisk w2) = []"
    by (simp add: Sync_def flush_at_def seg_flush_def os_call_def next_fault_none)
  with a that show ?thesis by blast
qed

lemma fold_zeros: "fold (\<lambda>l n. if n \<le> l then l + 1 else n) (map (\<lambda>_. 0) xs) 1 = (1 :: uint64)"
  by (induction xs) simp_all

theorem torn_tail_swallows_witness:
  "\<exists>w d1 w1 w2 w' d3. Wal_Open 1024 torn_disk = (Inr w, d1) \<and> Wal_Append demo_record w = (Inr 1, w1) \<and> Sync w1 = (None, w2)
    \<and> Wal_Open 1024 (wDisk w2) = (Inr w', d3)
    \<and> fst (Replay 0 (\<lambda>r rs. (None, rs @ [r])) [] w') = (None, [])"
proof -
  have cp: "checkpoint_value torn_disk = Some 0"
    using not_segment_file(1) segment_file_name [of 1] by (auto simp: checkpoint_value_def torn_disk_def)
  obtain w d1 where o: "Wal_Open 1024 torn_disk = (Inr w, d1)" "faults (wDisk w) = []"
    using Wal_Open_clean [OF _ torn_disk_log _ cp, of 1024] by (auto simp: torn_disk_def)
  note e = Wal_Open_effect [OF torn_disk_log _ o(1), simplified]
  obtain names where n: "set names = {segment_name 1}" "nextSeq w = fold (\<lambda>l n. if n \<le> l then l + 1 else n) (map (\<lambda>_. 0) names) 0"
    using e(7) by (auto simp: last_of_def max_seq_def)
  then have ns: "nextSeq w = 1" using fold_zeros by (cases names) simp_all
  have "top_index (segments w) = 1" using top_index_single [OF e(1)] by simp
  moreover obtain seg where seg: "fmlookup (segments w) 1 = Some seg" using e(1) by (metis fmlookup_dom'_iff singletonI)
  ultimately have c: "currentLocked w = Some (1, seg)" by (simp add: currentLocked_def Let_def)
  have s: "sgWriter seg = new_writer" using e(5) seg by (auto simp: loaded_def fmpred_iff)
  have "sgSize seg = 1"
    using Wal_Open_sizes [OF torn_disk_log _ o(1)] seg e(5) by (auto simp: sized_def loaded_def fmpred_iff torn_disk_def content_def)
  then have room: "\<not> maxSize w \<le>s sgSize seg" using e(6) by (simp add: go_int)
  obtain w1 w2 where a: "Wal_Append demo_record w = (Inr 1, w1)" "Sync w1 = (None, w2)" "faults (wDisk w2) = []"
    using append_sync_clean [OF c s room o(2), of demo_record] ns by metis
  have torn: "content (segment_name 1) torn_disk = logged [] @ [1]" "newline_free [1]" "length [1 :: byte] < 36"
    by (simp_all add: torn_disk_def content_def newline_free_def)
  have r: "demo_record\<lparr>rSeq := 1\<rparr> = demo_record" by (simp add: demo_record_def)
  have bad: "\<not> verifyChecksum ([1] @ appendChecksum (payload (demo_record\<lparr>rSeq := 1\<rparr>)))"
    unfolding r by (simp add: demo_record_def verifyChecksum_def recordSize_def payload_def appendChecksum_def crcSize_def
      put8 put4 checksum_def crc_byte_def crc_bit_def funpow8 crc_poly_def)
  have small: "\<not> (1024 :: int64) \<le>s word_of_nat (length (logged [] @ [1]))" by (simp add: go_int)
  have safe: "frame_safe (demo_record\<lparr>rSeq := 1\<rparr>)" unfolding r by (rule demo_record_safe)
  note after = torn_tail_log [OF torn_disk_log o(1) c _ torn a(1,2) small safe bad]
  have "checkpointName \<noteq> segment_name 1" using not_segment_file(1) segment_file_name [of 1] by auto
  then have "checkpoint_value (wDisk w2) = Some 0" using after(2) cp by (simp add: checkpoint_value_def)
  then obtain w' d3 where o2: "Wal_Open 1024 (wDisk w2) = (Inr w', d3)" "faults (wDisk w') = []"
    using Wal_Open_clean [OF a(3) after(1), of 0 1024] by auto
  have "fst (Replay 0 (\<lambda>r rs. (None, rs @ [r])) [] w) = (None, [])"
    using Replay_readable [OF e(2) o(2), of 0 "\<lambda>r rs. (None, rs @ [r])" "[]"] key_order_single [OF e(1)]
    by (simp add: wal_entries_def found_def)
  with torn_tail_swallows [OF torn_disk_log o(1) c singletonI torn a(1,2) small safe bad refl o2(1) o(2) o2(2),
      of 0 "\<lambda>r rs. (None, rs @ [r])" "[]"]
  have "fst (Replay 0 (\<lambda>r rs. (None, rs @ [r])) [] w') = (None, [])" by simp
  with o(1) a(1,2) o2(1) show ?thesis by blast
qed

end
