(* ===== verification/XXDigest.thy ===== *)
theory XXDigest
  imports XXHash
begin

text \<open>
  The streaming interface of the vendored hash (\<open>xxhash.go\<close>, \<open>xxhash_other.go\<close>): a \<open>Digest\<close>
  takes the input in pieces, keeps the last incomplete block, and can be saved and restored.
  It computes what \<open>Sum64\<close> computes on the whole input, however the input is cut.
\<close>

section \<open>The digest\<close>

record digest =
  dLanes :: lanes
  dTotal :: uint64
  dMem :: "byte list"
  dN :: nat

definition ResetWithSeed :: "uint64 \<Rightarrow> digest \<Rightarrow> digest" where
  "ResetWithSeed seed d =
     d\<lparr>dLanes := (seed + prime1 + prime2, seed + prime2, seed, seed - prime1), dTotal := 0, dN := 0\<rparr>"

definition Reset :: "digest \<Rightarrow> digest" where
  "Reset d = ResetWithSeed 0 d"

definition NewWithSeed :: "uint64 \<Rightarrow> digest" where
  "NewWithSeed seed = ResetWithSeed seed \<lparr>dLanes = (0, 0, 0, 0), dTotal = 0, dMem = replicate 32 0, dN = 0\<rparr>"

definition NewDigest :: digest where
  "NewDigest = NewWithSeed 0"

text \<open>Go's \<open>copy\<close> into a slice that starts at \<open>i\<close> and ends where the array ends.\<close>

definition copy_at :: "nat \<Rightarrow> byte list \<Rightarrow> byte list \<Rightarrow> byte list" where
  "copy_at i b mem = take i mem @ take (length mem - i) b @ drop (i + length b) mem"

definition writeBlocks :: "lanes \<Rightarrow> byte list \<Rightarrow> lanes \<times> nat" where
  "writeBlocks v b = (case stripes v b of (v', rest) \<Rightarrow> (v', length b - length rest))"

definition Digest_Write :: "byte list \<Rightarrow> digest \<Rightarrow> digest" where
  "Digest_Write b d =
     (let d1 = d\<lparr>dTotal := dTotal d + of_nat (length b)\<rparr>;
          i = dN d mod 32
      in if dN d + length b < 32
         then d1\<lparr>dMem := copy_at i b (dMem d), dN := dN d + length b\<rparr>
         else
           (let (d2, b2) =
              (if 0 < dN d
               then (let mem = copy_at i b (dMem d)
                     in (d1\<lparr>dMem := mem, dLanes := stripe (dLanes d) mem, dN := 0\<rparr>, drop (min (32 - i) (length b)) b))
               else (d1, b));
                (d3, b3) =
              (if 32 \<le> length b2
               then (case writeBlocks (dLanes d2) b2 of (v, nw) \<Rightarrow> (d2\<lparr>dLanes := v\<rparr>, drop nw b2))
               else (d2, b2))
            in d3\<lparr>dMem := copy_at 0 b3 (dMem d3), dN := length b3\<rparr>))"

definition WriteString :: "string \<Rightarrow> digest \<Rightarrow> digest" where
  "WriteString s = Digest_Write (bytes_of s)"

definition Digest_Sum64 :: "digest \<Rightarrow> uint64" where
  "Digest_Sum64 d =
     (let h = (if 32 \<le> dTotal d then merge_lanes (dLanes d)
               else (case dLanes d of (v1, v2, v3, v4) \<Rightarrow> v3 + prime5))
      in finish (h + dTotal d) (take (dN d mod 32) (dMem d)))"

definition Digest_Sum :: "byte list \<Rightarrow> digest \<Rightarrow> byte list" where
  "Digest_Sum b d = (let s = Digest_Sum64 d in b @ map (\<lambda>k. ucast (drop_bit k s)) [56, 48, 40, 32, 24, 16, 8, 0])"

section \<open>Saving and restoring\<close>

datatype digest_error = BadIdentifier | BadSize

definition magic :: "byte list" where
  "magic = [0x78, 0x78, 0x68, 0x06]"

definition marshaledSize :: nat where
  "marshaledSize = length magic + 8 * 5 + 32"

definition MarshalBinary :: "digest \<Rightarrow> byte list" where
  "MarshalBinary d =
     (case dLanes d of (v1, v2, v3, v4) \<Rightarrow>
        magic @ put_le 8 v1 @ put_le 8 v2 @ put_le 8 v3 @ put_le 8 v4 @ put_le 8 (dTotal d)
        @ take (dN d) (dMem d) @ replicate (length (dMem d) - dN d) 0)"

definition consumeUint64 :: "byte list \<Rightarrow> byte list \<times> uint64" where
  "consumeUint64 b = (drop 8 b, get_le (take 8 b))"

definition UnmarshalBinary :: "byte list \<Rightarrow> digest \<Rightarrow> digest_error + digest" where
  "UnmarshalBinary b d =
     (if length b < length magic \<or> take (length magic) b \<noteq> magic then Inl BadIdentifier
      else if length b \<noteq> marshaledSize then Inl BadSize
      else
        (let (b1, v1) = consumeUint64 (drop (length magic) b);
             (b2, v2) = consumeUint64 b1;
             (b3, v3) = consumeUint64 b2;
             (b4, v4) = consumeUint64 b3;
             (b5, total) = consumeUint64 b4
         in Inr (d\<lparr>dLanes := (v1, v2, v3, v4), dTotal := total,
                  dMem := copy_at 0 b5 (dMem d), dN := unat (total mod 32)\<rparr>)))"

section \<open>A digest stands for the bytes written to it\<close>

text \<open>\<open>digest_holds seed bs d\<close>: the lanes have taken the whole blocks of \<open>bs\<close>, the memory holds the rest.\<close>

definition seed_lanes :: "uint64 \<Rightarrow> lanes" where
  "seed_lanes seed = (seed + prime1 + prime2, seed + prime2, seed, seed - prime1)"

definition digest_holds :: "uint64 \<Rightarrow> byte list \<Rightarrow> digest \<Rightarrow> bool" where
  "digest_holds seed bs d \<longleftrightarrow> stripes (seed_lanes seed) bs = (dLanes d, take (dN d) (dMem d))
     \<and> dTotal d = of_nat (length bs) \<and> dN d = length bs mod 32 \<and> length (dMem d) = 32"

lemma length_copy_at [simp]: "i \<le> length mem \<Longrightarrow> length (copy_at i b mem) = length mem"
  by (simp add: copy_at_def)

lemma take_copy_at:
  "i + length b \<le> length mem \<Longrightarrow> take (i + length b) (copy_at i b mem) = take i mem @ b"
  by (simp add: copy_at_def)

lemma copy_at_full:
  "i \<le> length mem \<Longrightarrow> length mem \<le> i + length b \<Longrightarrow> copy_at i b mem = take i mem @ take (length mem - i) b"
  by (simp add: copy_at_def)

lemma stripes_short: "length b < 32 \<Longrightarrow> stripes v b = (v, b)"
  by (simp add: stripes.simps)

lemma stripes_step: "32 \<le> length b \<Longrightarrow> stripes v b = stripes (stripe v b) (drop 32 b)"
  by (simp add: stripes.simps)

lemma stripe_take: "stripe v (take 32 b) = stripe v b"
  by (cases v) (simp add: stripe_def drop_take min_def)

lemma stripes_rest: "length (snd (stripes v b)) = length b mod 32"
proof (induction v b rule: stripes.induct)
  case (1 v b)
  then show ?case by (cases "32 \<le> length b") (simp_all add: stripes.simps [of v b] le_mod_geq)
qed

lemma stripes_append: "stripes v (xs @ ys) = (case stripes v xs of (v', r) \<Rightarrow> stripes v' (r @ ys))"
proof (induction v xs rule: stripes.induct)
  case (1 v xs)
  show ?case
  proof (cases "32 \<le> length xs")
    case True
    have "stripe v (xs @ ys) = stripe v xs" using True stripe_take [of v "xs @ ys"] stripe_take [of v xs] by simp
    then show ?thesis using 1 True stripes_step [of "xs @ ys" v] stripes_step [of xs v] by simp
  next
    case False
    then show ?thesis by (simp add: stripes_short)
  qed
qed

lemma stripes_suffix: "drop (length b - length (snd (stripes v b))) b = snd (stripes v b)"
proof (induction v b rule: stripes.induct)
  case (1 v b)
  show ?case
  proof (cases "32 \<le> length b")
    case True
    let ?rest = "snd (stripes (stripe v b) (drop 32 b))"
    have "length ?rest \<le> length b - 32" using stripes_rest [of "stripe v b" "drop 32 b"] by (metis length_drop mod_less_eq_dividend)
    then have "length b - length ?rest = (length (drop 32 b) - length ?rest) + 32" using True by simp
    then have "drop (length b - length ?rest) b = drop (length (drop 32 b) - length ?rest) (drop 32 b)" by (simp only: drop_drop)
    with 1 True show ?thesis by (simp add: stripes_step)
  qed (simp add: stripes_short)
qed

lemma writeBlocks_stripes:
  "(case writeBlocks v b of (v', nw) \<Rightarrow> (v', drop nw b)) = stripes v b"
  using stripes_suffix [of b v] by (simp add: writeBlocks_def split_beta prod_eq_iff)

lemma NewWithSeed_holds: "digest_holds seed [] (NewWithSeed seed)"
  by (simp add: digest_holds_def NewWithSeed_def ResetWithSeed_def seed_lanes_def stripes_short)

lemma ResetWithSeed_holds: "length (dMem d) = 32 \<Longrightarrow> digest_holds seed [] (ResetWithSeed seed d)"
  by (simp add: digest_holds_def ResetWithSeed_def seed_lanes_def stripes_short)

lemma Write_long:
  assumes n: "dN d < 32" "length (dMem d) = 32" "\<not> dN d + length b < 32"
  shows "(dLanes (Digest_Write b d), take (dN (Digest_Write b d)) (dMem (Digest_Write b d)))
      = stripes (dLanes d) (take (dN d) (dMem d) @ b)"
    and "dN (Digest_Write b d) = length (snd (stripes (dLanes d) (take (dN d) (dMem d) @ b)))"
    and "dTotal (Digest_Write b d) = dTotal d + of_nat (length b)" "length (dMem (Digest_Write b d)) = 32"
proof -
  let ?n = "dN d" and ?d1 = "d\<lparr>dTotal := dTotal d + of_nat (length b)\<rparr>"
  let ?mem = "copy_at (?n mod 32) b (dMem d)" and ?r = "take ?n (dMem d)"
  obtain d2 b2 where two: "(if 0 < ?n then (?d1\<lparr>dMem := ?mem, dLanes := stripe (dLanes d) ?mem, dN := 0\<rparr>, drop (min (32 - ?n mod 32) (length b)) b)
      else (?d1, b)) = (d2, b2)" by (metis prod.exhaust)
  have d2: "stripes (dLanes d2) b2 = stripes (dLanes d) (?r @ b)" "length (dMem d2) = 32" "dTotal d2 = dTotal d + of_nat (length b)"
  proof -
    have mem: "?mem = ?r @ take (32 - ?n) b" if "0 < ?n" using copy_at_full [of ?n "dMem d" b] n by simp
    have "stripes (stripe (dLanes d) ?mem) (drop (32 - ?n) b) = stripes (dLanes d) (?r @ b)" if "0 < ?n"
    proof -
      have len: "length ?mem = 32" using n by simp
      have "?r @ b = ?mem @ drop (32 - ?n) b" using mem [OF that] by simp
      moreover have "stripes (dLanes d) (?mem @ drop (32 - ?n) b) = stripes (stripe (dLanes d) ?mem) (drop (32 - ?n) b)"
        using len stripes_step [of "?mem @ drop (32 - ?n) b" "dLanes d"] stripe_take [of "dLanes d" "?mem @ drop (32 - ?n) b"] by simp
      ultimately show ?thesis by simp
    qed
    with two n show "stripes (dLanes d2) b2 = stripes (dLanes d) (?r @ b)" by (auto simp: min_def split: if_splits)
    show "length (dMem d2) = 32" "dTotal d2 = dTotal d + of_nat (length b)" using two n by (auto split: if_splits)
  qed
  obtain v rest where st: "stripes (dLanes d2) b2 = (v, rest)" by (rule prod.exhaust)
  have blocks: "(if 32 \<le> length b2 then (case writeBlocks (dLanes d2) b2 of (v, nw) \<Rightarrow> (d2\<lparr>dLanes := v\<rparr>, drop nw b2)) else (d2, b2))
      = (d2\<lparr>dLanes := v\<rparr>, rest)"
    using writeBlocks_stripes [of b2 "dLanes d2"] st stripes_short [of b2 "dLanes d2"] by (auto split: prod.splits)
  have w: "Digest_Write b d = d2\<lparr>dLanes := v, dMem := copy_at 0 rest (dMem d2), dN := length rest\<rparr>"
    unfolding Digest_Write_def Let_def by (simp only: n(3) if_False two blocks prod.case digest.simps) simp
  have "length rest < 32" using stripes_rest [of "dLanes d2" b2] st by simp
  then have "take (length rest) (copy_at 0 rest (dMem d2)) = rest" using take_copy_at [of 0 rest "dMem d2"] d2(2) by simp
  then show "(dLanes (Digest_Write b d), take (dN (Digest_Write b d)) (dMem (Digest_Write b d))) = stripes (dLanes d) (?r @ b)"
    "dN (Digest_Write b d) = length (snd (stripes (dLanes d) (?r @ b)))"
    "dTotal (Digest_Write b d) = dTotal d + of_nat (length b)" "length (dMem (Digest_Write b d)) = 32"
  proof -
    from st have s: "stripes (dLanes d) (?r @ b) = (v, rest)" by (simp only: d2(1))
    show "(dLanes (Digest_Write b d), take (dN (Digest_Write b d)) (dMem (Digest_Write b d))) = stripes (dLanes d) (?r @ b)"
      using \<open>take (length rest) (copy_at 0 rest (dMem d2)) = rest\<close> by (simp add: s w)
    show "dN (Digest_Write b d) = length (snd (stripes (dLanes d) (?r @ b)))" by (simp add: s w)
    show "dTotal (Digest_Write b d) = dTotal d + of_nat (length b)" "length (dMem (Digest_Write b d)) = 32"
      using d2 by (simp_all add: w)
  qed
qed

lemma Write_holds:
  assumes "digest_holds seed bs d"
  shows "digest_holds seed (bs @ b) (Digest_Write b d)"
proof -
  from assms have d: "stripes (seed_lanes seed) bs = (dLanes d, take (dN d) (dMem d))"
      "dTotal d = of_nat (length bs)" "dN d = length bs mod 32" "length (dMem d) = 32" by (simp_all add: digest_holds_def)
  from d(3) have n: "dN d < 32" by simp
  have app: "stripes (seed_lanes seed) (bs @ b) = stripes (dLanes d) (take (dN d) (dMem d) @ b)"
    using stripes_append [of "seed_lanes seed" bs b] by (simp only: d(1) prod.case)
  show ?thesis
  proof (cases "dN d + length b < 32")
    case True
    let ?d = "d\<lparr>dTotal := dTotal d + of_nat (length b), dMem := copy_at (dN d) b (dMem d), dN := dN d + length b\<rparr>"
    have w: "Digest_Write b d = ?d" using True n by (simp add: Digest_Write_def Let_def)
    have "(length bs + length b) mod 32 = (dN d + length b) mod 32" unfolding d(3) by (simp only: mod_add_left_eq)
    then have m: "dN d + length b = length (bs @ b) mod 32" by (simp only: length_append mod_less [OF True])
    have "take (dN d + length b) (copy_at (dN d) b (dMem d)) = take (dN d) (dMem d) @ b"
      using True d(4) by (intro take_copy_at) simp
    moreover have "stripes (dLanes d) (take (dN d) (dMem d) @ b) = (dLanes d, take (dN d) (dMem d) @ b)"
      using True d(4) n by (intro stripes_short) simp
    ultimately have s: "stripes (seed_lanes seed) (bs @ b) = (dLanes ?d, take (dN ?d) (dMem ?d))" by (simp add: app)
    have t: "dTotal ?d = of_nat (length (bs @ b))" by (simp add: d(2))
    have l: "dN ?d = length (bs @ b) mod 32" "length (dMem ?d) = 32" using m d(4) by simp_all
    show ?thesis unfolding w digest_holds_def by (intro conjI s t l)
  next
    case False
    note w = Write_long [OF n d(4) False]
    have "dN (Digest_Write b d) = length (bs @ b) mod 32" unfolding w(2) app [symmetric] by (rule stripes_rest)
    moreover have "dTotal (Digest_Write b d) = of_nat (length (bs @ b))" by (simp add: w(3) d(2))
    moreover note w(4) w(1) [symmetric, folded app]
    ultimately show ?thesis unfolding digest_holds_def by (intro conjI)
  qed
qed

lemma Writes_hold: "digest_holds seed bs d \<Longrightarrow> digest_holds seed (bs @ concat chunks) (fold Digest_Write chunks d)"
proof (induction chunks arbitrary: bs d)
  case (Cons b chunks)
  from Cons.IH [OF Write_holds [OF Cons.prems]] show ?case by simp
qed simp

text \<open>What the sum is of, given the bytes.\<close>

definition sum_of :: "uint64 \<Rightarrow> byte list \<Rightarrow> uint64" where
  "sum_of seed bs =
     (case stripes (seed_lanes seed) bs of
        (v, r) \<Rightarrow> finish ((if 32 \<le> length bs then merge_lanes v else seed + prime5) + of_nat (length bs)) r)"

lemma Sum64_holds:
  assumes "digest_holds seed bs d" and "length bs < 2 ^ 64"
  shows "Digest_Sum64 d = sum_of seed bs"
proof -
  from assms(1) have d: "stripes (seed_lanes seed) bs = (dLanes d, take (dN d) (dMem d))"
      "dTotal d = of_nat (length bs)" "dN d < 32" by (auto simp: digest_holds_def)
  have t: "32 \<le> dTotal d \<longleftrightarrow> 32 \<le> length bs"
    using assms(2) by (simp add: d(2) word_le_nat_alt unat_of_nat)
  have "dLanes d = seed_lanes seed" if "length bs < 32" using d(1) stripes_short [OF that, of "seed_lanes seed"] by simp
  then show ?thesis using d t by (auto simp: Digest_Sum64_def sum_of_def seed_lanes_def Let_def not_le)
qed

lemma sum_of_one_shot: "sum_of 0 bs = Sum64 bs"
proof -
  have "seed_lanes 0 = init_lanes" by (simp add: seed_lanes_def init_lanes_def)
  then show ?thesis using stripes_short [of bs init_lanes] by (auto simp: sum_of_def Sum64_def not_le split: prod.split)
qed

section \<open>Properties\<close>

text \<open>
  C36. The streaming hash does not depend on how its input is cut: after any writes to a digest
  with any seed, its sum is that of one write of all the bytes, and with the zero seed it is
  the one-shot \<open>Sum64\<close> with which the index places its keys.
\<close>

theorem digest_streams:
  assumes "length (concat chunks) < 2 ^ 64"
  shows "Digest_Sum64 (fold Digest_Write chunks (NewWithSeed seed)) = Digest_Sum64 (Digest_Write (concat chunks) (NewWithSeed seed))
    \<and> Digest_Sum64 (fold Digest_Write chunks NewDigest) = Sum64 (concat chunks)"
proof -
  have "Digest_Sum64 (fold Digest_Write chunks (NewWithSeed k)) = sum_of k (concat chunks)" for k
    using Sum64_holds [OF Writes_hold [OF NewWithSeed_holds]] assms by simp
  moreover have "Digest_Sum64 (Digest_Write (concat chunks) (NewWithSeed seed)) = sum_of seed (concat chunks)"
    using Sum64_holds [OF Write_holds [OF NewWithSeed_holds]] assms by simp
  ultimately show ?thesis by (simp add: NewDigest_def sum_of_one_shot)
qed

theorem digest_streams_witness:
  "Digest_Sum64 (fold Digest_Write [replicate 20 1, [2, 3], replicate 50 4] NewDigest)
    = Sum64 (replicate 20 1 @ [2, 3] @ replicate 50 4)"
  using digest_streams [of "[replicate 20 1, [2, 3], replicate 50 4]"] by simp

text \<open>
  A digest that is saved and restored, into whatever digest, goes on as if nothing had
  happened: after any further writes its sum is that of the original.
\<close>

theorem digest_restored:
  assumes "length (dMem e) = 32" and "d = fold Digest_Write chunks (NewWithSeed seed)"
    and "length (concat chunks) + length (concat later) < 2 ^ 64"
  shows "\<exists>d'. UnmarshalBinary (MarshalBinary d) e = Inr d'
    \<and> Digest_Sum64 (fold Digest_Write later d') = Digest_Sum64 (fold Digest_Write later d)"
proof -
  have h: "digest_holds seed (concat chunks) d" using Writes_hold [OF NewWithSeed_holds, of seed chunks] assms(2) by simp
  then have n: "dN d < 32" "length (dMem d) = 32" "dTotal d = of_nat (length (concat chunks))" "dN d = length (concat chunks) mod 32"
    by (simp_all add: digest_holds_def)
  obtain v1 v2 v3 v4 where v: "dLanes d = (v1, v2, v3, v4)" by (metis prod.exhaust)
  have len: "length (MarshalBinary d) = marshaledSize"
    using n by (simp add: MarshalBinary_def v marshaledSize_def magic_def)
  have "unat (dTotal d mod 32) = dN d"
    using assms(3) n(3,4) by (simp add: unat_mod unat_of_nat)
  moreover have "take (dN d) (copy_at 0 (take (dN d) (dMem d) @ replicate (32 - dN d) 0) (dMem e)) = take (dN d) (dMem d)"
    using n assms(1) by (simp add: copy_at_def)
  ultimately obtain d' where d': "UnmarshalBinary (MarshalBinary d) e = Inr d'" "dLanes d' = dLanes d" "dTotal d' = dTotal d"
      "dN d' = dN d" "take (dN d) (dMem d') = take (dN d) (dMem d)" "length (dMem d') = 32"
    using n(2) assms(1) len
    by (simp add: UnmarshalBinary_def MarshalBinary_def v magic_def consumeUint64_def get_put_le_full)
  with h have "digest_holds seed (concat chunks) d'" by (simp add: digest_holds_def)
  from Sum64_holds [OF Writes_hold [OF this]] Sum64_holds [OF Writes_hold [OF h]] d'(1) assms(3) show ?thesis by simp
qed

theorem digest_restored_witness:
  "\<exists>d'. UnmarshalBinary (MarshalBinary (Digest_Write [1, 2, 3] (NewWithSeed 7))) NewDigest = Inr d'
    \<and> Digest_Sum64 (Digest_Write [4] d') = Digest_Sum64 (Digest_Write [4] (Digest_Write [1, 2, 3] (NewWithSeed 7)))"
  using digest_restored [of NewDigest "Digest_Write [1, 2, 3] (NewWithSeed 7)" "[[1, 2, 3]]" 7 "[[4]]"]
  by (simp add: NewDigest_def NewWithSeed_def ResetWithSeed_def)

end
