(* ===== verification/CleanStop.thy ===== *)
theory CleanStop
  imports LogRecords
begin

text \<open>
  The log of a process that is stopped in order: what \<open>Close\<close> leaves in the files, what a
  truncation can leave at most, and how the files alone show that no record in them will be
  misread.
\<close>

section \<open>What a truncation leaves at most\<close>

lemma TruncateTo_within:
  assumes ok: "wal_ok w recs" and ks: "visits ks (segments w)" and t: "TruncateTo ks s w = (None, w')"
  obtains recs' where "wal_ok w' recs'" "set (wal_entries w' recs') \<subseteq> set (wal_entries w recs)"
    "top_index (segments w') \<le> top_index (segments w)"
proof (cases "fmpred (\<lambda>_ seg. sgLast seg \<le> s) (segments w)")
  case True
  note e = TruncateTo_all [OF ok ks True t]
  obtain seg where "seg_at w recs (top_index (segments w)) seg" by (rule wal_ok_current [OF ok])
  then have "1 \<le> top_index (segments w)" by (simp add: seg_at_def)
  moreover have "top_index (segments w') = 1" by (rule top_index_single [OF e(3)]) simp
  ultimately show ?thesis using e(1,2) by (intro that [of "recs(1 := [])"]) simp_all
next
  case False
  then obtain i seg where i: "fmlookup (segments w) i = Some seg" "s < sgLast seg"
    by (auto simp: fmpred_iff not_le)
  obtain w1 where w1: "drop_segments (\<lambda>seg. sgLast seg \<le> s) ks w = (None, w1)" "wal_ok w1 recs"
      "rewrite_current s w1 = (None, w')" "\<exists>s. fmlookup (segments w) (top_index (segments w1)) = Some s"
    by (rule TruncateTo_some [OF ok ks i t])
  let ?top = "top_index (segments w1)"
  note dr = TruncateTo_drop [OF ok ks w1(1)]
  obtain cur where sa: "seg_at w1 recs ?top cur" by (rule wal_ok_current [OF w1(2)])
  then have "logged (recs ?top) = content (segment_name ?top) (wDisk w1) @ wBuf (sgWriter cur)"
    by (auto simp: seg_at_def seg_ok_def)
  from scans_as_prefix [OF this] obtain m where sc: "scans_as (content (segment_name ?top) (wDisk w1)) (take m (recs ?top))"
    by blast
  note e = rewrite_current_effect [OF w1(2) sc w1(3)]
  have sub: "set (found (s + 1) (take m (recs ?top))) \<subseteq> set (recs ?top)" by (auto simp: found_def dest: in_set_takeD)
  have "set (wal_entries w' (recs(?top := found (s + 1) (take m (recs ?top))))) \<subseteq> set (wal_entries w recs)"
    using sub by (fastforce simp: wal_entries_def e(6) dr(3))
  moreover have "top_index (segments w') = ?top" using e(6) by (simp add: top_index_def)
  moreover have "?top \<le> top_index (segments w)" using w1(4) top_index_ge(1) by blast
  ultimately show ?thesis using e(1) by (intro that) simp_all
qed

section \<open>Closing the log\<close>

definition flushed_to :: "segment \<Rightarrow> disk \<Rightarrow> disk" where
  "flushed_to seg d = (if wBuf (sgWriter seg) = [] then d else append_bytes (sgName seg) (wBuf (sgWriter seg)) d)"

lemma seg_flush_clean:
  assumes "faults d = []" and "sound (sgWriter seg)"
  shows "\<exists>seg' seg2. seg_flush seg d = (None, seg', flushed_to seg d) \<and> faults (flushed_to seg d) = []
    \<and> seg_close seg' (flushed_to seg d) = (None, seg2, flushed_to seg d)"
  using assms by (simp add: seg_flush_def seg_close_def bufio_flush_def file_write_def sound_def os_append_ok flushed_to_def)

lemma close_loop_clean:
  assumes "faults (wDisk w) = []"
    and "\<forall>i seg. fmlookup (segments w) i = Some seg \<longrightarrow> sound (sgWriter seg) \<and> (i \<noteq> cur \<longrightarrow> wBuf (sgWriter seg) = [])"
  shows "\<exists>w'. close_loop ks None w = (None, w') \<and> faults (wDisk w') = []
    \<and> wDisk w' = (case fmlookup (segments w) cur of
        None \<Rightarrow> wDisk w | Some seg \<Rightarrow> if cur \<in> set ks then flushed_to seg (wDisk w) else wDisk w)"
  using assms
proof (induction ks arbitrary: w)
  case (Cons i ks)
  show ?case
  proof (cases "fmlookup (segments w) i")
    case None
    with Cons.IH [OF Cons.prems] show ?thesis by (cases "i = cur") (auto split: option.split)
  next
    case (Some seg)
    obtain seg' seg2 where f: "seg_flush seg (wDisk w) = (None, seg', flushed_to seg (wDisk w))" "faults (flushed_to seg (wDisk w)) = []"
        "seg_close seg' (flushed_to seg (wDisk w)) = (None, seg2, flushed_to seg (wDisk w))"
      using seg_flush_clean Cons.prems Some by blast
    let ?w = "w\<lparr>segments := fmdrop i (segments w), wDisk := flushed_to seg (wDisk w)\<rparr>"
    have "\<forall>j s. fmlookup (segments ?w) j = Some s \<longrightarrow> sound (sgWriter s) \<and> (j \<noteq> cur \<longrightarrow> wBuf (sgWriter s) = [])"
      using Cons.prems(2) by (simp split: if_splits)
    with Cons.IH [of ?w] f(2) obtain w' where w': "close_loop ks None ?w = (None, w')" "faults (wDisk w') = []"
        "wDisk w' = (case fmlookup (segments ?w) cur of
          None \<Rightarrow> wDisk ?w | Some s \<Rightarrow> if cur \<in> set ks then flushed_to s (wDisk ?w) else wDisk ?w)"
      by auto
    have "flushed_to seg (wDisk w) = wDisk w" if "i \<noteq> cur" using Cons.prems(2) Some that by (simp add: flushed_to_def)
    with Some w' f show ?thesis by (cases "i = cur") (auto simp: Let_def split: option.split)
  qed
qed (simp split: option.split)

text \<open>Closing writes what a synchronisation writes: only the current segment has a buffer.\<close>

lemma Wal_Close_clean:
  assumes ok: "wal_ok w recs" and nf: "faults (wDisk w) = []" and ks: "visits ks (segments w)"
  obtains w' w1 where "Wal_Close ks w = (None, w')" "Sync w = (None, w1)" "wDisk w' = wDisk w1"
proof -
  let ?top = "top_index (segments w)"
  obtain seg where c: "currentLocked w = Some (?top, seg)" and at: "fmlookup (segments w) ?top = Some seg"
    by (rule wal_ok_current [OF ok])
  have b: "\<forall>i seg. fmlookup (segments w) i = Some seg \<longrightarrow>
      sound (sgWriter seg) \<and> (i \<noteq> ?top \<longrightarrow> wBuf (sgWriter seg) = [])"
    using wal_ok_seg [OF ok] by (fastforce simp: seg_at_def seg_ok_def)
  obtain seg' where f: "seg_flush seg (wDisk w) = (None, seg', flushed_to seg (wDisk w))"
    using seg_flush_clean [OF nf] b at by blast
  have "?top \<in> set ks" using visits_mem [OF ks] at by blast
  with close_loop_clean [OF nf b, of ks] at obtain w' where "Wal_Close ks w = (None, w')" "wDisk w' = flushed_to seg (wDisk w)"
    by (auto simp: Wal_Close_def)
  moreover have "Sync w = (None, w\<lparr>segments := fmupd ?top seg' (segments w), wDisk := flushed_to seg (wDisk w)\<rparr>)"
    using c f by (simp add: Sync_def flush_at_def)
  ultimately show ?thesis using that by fastforce
qed

section \<open>Files without stray line ends\<close>

text \<open>
  \<open>whole_lines bs\<close>: the bytes are lines of 37 bytes, the last of which is the newline and none
  of the others is, and no line has a carriage return before its newline. A record whose bytes
  would break this is what the scanner misreads.
\<close>

fun whole_lines :: "byte list \<Rightarrow> bool" where
  "whole_lines bs =
     (if bs = [] then True
      else if length bs < 37 then False
      else newline_free (take 36 bs) \<and> bs ! 35 \<noteq> 0x0D \<and> bs ! 36 = 0x0A \<and> whole_lines (drop 37 bs))"

declare whole_lines.simps [simp del]

definition intact :: "disk \<Rightarrow> bool" where
  "intact d \<longleftrightarrow> fmpred (\<lambda>name bs. segment_file name \<longrightarrow> whole_lines bs) (files d)"

lemma whole_lines_logged: "whole_lines (logged rs) \<longleftrightarrow> (\<forall>r \<in> set rs. frame_safe r)"
proof (induction rs)
  case Nil
  then show ?case by (simp add: logged_def whole_lines.simps)
next
  case (Cons r rs)
  let ?b = "appendChecksum (payload r)"
  have l: "logged (r # rs) = ?b @ 0x0A # logged rs" by (simp add: logged_def encodeRecord_def)
  have "?b \<noteq> []" by (metis length_body list.size(3) zero_neq_numeral)
  then have "(?b @ 0x0A # logged rs) ! 35 = last ?b" by (simp add: nth_append last_conv_nth)
  moreover have "(?b @ 0x0A # logged rs) ! 36 = 0x0A" by (simp add: nth_append)
  ultimately show ?case using Cons by (subst whole_lines.simps) (simp add: l frame_safe_def)
qed

lemma intact_safe:
  assumes ok: "wal_ok w recs" and sy: "all_synced w"
  shows "intact (wDisk w) \<longleftrightarrow> (\<forall>r \<in> set (wal_entries w recs). frame_safe r)"
proof -
  have c: "fmlookup (files (wDisk w)) (segment_name i) = Some (logged (recs i))" "segment_file (segment_name i)"
    if "fmlookup (segments w) i = Some seg" for i seg
    using wal_ok_seg [OF ok that] sy that
    by (auto simp: seg_at_def seg_ok_def content_def all_synced_def fmpred_iff segment_file_name split: option.splits)
  have n: "\<exists>i seg. fmlookup (segments w) i = Some seg \<and> name = segment_name i"
    if "segment_file name" "fmlookup (files (wDisk w)) name = Some bs" for name bs
    using wal_ok_log [OF ok] that by (auto simp: log_ok_def names_ok_def)
  have "intact (wDisk w) \<longleftrightarrow> (\<forall>i seg. fmlookup (segments w) i = Some seg \<longrightarrow> whole_lines (logged (recs i)))"
    unfolding intact_def fmpred_iff using c n by (metis option.sel)
  then show ?thesis
    by (auto simp: whole_lines_logged wal_entries_def set_key_order fmlookup_dom'_iff)
qed

lemma found_safe: "\<forall>r \<in> set rs. frame_safe r \<Longrightarrow> found from rs = filter (\<lambda>r. from \<le> rSeq r) rs"
  by (auto simp: found_def intro: filter_cong)

end
