(* ===== verification/CleanRestart.thy ===== *)
theory CleanRestart
  imports Restart CleanStop
begin

text \<open>
  Stopping in order and starting again. \<open>linked inp recs\<close> relates the memtable to the records of
  the log: for every timestamp from the start of the active window on, both hold the same value.
  Every step of a run without faulty calls keeps the link, so a stop and a start bring back
  exactly what was buffered of the window the start is in.
\<close>

section \<open>The link between the memtable and the log\<close>

definition active_start :: "database \<Rightarrow> int64" where
  "active_start db = shStart (last (shards (dbShards db)))"

definition unflushed :: "wal \<Rightarrow> (int \<Rightarrow> wal_record list) \<Rightarrow> wal_record list" where
  "unflushed w recs = filter (\<lambda>r. nextReplay w \<le> rSeq r) (wal_entries w recs)"

definition log_calm :: "wal \<Rightarrow> (int \<Rightarrow> wal_record list) \<Rightarrow> bool" where
  "log_calm w recs \<longleftrightarrow> wal_ok w recs \<and> faults (wDisk w) = []
     \<and> checkpoint_value (wDisk w) = Some (nextReplay w) \<and> nextReplay w \<le> nextSeq w
     \<and> (\<forall>r \<in> set (wal_entries w recs). rSeq r < nextSeq w)"

definition linked :: "ingest \<Rightarrow> (int \<Rightarrow> wal_record list) \<Rightarrow> bool" where
  "linked inp recs \<longleftrightarrow> log_calm (inWal inp) recs
     \<and> (\<forall>r \<in> set (unflushed (inWal inp) recs). rTS r <s active_end (inDb inp))
     \<and> (\<forall>sid ts. active_start (inDb inp) \<le>s ts \<longrightarrow>
          mem_value (inMem inp) sid ts = last_value (unflushed (inWal inp) recs) sid ts)"

lemma linked_cong:
  assumes "linked inp recs" and "inWal inp' = inWal inp" "inMem inp' = inMem inp"
    "dbShards (inDb inp') = dbShards (inDb inp)"
  shows "linked inp' recs"
  using assms by (simp add: linked_def active_start_def active_end_def)

text \<open>Windows have one length and the active one only moves forward, so its start does as well.\<close>

lemma active_window:
  assumes "mgr_inv m"
  shows "sint (shEnd (last (shards m))) = sint (shStart (last (shards m))) + sint (window m)" "0 < sint (window m)"
proof -
  have "last (shards m) \<in> set (shards m)" using assms by (simp add: mgr_inv_def)
  then show "sint (shEnd (last (shards m))) = sint (shStart (last (shards m))) + sint (window m)" "0 < sint (window m)"
    using assms by (auto simp: mgr_inv_def list_all_iff window_ok_def go_int)
qed

lemma active_start_mono:
  assumes "mgr_inv m" "mgr_inv m'" "window m' = window m" "shEnd (last (shards m)) \<le>s shEnd (last (shards m'))"
  shows "shStart (last (shards m)) \<le>s shStart (last (shards m'))"
  using active_window(1) [OF assms(1)] active_window(1) [OF assms(2)] assms(3,4) by (simp add: go_int)

lemma linked_moves:
  assumes l: "linked inp recs" and ok: "pipeline_ok inp" and m: "db_moves n (inDb inp) (inDb inp')"
    and same: "inWal inp' = inWal inp" "inMem inp' = inMem inp"
  shows "linked inp' recs"
proof -
  have "active_end (inDb inp) \<le>s active_end (inDb inp')" "window (dbShards (inDb inp')) = window (dbShards (inDb inp))"
    using m by (simp_all add: db_moves_def)
  moreover have "mgr_inv (dbShards (inDb inp))" "mgr_inv (dbShards (inDb inp'))"
    using ok db_moves_ok [OF m] by (simp_all add: pipeline_ok_def db_ok_def)
  ultimately have "active_start (inDb inp) \<le>s active_start (inDb inp')" "active_end (inDb inp) \<le>s active_end (inDb inp')"
    using active_start_mono by (simp_all add: active_start_def active_end_def)
  then show ?thesis using l unfolding linked_def same by (auto simp: go_int intro: less_le_trans)
qed

text \<open>Room in the log for \<open>n\<close> more records, and what an operation that adds at most \<open>n\<close> takes of it.\<close>

definition log_room :: "nat \<Rightarrow> wal \<Rightarrow> bool" where
  "log_room n w \<longleftrightarrow> top_index (segments w) + int n < 2 ^ 63 \<and> unat (nextSeq w) + n < 2 ^ 64"

definition log_grows :: "nat \<Rightarrow> wal \<Rightarrow> wal \<Rightarrow> bool" where
  "log_grows n w w' \<longleftrightarrow> top_index (segments w') \<le> top_index (segments w) + int n
     \<and> unat (nextSeq w') \<le> unat (nextSeq w) + n"

lemma log_grows_refl: "log_grows n w w"
  by (simp add: log_grows_def)

lemma log_grows_trans: "log_grows m a b \<Longrightarrow> log_grows n b c \<Longrightarrow> log_grows (m + n) a c"
  by (simp add: log_grows_def)

lemma log_grows_room: "log_grows m a b \<Longrightarrow> log_room (m + n) a \<Longrightarrow> log_room n b"
  by (simp add: log_grows_def log_room_def)

lemma log_calm_Sync:
  assumes "log_calm w recs"
  obtains w' where "Sync w = (None, w')" "log_calm w' recs" "unflushed w' recs = unflushed w recs" "all_synced w'"
    "wal_entries w' recs = wal_entries w recs" "log_grows 0 w w'" "nextReplay w' = nextReplay w"
proof -
  have ok: "wal_ok w recs" "faults (wDisk w) = []" using assms by (simp_all add: log_calm_def)
  obtain w' where s: "Sync w = (None, w')" "faults (wDisk w') = []" using Sync_clean [OF ok] by blast
  note e = Sync_effect [OF ok(1) s(1)]
  have "checkpoint_value (wDisk w') = checkpoint_value (wDisk w)"
    using e(8) [of checkpointName] not_segment_file(1) by (simp add: checkpoint_value_def)
  then show ?thesis using assms e s(2) by (intro that [OF s(1)]) (simp_all add: log_calm_def unflushed_def log_grows_def)
qed

section \<open>Flushing\<close>

text \<open>Once everything in the log is covered by blocks, moving the watermark and truncating leave nothing to replay.\<close>

lemma log_calm_flush:
  assumes l: "log_calm w recs" and s: "s + 1 = nextSeq w" and ord: "iterates ordW"
  obtains w1 w2 recs' where "SetReplayStart (s + 1) w = (None, w1)" "TruncateTo (ordW (segments w1)) s w1 = (None, w2)"
    "log_calm w2 recs'" "unflushed w2 recs' = []" "log_grows 0 w w2"
proof -
  have ok: "wal_ok w recs" "faults (wDisk w) = []" "nextReplay w \<le> nextSeq w" using l by (simp_all add: log_calm_def)
  obtain w1 where w1: "SetReplayStart (s + 1) w = (None, w1)" "faults (wDisk w1) = []"
    using SetReplayStart_clean [OF ok(2)] by blast
  note e = SetReplayStart_effect [OF w1(1)]
  have ok1: "wal_ok w1 recs" using ok(1) log_ok_frame [of w recs w1] e(1,6) by (simp add: wal_ok_def)
  note v = iterates_visits [OF ord, of "segments w1"]
  obtain w2 where w2: "TruncateTo (ordW (segments w1)) s w1 = (None, w2)" "faults (wDisk w2) = []"
    using TruncateTo_clean [OF ok1 v w1(2)] by blast
  obtain recs' where r: "wal_ok w2 recs'" "set (wal_entries w2 recs') \<subseteq> set (wal_entries w1 recs)"
      "top_index (segments w2) \<le> top_index (segments w1)" by (rule TruncateTo_within [OF ok1 v w2(1)])
  have c: "nextSeq w2 = nextSeq w1" "nextReplay w2 = nextReplay w1"
    using TruncateTo_counters [of "ordW (segments w1)" s w1] w2(1) by simp_all
  have n: "nextReplay w1 = nextSeq w" using e(3) ok(3) s by (simp add: max_absorb2)
  have sub: "rSeq r < nextSeq w" if "r \<in> set (wal_entries w2 recs')" for r
    using that r(2) l e(1) by (auto simp: log_calm_def wal_entries_def)
  have "checkpoint_value (wDisk w2) = Some (nextReplay w2)"
    using TruncateTo_ok [OF ok1 v w2(1)] e(5) c(2) by simp
  then have "log_calm w2 recs'" using r(1) w2(2) c n e(2) sub by (simp add: log_calm_def)
  moreover have "unflushed w2 recs' = []" using sub c(2) n by (auto simp: unflushed_def filter_empty_conv not_le)
  moreover have "log_grows 0 w w2" using r(3) c(1) e(1,2) by (simp add: log_grows_def)
  ultimately show ?thesis using that w1(1) w2(1) by blast
qed

lemma flushLocked_linked:
  assumes ord: "iterates ordS" "iterates ordW" and ok: "pipeline_ok inp" and l: "linked inp recs"
    and s: "s + 1 = nextSeq (inWal inp)" and f: "flushLocked ordS ordW s inp = (e, inp')"
  shows "e = None" "\<exists>recs'. linked inp' recs'" "log_grows 0 (inWal inp) (inWal inp')"
proof -
  have inv: "ingest_inv inp" using ok by (simp add: pipeline_ok_def)
  have "e = None \<and> (\<exists>recs'. linked inp' recs') \<and> log_grows 0 (inWal inp) (inWal inp')"
  proof (cases "Len (inMem inp) = 0")
    case True
    then have "e = None" "inp' = inp" using f by (simp_all add: flushLocked_def)
    with l log_grows_refl show ?thesis by auto
  next
    case False
    have r: "routed (dbShards (inDb inp)) (byID (current (inMem inp)))" using inv by (simp add: ingest_inv_def)
    have lc: "log_calm (inWal inp) recs" using l by (simp add: linked_def)
    obtain w1 w2 recs' where w: "SetReplayStart (s + 1) (inWal inp) = (None, w1)"
        "TruncateTo (ordW (segments w1)) s w1 = (None, w2)" "log_calm w2 recs'" "unflushed w2 recs' = []"
        "log_grows 0 (inWal inp) w2" by (rule log_calm_flush [OF lc s ord(2)])
    obtain ew w' where e: "SetReplayStart (s + 1) (inWal inp) = (ew, w')"
        "ew = None \<longrightarrow> TruncateTo (ordW (segments w')) s w' = (e, inWal inp')" "inMem inp' = snd (Flush (inMem inp))"
      by (rule flushLocked_effect [OF ord(1) ingest_inv_shards [OF inv] r False f])
    then have "e = None" "inWal inp' = w2" using w(1,2) by auto
    moreover have "mem_value (inMem inp') = (\<lambda>_ _. None)"
      unfolding e(3) by (rule empty_memtable(2) [OF Flush_inv]) (simp add: Flush_def Len_def)
    ultimately show ?thesis using w(3-5) by (auto simp: linked_def last_value_def)
  qed
  then show "e = None" "\<exists>recs'. linked inp' recs'" "log_grows 0 (inWal inp) (inWal inp')" by blast+
qed

lemma Flush_linked:
  assumes "iterates ordS" "iterates ordW" "pipeline_ok inp" "linked inp recs" and f: "Ingest_Flush ordS ordW inp = (e, inp')"
  shows "\<exists>recs'. linked inp' recs'"
proof (cases "nextSeq (inWal inp) = 0")
  case True
  with f assms(4) show ?thesis by (auto simp: Ingest_Flush_def)
next
  case False
  with f have "flushLocked ordS ordW (nextSeq (inWal inp) - 1) inp = (e, inp')" by (simp add: Ingest_Flush_def Let_def)
  from flushLocked_linked(2) [OF assms(1-4) _ this] show ?thesis by simp
qed

section \<open>Appending\<close>

text \<open>A record goes to the end of the log.\<close>

lemma log_calm_Append:
  assumes l: "log_calm w recs" and room: "log_room 1 w"
  obtains w' recs' where "Wal_Append r w = (Inr (nextSeq w), w')" "log_calm w' recs'" "nextSeq w' = nextSeq w + 1"
    "wal_entries w' recs' = wal_entries w recs @ [r\<lparr>rSeq := nextSeq w\<rparr>]"
    "unflushed w' recs' = unflushed w recs @ [r\<lparr>rSeq := nextSeq w\<rparr>]" "log_grows 1 w w'" "nextReplay w' = nextReplay w"
proof -
  have ok: "wal_ok w recs" "faults (wDisk w) = []" and idx: "top_index (segments w) + 1 < 2 ^ 63"
    using l room by (simp_all add: log_calm_def log_room_def)
  obtain w' where a: "Wal_Append r w = (Inr (nextSeq w), w')" "faults (wDisk w') = []"
    using Wal_Append_clean [OF ok(1) idx ok(2)] by blast
  note e = Wal_Append_effect [OF ok(1) idx a(1)]
  obtain recs' where r: "wal_ok w' recs'" "wal_entries w' recs' = wal_entries w recs @ [r\<lparr>rSeq := nextSeq w\<rparr>]"
    using e(1) by blast
  have "unat (nextSeq w) + 1 < 2 ^ 64" using room by (simp add: log_room_def)
  then have "nextSeq w + 1 \<noteq> 0" using fresh_unat(1) by blast
  then have lt: "\<And>x. x < nextSeq w + 1 \<longleftrightarrow> x \<le> nextSeq w" and up: "unat (nextSeq w + 1) = unat (nextSeq w) + 1"
    using less_succ_iff unat_succ by blast+
  have "checkpoint_value (wDisk w') = checkpoint_value (wDisk w)"
    using e(6) [of checkpointName] not_segment_file(1) by (simp add: checkpoint_value_def)
  then have "log_calm w' recs'"
    using l r a(2) e(3,4) by (auto simp: log_calm_def lt intro: order_trans less_imp_le)
  moreover have "unflushed w' recs' = unflushed w recs @ [r\<lparr>rSeq := nextSeq w\<rparr>]"
    using l r(2) e(4) by (simp add: unflushed_def log_calm_def)
  moreover have "log_grows 1 w w'"
    using Wal_Append_top [OF ok(1) idx a(1)] e(3) up by (simp add: log_grows_def)
  ultimately show ?thesis using that [OF a(1)] r(2) e(3,4) by blast
qed

text \<open>The second half of an append restores the link: the sample is in the memtable, or dated before the active window.\<close>

lemma append_apply_linked:
  assumes ord: "iterates ordS" "iterates ordW" and ok: "pipeline_ok inp" and fresh: "sNextID (dbStore (inDb inp)) + 1 \<noteq> 0"
    and fits: "fits (dbShards (inDb inp)) (TS pt)"
    and l: "linked inp recs" and lw: "log_calm w recs'" "s + 1 = nextSeq w"
    and u: "unflushed w recs' = unflushed (inWal inp) recs @ [\<lparr>rSeq = q, rSeriesID = SeriesID pt, rTS = TS pt, rValue = Value pt\<rparr>]"
    and a: "append_apply ordS ordW (s, pt) (inp\<lparr>inWal := w\<rparr>) = (e, inp')"
  shows "\<exists>recs''. linked inp' recs''" "log_grows 0 w (inWal inp')"
proof -
  let ?inp = "inp\<lparr>inWal := w\<rparr>"
  have m: "mgr_inv (dbShards (inDb inp))" and mem: "mem_inv (inMem inp)"
    using ok by (simp_all add: pipeline_ok_def db_ok_def ingest_inv_def)
  have wr: "linked (written pt ?inp) recs'" if r: "fst (Route (TS pt) (dbShards (inDb inp))) = Inr i" for i
  proof -
    let ?m = "dbShards (inDb inp)" and ?m' = "snd (Route (TS pt) (dbShards (inDb inp)))"
    note e = Route_end [OF m fits]
    have win: "window ?m' = window ?m" using Route_advances [of ?m "TS pt"] by (simp add: advances_def)
    have st: "shStart (last (shards ?m)) \<le>s shStart (last (shards ?m'))"
      by (rule active_start_mono [OF m Route_inv [OF m fits] win e(1)])
    have "rTS r <s shEnd (last (shards ?m'))" if "r \<in> set (unflushed w recs')" for r
      using that l u e(1) e(2) [OF r] by (fastforce simp: linked_def active_end_def go_int)
    moreover have "mem_value (Write pt (inMem inp)) sid ts = last_value (unflushed w recs') sid ts"
      if "shStart (last (shards ?m')) \<le>s ts" for sid ts
      using that st l Write_value [OF mem, of pt] by (auto simp: u last_value_append linked_def active_start_def go_int)
    ultimately show ?thesis using lw(1) by (simp add: linked_def written_def active_start_def active_end_def)
  qed
  have "(\<exists>recs''. linked inp' recs'') \<and> log_grows 0 w (inWal inp')"
    using a
  proof (cases rule: append_apply_cases)
    case (rejected err)
    have "TS pt <s active_start (inDb inp)"
      by (rule Route_cases [OF m, of "TS pt"]) (use rejected(1) in \<open>simp_all add: active_start_def\<close>)
    moreover from this have "TS pt <s active_end (inDb inp)"
      using active_window [OF m] by (simp add: active_start_def active_end_def go_int)
    ultimately have "linked ?inp recs'"
      using l lw(1) u by (auto simp: linked_def last_value_append go_int)
    with rejected(3) log_grows_refl show ?thesis by auto
  next
    case (buffered i)
    with wr log_grows_refl show ?thesis by (auto simp: written_def)
  next
    case (flushed i)
    have r: "fst (Route (TS pt) (dbShards (inDb inp))) = Inr i" using flushed(1) by simp
    have "pipeline_ok ?inp" "fits (dbShards (inDb ?inp)) (TS pt)" using ok fits by simp_all
    from pipeline_moves_ok [OF written_moves [OF this]] r have "pipeline_ok (written pt ?inp)" by simp
    from flushLocked_linked [OF ord this wr [OF r] _ flushed(2)] lw(2) show ?thesis by (simp add: written_def)
  qed
  then show "\<exists>recs''. linked inp' recs''" "log_grows 0 w (inWal inp')" by blast+
qed

lemma Append_linked:
  assumes ord: "iterates ordS" "iterates ordW" and ok: "pipeline_ok inp" and hr: "headroom (Suc n) inp"
    and fits: "fits (dbShards (inDb inp)) ts" and l: "linked inp recs" and room: "log_room 1 (inWal inp)"
    and a: "Ingest_Append ordL ordS ordW name labels ts v inp = (e, inp')"
  shows "\<exists>recs'. linked inp' recs'" "log_grows 1 (inWal inp) (inWal inp')"
proof -
  have inv: "ingest_inv inp" using ok by (simp add: pipeline_ok_def)
  obtain r inp1 where so: "SeriesOf ordL name labels inp = (r, inp1)" by (rule prod.exhaust)
  note se = SeriesOf_effect [OF inv headroom_room [OF hr] so]
  have l1: "linked inp1 recs" by (rule linked_cong [OF l se(2,3,7)])
  have "(\<exists>recs'. linked inp' recs') \<and> log_grows 1 (inWal inp) (inWal inp')"
  proof (cases r)
    case (Inl err)
    with a so have "inp' = inp1" by (simp add: Ingest_Append_def append_log_def)
    with l1 se(2) log_grows_refl show ?thesis by auto
  next
    case (Inr meta)
    let ?r = "\<lparr>rSeq = 0, rSeriesID = ID meta, rTS = ts, rValue = v\<rparr>" and ?pt = "\<lparr>TS = ts, Value = v, SeriesID = ID meta\<rparr>"
    have lc: "log_calm (inWal inp) recs" using l by (simp add: linked_def)
    obtain w recs1 where w: "Wal_Append ?r (inWal inp) = (Inr (nextSeq (inWal inp)), w)" "log_calm w recs1"
        "nextSeq w = nextSeq (inWal inp) + 1"
        "unflushed w recs1 = unflushed (inWal inp) recs @ [?r\<lparr>rSeq := nextSeq (inWal inp)\<rparr>]"
        "log_grows 1 (inWal inp) w" by (rule log_calm_Append [OF lc room])
    have lg: "append_log ordL name labels ts v inp = (Inr (nextSeq (inWal inp), ?pt), inp1\<lparr>inWal := w\<rparr>)"
      using so Inr w(1) se(2) by (simp add: append_log_def)
    then have ap: "append_apply ordS ordW (nextSeq (inWal inp), ?pt) (inp1\<lparr>inWal := w\<rparr>) = (e, inp')"
      using a by (simp add: Ingest_Append_def)
    have m: "db_moves 0 (inDb inp) (inDb inp1)"
      using append_log_moves(2) [OF ok headroom_room [OF hr] lg] by simp
    have ok1: "pipeline_ok inp1" using se(1) db_moves_ok [OF m] by (simp add: pipeline_ok_def)
    have fresh: "sNextID (dbStore (inDb inp1)) + 1 \<noteq> 0" using headroom_room [OF hr] se(6) by (simp add: room_def)
    have fits1: "fits (dbShards (inDb inp1)) (TS ?pt)" using fits se(7) by simp
    note ap = append_apply_linked [OF ord ok1 fresh fits1 l1 w(2) w(3) [symmetric] _ ap, of "nextSeq (inWal inp)"]
    show ?thesis using ap w(4,5) se(2) log_grows_trans [of 1 _ w 0] by auto
  qed
  then show "\<exists>recs'. linked inp' recs'" "log_grows 1 (inWal inp) (inWal inp')" by blast+
qed

lemma AppendBatch_linked:
  assumes "iterates ordS" "iterates ordW" and "pipeline_ok inp" and "headroom (Suc (length pts)) inp"
    and "\<forall>pt \<in> set pts. fits (dbShards (inDb inp)) (bpTS pt)" and "linked inp recs" and "log_room (length pts) (inWal inp)"
  shows "\<exists>recs'. linked (snd (AppendBatch ordL ordS ordW pts inp)) recs'"
  using assms(3-)
proof (induction pts arbitrary: inp recs)
  case (Cons pt pts)
  obtain e inp1 where a: "Ingest_Append ordL ordS ordW (bpName pt) (bpLabels pt) (bpTS pt) (bpValue pt) inp = (e, inp1)"
    by (rule prod.exhaust)
  have hr: "headroom (Suc (Suc (length pts))) inp" and fits: "fits (dbShards (inDb inp)) (bpTS pt)"
    using Cons.prems(2,3) by simp_all
  have room: "log_room 1 (inWal inp)" using Cons.prems(5) by (simp add: log_room_def)
  obtain recs1 where l1: "linked inp1 recs1" and g: "log_grows 1 (inWal inp) (inWal inp1)"
    using Append_linked [OF assms(1,2) Cons.prems(1) hr fits Cons.prems(4) room a] by blast
  have m: "pipeline_moves 1 inp inp1"
    using Append_moves [OF assms(1) Cons.prems(1) hr fits] a by (metis snd_conv)
  have "window (dbShards (inDb inp1)) = window (dbShards (inDb inp))" using m by (simp add: pipeline_moves_def db_moves_def)
  then have "\<forall>q \<in> set pts. fits (dbShards (inDb inp1)) (bpTS q)" using Cons.prems(3) by (simp add: fits_def)
  from Cons.IH [OF pipeline_moves_ok [OF m] pipeline_headroom [OF m] this l1 log_grows_room [OF g]] hr Cons.prems(5) l1 a
  show ?case by (cases e) auto
qed auto

section \<open>The server\<close>

definition calm_choices :: "choices \<Rightarrow> bool" where
  "calm_choices ch \<longleftrightarrow> choices_ok ch \<and> iterates (chSegments ch)"

text \<open>
  A run from an empty directory in which no call fails and each handler and tick runs alone:
  requests, the three tickers and the self check, in any order and with any map orders.
\<close>

inductive calm_run :: "config \<Rightarrow> server \<Rightarrow> bool" for cf where
  calm_start: "calm_choices ch \<Longrightarrow> 0 \<le>s now \<Longrightarrow> sint now + sint (cfWindow cf) < 2 ^ 63 \<Longrightarrow>
    boot ch cf now \<lparr>files = fmempty, faults = []\<rparr> = Inr sv \<Longrightarrow> calm_run cf sv"
| calm_request: "calm_run cf sv \<Longrightarrow> calm_choices ch \<Longrightarrow> admissible ch r sv \<Longrightarrow>
    log_room (length (stamps ch r)) (inWal (svIngest sv)) \<Longrightarrow> calm_run cf (snd (serve ch now r sv))"
| calm_flush: "calm_run cf sv \<Longrightarrow> calm_choices ch \<Longrightarrow> in_bounds n sv \<Longrightarrow> flush_tick ch sv = Inr (es, sv')
    \<Longrightarrow> calm_run cf sv'"
| calm_compact: "calm_run cf sv \<Longrightarrow> calm_choices ch \<Longrightarrow> in_bounds n sv \<Longrightarrow> calm_run cf (snd (compact_tick ch sv))"
| calm_sweep: "calm_run cf sv \<Longrightarrow> calm_choices ch \<Longrightarrow> calm_run cf (sweep_tick ch now sv)"
| calm_check: "calm_run cf sv \<Longrightarrow> calm_choices ch \<Longrightarrow> in_bounds n sv \<Longrightarrow>
    fits (dbShards (inDb (svIngest sv))) now \<Longrightarrow> log_room 1 (inWal (svIngest sv)) \<Longrightarrow> selfCheck ch now sv = Inr (r, sv')
    \<Longrightarrow> calm_run cf sv'"

definition server_linked :: "config \<Rightarrow> server \<Rightarrow> bool" where
  "server_linked cf sv \<longleftrightarrow> server_ok sv \<and> window (dbShards (inDb (svIngest sv))) = cfWindow cf
     \<and> (\<exists>recs. linked (svIngest sv) recs)"

lemma server_linked_db_only:
  assumes l: "server_linked cf sv" and m: "db_only sv sv'"
  shows "server_linked cf sv'"
proof -
  obtain n db where db: "sv' = with_db db sv" "db_moves n (inDb (svIngest sv)) db" using m by (auto simp: db_only_def)
  obtain recs where recs: "linked (svIngest sv) recs" using l by (auto simp: server_linked_def)
  have "linked ((svIngest sv)\<lparr>inDb := db\<rparr>) recs"
    using l db(2) by (intro linked_moves [OF recs]) (simp_all add: server_linked_def server_ok_def)
  then show ?thesis
    using l db_only_ok [OF _ m] db by (auto simp: server_linked_def with_db_def db_moves_def)
qed

lemma server_linked_pipeline:
  assumes l: "server_linked cf sv" and m: "pipeline_moves n (svIngest sv) inp" and r: "\<exists>recs. linked inp recs"
  shows "server_linked cf (sv\<lparr>svIngest := inp\<rparr>)"
  using assms pipeline_moves_ok [OF m] by (simp add: server_linked_def server_ok_def pipeline_moves_def db_moves_def)

lemma server_linked_append:
  assumes ch: "calm_choices ch" and l: "server_linked cf sv" and b: "in_bounds n sv"
    and fits: "fits (dbShards (inDb (svIngest sv))) ts" and room: "log_room 1 (inWal (svIngest sv))"
  shows "server_linked cf (sv\<lparr>svIngest := snd (Ingest_Append (chLabels ch) (chSeries ch) (chSegments ch) name labels ts v (svIngest sv))\<rparr>)"
proof -
  have ord: "iterates (chSeries ch)" "iterates (chSegments ch)" using ch by (simp_all add: calm_choices_def choices_ok_def)
  have hr: "headroom (Suc 0) (svIngest sv)" using b by (auto simp: in_bounds_def intro: headroom_mono)
  have ok: "pipeline_ok (svIngest sv)" using l by (simp add: server_linked_def server_ok_def)
  obtain recs where recs: "linked (svIngest sv) recs" using l by (auto simp: server_linked_def)
  note a = Append_linked [OF ord ok hr fits recs room prod.collapse [symmetric], of "chLabels ch" name labels v]
  show ?thesis by (rule server_linked_pipeline [OF l Append_moves [OF ord(1) ok hr fits] a(1)])
qed

lemma handleWrite_linked:
  assumes ch: "calm_choices ch" and l: "server_linked cf sv" and adm: "admissible ch r sv"
    and room: "log_room (length (stamps ch r)) (inWal (svIngest sv))"
  shows "server_linked cf (snd (handleWrite ch r sv))"
proof (cases rule: handleWrite_cases [of ch r sv])
  case no
  with l show ?thesis by simp
next
  case (batch b)
  have ord: "iterates (chSeries ch)" "iterates (chSegments ch)" using ch by (simp_all add: calm_choices_def choices_ok_def)
  have hr: "headroom (Suc (length b)) (svIngest sv)"
    using adm batch(2) by (auto simp: admissible_def in_bounds_def intro: headroom_mono)
  have ok: "pipeline_ok (svIngest sv)" using l by (simp add: server_linked_def server_ok_def)
  have fits: "\<forall>pt \<in> set b. fits (dbShards (inDb (svIngest sv))) (bpTS pt)" using adm batch(2) by (auto simp: admissible_def)
  obtain recs where recs: "linked (svIngest sv) recs" using l by (auto simp: server_linked_def)
  have "log_room (length b) (inWal (svIngest sv))" using room batch(2) by simp
  note a = AppendBatch_linked [OF ord ok hr fits recs this, of "chLabels ch"]
  show ?thesis unfolding batch(3) by (rule server_linked_pipeline [OF l AppendBatch_moves [OF ord(1) ok hr fits] a])
next
  case (one ts val)
  have "fits (dbShards (inDb (svIngest sv))) (word_of_int ts)" "in_bounds 1 sv" "log_room 1 (inWal (svIngest sv))"
    using adm room one(1) by (simp_all add: admissible_def)
  from server_linked_append [OF ch l this(2,1,3)] show ?thesis by (simp add: one(2))
qed

lemma serve_linked:
  assumes ch: "calm_choices ch" and l: "server_linked cf sv" and adm: "admissible ch r sv"
    and room: "log_room (length (stamps ch r)) (inWal (svIngest sv))"
  shows "server_linked cf (snd (serve ch now r sv))"
proof -
  have c: "choices_ok ch" and ok: "server_ok sv" using ch l by (simp_all add: calm_choices_def server_linked_def)
  show ?thesis
  proof (cases rule: serve_cases [OF c ok adm, of now])
    case 1
    with handleWrite_linked [OF assms] show ?thesis by simp
  next
    case (2 ix)
    obtain recs where "linked (svIngest sv) recs" using l by (auto simp: server_linked_def)
    then have "linked ((svIngest sv)\<lparr>inIdx := ix\<rparr>) recs" by (rule linked_cong) simp_all
    with 2 l serve_ok [OF c ok adm, of now] show ?thesis by (auto simp: server_linked_def)
  next
    case 3
    then show ?thesis by (rule server_linked_db_only [OF l])
  qed
qed

lemma linked_gauge [simp]: "linked (set_gauge name v inp) recs = linked inp recs"
  by (simp add: set_gauge_def linked_def active_start_def active_end_def)

lemma shards_gauge [simp]: "dbShards (inDb (set_gauge name v inp)) = dbShards (inDb inp)"
  by (simp add: set_gauge_def)

lemma flush_tick_linked:
  assumes ch: "calm_choices ch" and l: "server_linked cf sv" and b: "in_bounds n sv" and t: "flush_tick ch sv = Inr (es, sv')"
  shows "server_linked cf sv'"
proof -
  have c: "choices_ok ch" "iterates (chSeries ch)" "iterates (chSegments ch)" and ok: "pipeline_ok (svIngest sv)" "server_ok sv"
    using ch l by (simp_all add: calm_choices_def choices_ok_def server_linked_def server_ok_def)
  obtain recs where recs: "linked (svIngest sv) recs" using l by (auto simp: server_linked_def)
  obtain e inp where f: "Ingest_Flush (chSeries ch) (chSegments ch) (svIngest sv) = (e, inp)" by (rule prod.exhaust)
  obtain recs1 where l1: "linked inp recs1" using Flush_linked [OF c(2,3) ok(1) recs f] by blast
  then have "log_calm (inWal inp) recs1" by (simp add: linked_def)
  from log_calm_Sync [OF this] obtain w where w: "Sync (inWal inp) = (None, w)" "log_calm w recs1"
      "unflushed w recs1 = unflushed (inWal inp) recs1" by metis
  have "linked (inp\<lparr>inWal := w\<rparr>) recs1" using l1 w(2,3) by (simp add: linked_def)
  moreover have "window (dbShards (inDb inp)) = window (dbShards (inDb (svIngest sv)))"
    using Flush_moves [OF c(2) ok(1) _ f] in_bounds_room [OF b] by (simp add: room_def pipeline_moves_def db_moves_def)
  moreover obtain k1 k2 where "sv'
      = sv\<lparr>svIngest := set_gauge ''blocks'' k1 (set_gauge ''shards'' k2 (inp\<lparr>inWal := w\<rparr>))\<rparr>"
    using t f w(1) by (auto simp: flush_tick_def Let_def split: if_splits)
  ultimately show ?thesis
    using l flush_tick_ok [OF c(1) ok(2) b t] unfolding server_linked_def by auto
qed

text \<open>The first start: an empty log, an empty memtable and one window.\<close>

lemma first_started:
  assumes b: "boot ch cf now \<lparr>files = fmempty, faults = []\<rparr> = Inr sv"
  obtains w m where "NewManager (cfWindow cf) now = Inr m" "svIngest sv = set_gauge ''shards'' 1 (blank_ingest w m)"
    "log_calm w (\<lambda>_. [])" "wal_entries w (\<lambda>_. []) = []" "nextSeq w = 0" "top_index (segments w) = 1"
proof -
  let ?d = "\<lparr>files = fmempty, faults = []\<rparr> :: disk"
  have n: "no_segments ?d" and cp: "checkpoint_value ?d = Some 0" by (simp_all add: no_segments_def checkpoint_value_def)
  then obtain w d' where o: "Wal_Open (push_bit 20 64) ?d = (Inr w, d')" "faults (wDisk w) = []"
    using Wal_Open_fresh_clean [of ?d 0 "push_bit 20 64"] by auto
  note e = Wal_Open_fresh [OF n o(1)]
  have cpw: "checkpoint_value (wDisk w) = checkpoint_value ?d"
    using e(8) [of checkpointName] not_segment_file(1) by (simp add: checkpoint_value_def)
  then have lc: "log_calm w (\<lambda>_. [])" using e(1,2,4,5) o(2) cp by (simp add: log_calm_def)
  have top: "top_index (segments w) = 1" by (rule top_index_single [OF e(3)]) simp
  show ?thesis
  proof (rule boot_parts [OF b])
    fix d1 w1 d2 m inp
    assume p: "os_call ?d = (None, d1)" "Wal_Open (push_bit 20 64) d1 = (Inr w1, d2)" "NewManager (cfWindow cf) now = Inr m"
      "Recover (chSeries ch) (chSegments ch) (blank_ingest w1 m) = (None, inp)"
      "svIngest sv = set_gauge ''shards'' (word_of_nat (shard_Count (dbShards (inDb inp)))) inp"
    have w1: "w1 = w" using p(1,2) o(1) by simp
    have "ReplayUnflushed recover_record (NewMem, NewRegistry) w = ((None, NewMem, NewRegistry), w)"
      using Replay_readable [OF synced_readable [OF e(1,7)] o(2), of "nextReplay w" recover_record "(NewMem, NewRegistry)"]
        Replay_idle [OF o(2), of "nextReplay w" recover_record "(NewMem, NewRegistry)"] e(2)
      by (simp add: ReplayUnflushed_def found_def prod_eq_iff)
    then have "inp = blank_ingest w m" using p(4) e(4) w1 by (simp add: Recover_def Ingest_Flush_def Let_def)
    moreover have "shard_Count m = 1" using p(3) by (auto simp: NewManager_def shard_Count_def split: if_splits)
    ultimately show ?thesis using p(3,5) lc e(2,4) top by (intro that [of m w]) simp_all
  qed
qed

lemma start_linked:
  assumes ch: "calm_choices ch" and now: "0 \<le>s now" "sint now + sint (cfWindow cf) < 2 ^ 63"
    and b: "boot ch cf now \<lparr>files = fmempty, faults = []\<rparr> = Inr sv"
  shows "server_linked cf sv"
proof -
  obtain w m where f: "NewManager (cfWindow cf) now = Inr m" "svIngest sv = set_gauge ''shards'' 1 (blank_ingest w m)"
      "log_calm w (\<lambda>_. [])" "wal_entries w (\<lambda>_. []) = []" by (rule first_started [OF b])
  have "mem_value NewMem sid ts = None" for sid ts by (simp add: mem_value_def NewMem_def empty_snapshot_def)
  then have "linked (blank_ingest w m) (\<lambda>_. [])"
    using f(3,4) by (simp add: linked_def unflushed_def last_value_def)
  moreover have "window m = cfWindow cf" using f(1) by (auto simp: NewManager_def split: if_splits)
  moreover have "server_ok sv" using ch by (intro boot_ok [OF _ _ b now]) (simp_all add: calm_choices_def)
  ultimately show ?thesis using f(2) by (auto simp: server_linked_def)
qed

lemma calm_run_linked: "calm_run cf sv \<Longrightarrow> server_linked cf sv"
proof (induction rule: calm_run.induct)
  case (calm_start ch now sv)
  then show ?case by (rule start_linked)
next
  case (calm_request sv ch r now)
  show ?case by (rule serve_linked [OF calm_request.hyps(2) calm_request.IH calm_request.hyps(3,4)])
next
  case (calm_flush sv ch n es sv')
  show ?case by (rule flush_tick_linked [OF calm_flush.hyps(2) calm_flush.IH calm_flush.hyps(3,4)])
next
  case (calm_compact sv ch n)
  have "choices_ok ch" "server_ok sv" using calm_compact by (simp_all add: calm_choices_def server_linked_def)
  from server_linked_db_only [OF calm_compact.IH compact_tick_moves [OF this calm_compact.hyps(3)]] show ?case .
next
  case (calm_sweep sv ch now)
  have "choices_ok ch" "server_ok sv" using calm_sweep by (simp_all add: calm_choices_def server_linked_def)
  from server_linked_db_only [OF calm_sweep.IH sweep_tick_moves [OF this]] show ?case .
next
  case (calm_check sv ch n now r sv')
  have c: "server_linked cf (checked ch now sv)"
    unfolding checked_def by (rule server_linked_append [OF calm_check.hyps(2) calm_check.IH calm_check.hyps(3-5)])
  then have "server_ok (checked ch now sv)" by (simp add: server_linked_def)
  from server_linked_db_only [OF c selfCheck_moves [OF this calm_check.hyps(6)]] show ?case .
qed

section \<open>Stopping and starting again\<close>

lemma below_next: "i < n \<Longrightarrow> i + 1 \<noteq> 0" for i n :: uint64
  by (metis add.commute add_eq_0_iff not_less word_n1_ge)

text \<open>A stop in order leaves every record in the files.\<close>

lemma stopped_in_order:
  assumes lc: "log_calm (inWal (svIngest sv)) recs" and ord: "iterates (chSegments ch)" and st: "shutdown ch sv = (e, d)"
  shows "e = None" "stopped_log (nextReplay (inWal (svIngest sv))) (wal_entries (inWal (svIngest sv)) recs) d"
    "intact d \<longleftrightarrow> (\<forall>r \<in> set (wal_entries (inWal (svIngest sv)) recs). frame_safe r)"
proof -
  let ?w = "inWal (svIngest sv)"
  have ok: "wal_ok ?w recs" "faults (wDisk ?w) = []" using lc by (simp_all add: log_calm_def)
  obtain w' w1 where c: "Wal_Close (chSegments ch (segments ?w)) ?w = (None, w')" "Sync ?w = (None, w1)" "wDisk w' = wDisk w1"
    by (rule Wal_Close_clean [OF ok iterates_visits [OF ord]])
  then show "e = None" using st by (simp add: shutdown_def)
  have d: "d = wDisk w1" using st c by (simp add: shutdown_def)
  have s: "log_calm w1 recs" "all_synced w1" "wal_entries w1 recs = wal_entries ?w recs" "nextReplay w1 = nextReplay ?w"
    by (rule log_calm_Sync [OF lc]; use c(2) in simp)+
  then show "stopped_log (nextReplay ?w) (wal_entries ?w recs) d"
    unfolding stopped_log_def d using below_next by (auto simp: log_calm_def intro!: exI [of _ w1] exI [of _ recs])
  show "intact d \<longleftrightarrow> (\<forall>r \<in> set (wal_entries ?w recs). frame_safe r)"
    using intact_safe [of w1 recs] s by (simp add: d log_calm_def)
qed

text \<open>A start that finds nothing to replay changes nothing.\<close>

lemma Recover_nothing:
  assumes "log_readable (inWal inp) recs" and nf: "faults (wDisk (inWal inp)) = []"
    and "found (nextReplay (inWal inp)) (wal_entries (inWal inp) recs) = []" and "Len (inMem inp) = 0"
  shows "Recover ordS ordW inp = (None, inp)"
proof -
  let ?s = "(inMem inp, dbReg (inDb inp))"
  have "ReplayUnflushed recover_record ?s (inWal inp) = ((None, ?s), inWal inp)"
    using Replay_readable [OF assms(1,2), of "nextReplay (inWal inp)" recover_record ?s] assms(3)
      Replay_idle [OF nf, of "nextReplay (inWal inp)" recover_record ?s] by (simp add: ReplayUnflushed_def prod_eq_iff)
  then show ?thesis using assms(4) by (simp add: Recover_def Let_def Ingest_Flush_def flushLocked_def)
qed

lemma restart_stopped:
  assumes ch: "choices_ok ch" "iterates (chSegments ch)" and d: "stopped_log from es d"
    and now: "0 <s cfWindow cf" "0 \<le>s now" "sint now + sint (cfWindow cf) < 2 ^ 63"
    and past: "\<forall>r \<in> set (found from es). rTS r <s aligned (cfWindow cf) now + cfWindow cf"
  obtains sv where "boot ch cf now d = Inr sv"
    "\<And>p sid rng. p \<in> set (visible sid rng (svIngest sv)) \<longleftrightarrow>
      in_range rng p \<and> aligned (cfWindow cf) now \<le>s TS p \<and> SeriesID p = sid
      \<and> last_value (found from es) sid (TS p) = Some (Value p)"
proof -
  obtain w d' recs sv where s: "good_log cf now d recs" "boot ch cf now d = Inr sv" "Wal_Open (push_bit 20 64) d = (Inr w, d')"
      "wal_entries w recs = es" "nextReplay w = from" "nextSeq w \<noteq> 0 \<or> found from es = []"
    by (rule stopped_log_boots [OF ch d now past])
  show ?thesis
  proof (cases "found from es = []")
    case False
    with s(6) have "nextSeq w \<noteq> 0" by simp
    from that [OF s(2)] restart_sees [OF ch(1) s(1,2) now(2,3) s(3) this] s(4,5) show ?thesis by simp
  next
    case True
    have "visible sid rng (svIngest sv) = []" for sid rng
    proof (rule boot_parts [OF s(2)])
      fix d1 w1 d2 m inp
      assume p: "os_call d = (None, d1)" "Wal_Open (push_bit 20 64) d1 = (Inr w1, d2)" "NewManager (cfWindow cf) now = Inr m"
        "Recover (chSeries ch) (chSegments ch) (blank_ingest w1 m) = (None, inp)"
        "svIngest sv = set_gauge ''shards'' (word_of_nat (shard_Count (dbShards (inDb inp)))) inp"
      have "os_call d = (None, d)" using s(1) by (simp add: good_log_def os_call_def next_fault_none)
      then have w: "w1 = w" using p(1,2) s(3) by simp
      have "log_readable w recs" "faults (wDisk w) = []" using s(1,3) by (auto simp: good_log_def)
      then have "inp = blank_ingest w m"
        using Recover_nothing [of "blank_ingest w m" recs "chSeries ch" "chSegments ch"] True s(4,5) p(4) w
        by (simp add: NewMem_def Len_def)
      then show ?thesis using p(3,5)
        by (auto simp: visible_parts set_gauge_def stored_points_def covering_blocks_def ShardsCovering_def Shard_Blocks_def
          NewManager_def new_shard_def NewMem_def empty_snapshot_def series_of_def split: if_splits)
    qed
    with that [OF s(2)] True show ?thesis by (simp add: last_value_def)
  qed
qed

text \<open>
  C3. A stop in order loses no buffered point that the next start can still take. After any run
  from an empty directory in which no call fails and handlers and ticks do not overlap, \<open>Close\<close>
  reports no error, and a start on what it leaves succeeds, at any time whose window is not
  before the active one; under every series id a query then collects exactly the points that
  were buffered at the stop and lie in the window of the start. (Which names have those ids is
  another matter: a start forgets the series table.) It asks that the files consist of whole
  lines, because a record with a stray newline byte or with a carriage return at its end is not
  replayed.
\<close>

theorem clean_restart_keeps_buffer:
  assumes run: "calm_run cf sv" and ch: "calm_choices ch" "calm_choices ch'"
    and stop: "shutdown ch sv = (e, d)" and lines: "intact d"
    and now: "0 \<le>s now" "sint now + sint (cfWindow cf) < 2 ^ 63"
    and clock: "active_start (inDb (svIngest sv)) \<le>s aligned (cfWindow cf) now"
  shows "e = None \<and> (\<exists>sv'. boot ch' cf now d = Inr sv' \<and>
    (\<forall>p sid rng. p \<in> set (visible sid rng (svIngest sv')) \<longleftrightarrow>
       in_range rng p \<and> aligned (cfWindow cf) now \<le>s TS p
       \<and> p \<in> set (series_of (byID (current (inMem (svIngest sv)))) sid)))"
proof -
  let ?inp = "svIngest sv" and ?start = "aligned (cfWindow cf) now"
  obtain recs where l: "linked ?inp recs" and ok: "pipeline_ok ?inp" and win: "window (dbShards (inDb ?inp)) = cfWindow cf"
    using calm_run_linked [OF run] by (auto simp: server_linked_def server_ok_def)
  have m: "mgr_inv (dbShards (inDb ?inp))" and mem: "mem_inv (inMem ?inp)"
    using ok by (simp_all add: pipeline_ok_def db_ok_def ingest_inv_def)
  note aw = active_window [OF m, unfolded win]
  have lc: "log_calm (inWal ?inp) recs" using l by (simp add: linked_def)
  have ord: "iterates (chSegments ch)" "choices_ok ch'" "iterates (chSegments ch')" using ch by (simp_all add: calm_choices_def)
  note s = stopped_in_order [OF lc ord(1) stop]
  let ?from = "nextReplay (inWal ?inp)" and ?es = "wal_entries (inWal ?inp) recs"
  have f: "found ?from ?es = unflushed (inWal ?inp) recs"
    using s(3) lines by (simp add: found_safe unflushed_def)
  obtain m0 where m0: "NewManager (cfWindow cf) now = Inr m0" using aw(2) by (simp add: NewManager_def go_int)
  have "covers (last (shards m0)) now" by (rule NewManager_inv [OF m0 now(2,1)])
  have "sint (?start + cfWindow cf) = sint ?start + sint (cfWindow cf)"
    using NewManager_inv(1) [OF m0 now(2,1)] m0 active_window(1) [of m0] by (auto simp: NewManager_def new_shard_def split: if_splits)
  then have "active_end (inDb ?inp) \<le>s ?start + cfWindow cf"
    using clock aw(1) by (simp add: active_start_def active_end_def go_int)
  then have past: "\<forall>r \<in> set (found ?from ?es). rTS r <s ?start + cfWindow cf"
    using l f by (auto simp: linked_def go_int)
  have pos: "0 <s cfWindow cf" using aw(2) by (simp add: go_int)
  obtain sv' where sv': "boot ch' cf now d = Inr sv'" "\<And>p sid rng. p \<in> set (visible sid rng (svIngest sv')) \<longleftrightarrow>
      in_range rng p \<and> ?start \<le>s TS p \<and> SeriesID p = sid \<and> last_value (found ?from ?es) sid (TS p) = Some (Value p)"
    by (rule restart_stopped [OF ord(2,3) s(2) pos now past]) blast
  have "last_value (found ?from ?es) sid (TS p) = mem_value (inMem ?inp) sid (TS p)" if "?start \<le>s TS p" for p :: point and sid
    using that clock l f by (simp add: linked_def go_int)
  then show ?thesis using s(1) sv' mem_member [OF mem] by (intro conjI exI [of _ sv']) auto
qed

text \<open>A run of one write: the record it leaves and the point it buffers.\<close>

definition first_record :: wal_record where
  "first_record = \<lparr>rSeq = 0, rSeriesID = 1, rTS = 100, rValue = 5\<rparr>"

definition first_point :: point where
  "first_point = \<lparr>TS = 100, Value = 5, SeriesID = 1\<rparr>"

lemma first_record_safe: "frame_safe first_record"
  by (simp add: first_record_def frame_safe_def payload_def appendChecksum_def crcSize_def newline_free_def
      put8 put4 checksum_def crc_byte_def crc_bit_def funpow8 crc_poly_def)

lemma one_write_run:
  obtains sv recs where "calm_run demo_config sv" "log_calm (inWal (svIngest sv)) recs"
    "wal_entries (inWal (svIngest sv)) recs = [first_record]"
    "first_point \<in> set (series_of (byID (current (inMem (svIngest sv)))) 1)" "active_start (inDb (svIngest sv)) = 0"
proof -
  have ch: "calm_choices demo_choices" "iterates (chSeries demo_choices)"
    using demo_choices_ok by (simp_all add: calm_choices_def choices_ok_def) (simp add: demo_choices_def iterates_key_order)
  have cf: "cfWindow demo_config = 3600" "0 <s cfWindow demo_config" by (simp_all add: demo_config_def go_int)
  obtain sv0 where b: "boot demo_choices demo_config 100 \<lparr>files = fmempty, faults = []\<rparr> = Inr sv0"
    using first_start(1) [OF ch(2) cf(2)] by blast
  obtain w m where f: "NewManager (cfWindow demo_config) 100 = Inr m" "svIngest sv0 = set_gauge ''shards'' 1 (blank_ingest w m)"
      "log_calm w (\<lambda>_. [])" "wal_entries w (\<lambda>_. []) = []" "nextSeq w = 0" "top_index (segments w) = 1"
    by (rule first_started [OF b])
  have al: "aligned 3600 100 = 0" by (simp add: aligned_def bucket_start_def go_rem_def signed_modulo_int_def)
  have m: "m = \<lparr>window = 3600, shards = [new_shard 1 0 3600], mNextID = 2\<rparr>"
    using f(1) by (simp add: NewManager_def cf(1) al go_int)
  have run0: "calm_run demo_config sv0"
    by (rule calm_start [OF ch(1) _ _ b]) (simp_all add: cf(1) go_int)
  have st: "stamps demo_choices demo_write = [100]" by (simp add: stamps_def demo_write_parts parse_demo)
  have adm: "admissible demo_choices demo_write sv0" "log_room (length (stamps demo_choices demo_write)) (inWal (svIngest sv0))"
    using f(5,6) by (simp_all add: st f(2) set_gauge_def log_room_def admissible_def in_bounds_def headroom_def
        NewStore_def NewIndex_def m fits_def active_end_def new_shard_def go_int)
  obtain w' recs' where a: "Wal_Append \<lparr>rSeq = 0, rSeriesID = 1, rTS = 100, rValue = 5\<rparr> w = (Inr (nextSeq w), w')"
      "log_calm w' recs'" "wal_entries w' recs' = wal_entries w (\<lambda>_. []) @ [\<lparr>rSeq = nextSeq w, rSeriesID = 1, rTS = 100, rValue = 5\<rparr>]"
    by (rule log_calm_Append [OF f(3), of "\<lparr>rSeq = 0, rSeriesID = 1, rTS = 100, rValue = 5\<rparr>"]) (use f(5,6) in \<open>simp_all add: log_room_def\<close>)
  have nm: "ValidName ''cpu.load''" "SanitizeLabels (key_order (fmempty :: labels)) fmempty = Inr fmempty"
    using set_key_order [of "fmempty :: labels"]
    by (simp_all add: ValidName_def name_char_def alnum_def less_eq_char_def SanitizeLabels_def)
  have "inIdx (svIngest sv0) = NewIndex 1024" by (simp add: f(2) set_gauge_def)
  then obtain ix' where so: "SeriesOf key_order ''cpu.load'' fmempty (svIngest sv0)
      = (Inr \<lparr>ID = 1, Name = ''cpu.load'', Labels = fmempty\<rparr>,
         (svIngest sv0)\<lparr>inIdx := ix', inDb := count_metric ''series_registered'' 1 (inDb (svIngest sv0))\<rparr>)"
    by (rule SeriesOf_first [where ordL = key_order and labels = fmempty, OF nm])
  have rt: "Route 100 m = (Inr 0, m)" by (simp add: m Route_def new_shard_def go_int)
  have empty: "Len NewMem = 0" "TS first_point = 100" by (simp_all add: NewMem_def Len_def first_point_def)
  let ?sv = "snd (serve demo_choices 100 demo_write sv0)"
  have sv: "inWal (svIngest ?sv) = w'" "inMem (svIngest ?sv) = Write first_point NewMem" "dbShards (inDb (svIngest ?sv)) = m"
    using so a(1) f(2,5) rt empty
    by (simp_all add: serve_def handleWrite_def demo_write_parts parse_demo Ingest_Append_def append_log_def append_apply_def
        demo_choices_def parseLabels_def set_gauge_def Let_def flip: first_point_def)
  have "first_point \<in> set (series_of (byID (current (Write first_point NewMem))) 1)"
    by (simp add: Write_current first_point_def NewMem_def empty_snapshot_def write_points_def mem_lb_def sort_search_def search_loop_stop)
  with that [OF calm_request [OF run0 ch(1) adm, where now = 100], of recs'] a(2,3) f(4,5) sv show ?thesis
    by (simp add: first_record_def active_start_def m new_shard_def)
qed

theorem clean_restart_keeps_buffer_witness:
  "\<exists>sv d sv'. calm_run demo_config sv \<and> shutdown demo_choices sv = (None, d) \<and> boot demo_choices demo_config 200 d = Inr sv'
    \<and> first_point \<in> set (visible 1 \<lparr>Start = 0, End = 9999\<rparr> (svIngest sv'))"
proof -
  obtain sv recs where r: "calm_run demo_config sv" "log_calm (inWal (svIngest sv)) recs"
      "wal_entries (inWal (svIngest sv)) recs = [first_record]"
      "first_point \<in> set (series_of (byID (current (inMem (svIngest sv)))) 1)" "active_start (inDb (svIngest sv)) = 0"
    by (rule one_write_run)
  have ch: "calm_choices demo_choices" "iterates (chSegments demo_choices)"
    using demo_choices_ok by (simp_all add: calm_choices_def) (simp_all add: demo_choices_def iterates_key_order)
  have al: "aligned (cfWindow demo_config) 200 = 0"
    by (simp add: demo_config_def aligned_def bucket_start_def go_rem_def signed_modulo_int_def)
  obtain e d where st: "shutdown demo_choices sv = (e, d)" by (rule prod.exhaust)
  have "intact d" using stopped_in_order(3) [OF r(2) ch(2) st] r(3) first_record_safe by simp
  have now: "0 \<le>s (200 :: int64)" "sint (200 :: int64) + sint (cfWindow demo_config) < 2 ^ 63" by (simp_all add: demo_config_def go_int)
  have "active_start (inDb (svIngest sv)) \<le>s aligned (cfWindow demo_config) 200" by (simp add: al r(5) go_int)
  from clean_restart_keeps_buffer [OF r(1) ch(1,1) st \<open>intact d\<close> now this] obtain sv' where
      sv': "e = None" "boot demo_choices demo_config 200 d = Inr sv'"
        "first_point \<in> set (visible 1 \<lparr>Start = 0, End = 9999\<rparr> (svIngest sv')) \<longleftrightarrow>
          in_range \<lparr>Start = 0, End = 9999\<rparr> first_point \<and> 0 \<le>s TS first_point
          \<and> first_point \<in> set (series_of (byID (current (inMem (svIngest sv)))) 1)"
    unfolding al by blast
  have "in_range \<lparr>Start = 0, End = 9999\<rparr> first_point" "0 \<le>s TS first_point"
    by (simp_all add: in_range_def first_point_def go_int)
  with sv' r(1,4) st show ?thesis by blast
qed

section \<open>A crash instead of a stop\<close>

lemma append_in_buffer:
  assumes c: "currentLocked w = Some (i, seg)" and size: "sgSize seg <s maxSize w"
    and buf: "length (wBuf (sgWriter seg)) + 37 \<le> buffer_size" and a: "Wal_Append r w = (Inr s, w')"
  shows "wDisk w' = wDisk w"
proof -
  have "\<not> maxSize w \<le>s sgSize seg" using size by (simp add: go_int)
  then have wc: "write_current (r\<lparr>rSeq := nextSeq w\<rparr>) w = (Inr s, w')" using a c by (simp add: Wal_Append_def Let_def)
  show ?thesis
  proof (cases "wBroken (sgWriter seg)")
    case True
    with wc c show ?thesis by (simp add: write_current_def seg_write_def bufio_write.simps Let_def)
  next
    case False
    have "length (encodeRecord (r\<lparr>rSeq := nextSeq w\<rparr>)) \<le> buffer_size - length (wBuf (sgWriter seg))" using buf by simp
    with False wc c show ?thesis by (auto simp: write_current_def seg_write_def bufio_write.simps Let_def)
  qed
qed

text \<open>
  C4. An acknowledged write is not safe from a crash. The log is synchronised by the flush ticker
  only, so a write that is answered with 200 has put its point into the memtable but touched no
  file, as long as the writer's buffer has room for one record and neither the segment nor the
  memtable is full: a start on the files is the start of a process that never saw the write.
\<close>

theorem acknowledged_write_volatile:
  assumes ok: "server_ok sv" and adm: "admissible ch w sv"
    and w: "rqPath w = ''/api/write''" "rqContentType w \<noteq> ''application/json''"
    and s: "serve ch now w sv = (resp, sv1)" "rpStatus resp = 200"
    and log: "currentLocked (inWal (svIngest sv)) = Some (i, seg)" "sgSize seg <s maxSize (inWal (svIngest sv))"
      "length (wBuf (sgWriter seg)) + 37 \<le> buffer_size"
    and few: "int (Len (inMem (svIngest sv))) + 1 < flushThreshold (svIngest sv)"
  shows "wDisk (inWal (svIngest sv1)) = wDisk (inWal (svIngest sv))
    \<and> (\<exists>ts v sid. parse_int (query_get w ''ts'') = Some ts \<and> chParseFloat ch (query_get w ''value'') = Some v
         \<and> \<lparr>TS = word_of_int ts, Value = v, SeriesID = sid\<rparr> \<in> set (series_of (byID (current (inMem (svIngest sv1)))) sid))"
proof -
  let ?inp = "svIngest sv"
  have inv: "ingest_inv ?inp" using ok by (simp add: server_ok_def pipeline_ok_def)
  have room: "room ?inp" using adm in_bounds_room by (auto simp: admissible_def)
  obtain ts v inp where val: "parse_int (query_get w ''ts'') = Some ts" "chParseFloat ch (query_get w ''value'') = Some v"
    and a: "Ingest_Append (chLabels ch) (chSeries ch) (chSegments ch) (query_get w ''name'')
       (parseLabels (query_get w ''labels'')) (word_of_int ts) v ?inp = (None, inp)" "sv1 = sv\<lparr>svIngest := inp\<rparr>"
    by (rule serve_written [OF w s])
  obtain meta inp1 where so: "SeriesOf (chLabels ch) (query_get w ''name'') (parseLabels (query_get w ''labels'')) ?inp = (Inr meta, inp1)"
    using a(1) by (cases "SeriesOf (chLabels ch) (query_get w ''name'') (parseLabels (query_get w ''labels'')) ?inp")
      (auto simp: Ingest_Append_def append_log_def split: sum.splits prod.splits)
  note e = SeriesOf_effect [OF inv room so]
  obtain q w1 where wa: "Wal_Append \<lparr>rSeq = 0, rSeriesID = ID meta, rTS = word_of_int ts, rValue = v\<rparr> (inWal ?inp) = (Inr q, w1)"
      "append_apply (chSeries ch) (chSegments ch) (q, \<lparr>TS = word_of_int ts, Value = v, SeriesID = ID meta\<rparr>) (inp1\<lparr>inWal := w1\<rparr>) = (None, inp)"
    using a(1) so e(2) by (auto simp: Ingest_Append_def append_log_def split: sum.splits prod.splits)
  let ?pt = "\<lparr>TS = word_of_int ts, Value = v, SeriesID = ID meta\<rparr>"
  have inp: "inp = written ?pt (inp1\<lparr>inWal := w1\<rparr>)"
    using wa(2)
  proof (cases rule: append_apply_cases)
    case (flushed k)
    then show ?thesis
      using wa(2) few e(3,4) by (auto simp: append_apply_def written_def Let_def split: prod.splits sum.splits)
  qed simp_all
  then have "wDisk (inWal (svIngest sv1)) = wDisk (inWal (svIngest sv))"
    using append_in_buffer [OF log wa(1)] a(2) by (simp add: written_def)
  moreover have "mem_inv (inMem (inp1\<lparr>inWal := w1\<rparr>))" using e(1) by (simp add: ingest_inv_def)
  then have "?pt \<in> set (series_of (byID (current (inMem (svIngest sv1)))) (ID meta))"
    using written_member [of "inp1\<lparr>inWal := w1\<rparr>" ?pt] a(2) inp by simp
  ultimately show ?thesis using val by blast
qed

theorem acknowledged_write_volatile_witness:
  "\<exists>sv1. serve demo_choices 0 demo_write (demo_server buffered_wal) = (ok_text ''{\"ok\":true}'', sv1)
    \<and> wDisk (inWal (svIngest sv1)) = wDisk buffered_wal"
proof -
  have ti: "top_index (segments buffered_wal) = 1" by (rule top_index_single) (simp_all add: buffered_wal_def)
  have nf: "faults (wDisk buffered_wal) = []" by (simp add: buffered_wal_def)
  obtain sv1 where s: "serve demo_choices 0 demo_write (demo_server buffered_wal) = (ok_text ''{\"ok\":true}'', sv1)"
    by (rule demo_written_on [OF buffered_ok(1) ti nf])
  obtain seg where seg: "currentLocked buffered_wal = Some (1, seg)" "sgSize seg <s maxSize buffered_wal"
      "length (wBuf (sgWriter seg)) + 37 \<le> buffer_size"
    using ti by (simp add: currentLocked_def Let_def) (simp add: buffered_wal_def logged_def buffer_size_def go_int)
  have wal: "inWal (svIngest (demo_server buffered_wal)) = buffered_wal" "Len (inMem (svIngest (demo_server buffered_wal))) = 0"
      "flushThreshold (svIngest (demo_server buffered_wal)) = 4096"
    by (simp_all add: demo_server_def idle_ingest_def NewMem_def Len_def)
  from acknowledged_write_volatile [OF demo_server_ok demo_admissible _ _ s, of 1 seg] seg wal s show ?thesis
    by (auto simp: demo_write_parts ok_text_def)
qed

end
