(* ===== verification/Spec2Isabelle.thy ===== *)
theory Spec2Isabelle
  imports Retained CompactionOverlap TornTail XXDigest CleanRestart
begin

text \<open>
  MetricStore is a time-series store written in Go: one process that takes samples over HTTP,
  logs them, buffers them, flushes them into blocks of time windows, downsamples and expires
  the blocks, and answers range queries. This development models its packages function by
  function and proves what they guarantee, alone and together.

  \<^bold>\<open>The program's parts and the theories that model them.\<close> Paths are under \<open>src/\<close>.

  \<^item> \<open>Prelude\<close>: 64-bit time arithmetic as Go does it (truncated remainder, wrap-around), binary
    search, iteration orders of maps, lists. \<open>Float64\<close>: addition, subtraction, division and
    comparison of IEEE doubles on their bit patterns, with rounding to nearest even.
    \<open>Bytes\<close> and \<open>Decimal\<close>: little-endian integers, and numbers in decimal text.
  \<^item> \<open>Model\<close>: \<open>internal/model/model.go\<close>, the points, metadata, ranges, states and policies, the
    canonical series key, and the errors of all packages as one datatype.
  \<^item> \<open>LabelRules\<close>, \<open>XXHash\<close>, \<open>SeriesIndex\<close>: \<open>internal/series\<close> and the vendored hash. The index
    is a table of buckets; \<open>index_inv\<close> and the map \<open>entry\<close> describe it, and the locale
    \<open>series_directory\<close> is what its clients rely on. \<open>XXDigest\<close>: the streaming interface of the
    hash and its saved form, refined to the bytes written so far (\<open>digest_holds\<close>).
  \<^item> \<open>Memtable\<close>: \<open>internal/memtable\<close>, refined to a map from series and time to the last value.
  \<^item> \<open>Blocks\<close>, \<open>BlockStore\<close>: \<open>internal/storage\<close>, the state machine of a block, the references
    of its readers, and the protocol of readers, archiving and reclaim as a step relation.
  \<^item> \<open>Shards\<close>: \<open>internal/shard\<close>, the windows, routing, rotation and archiving.
  \<^item> \<open>Metrics\<close>: \<open>internal/metric\<close>. \<open>Database\<close>: the store, the shards and the registry that
    several packages share, as one record.
  \<^item> \<open>Windows\<close>, \<open>Compactor\<close>, \<open>Sweeper\<close>: the windowing that compaction and queries have in common,
    \<open>internal/compact\<close> and \<open>internal/retention\<close>.
  \<^item> \<open>QueryEngine\<close>: \<open>internal/query\<close>, collection, sorting and the six aggregations.
  \<^item> \<open>WalCodec\<close>, \<open>Disk\<close>, \<open>Wal\<close>: \<open>internal/wal\<close>, the framing of records with the CRC, the file
    system, and every operation of the log. \<open>WalLog\<close>, \<open>WalRecovery\<close>, \<open>WalGuarantees\<close>: what
    the log holds after any operation, after a crash and after reopening. \<open>TornTail\<close>: what the
    torn bytes of a crash do to the records written after it. \<open>CleanStop\<close>: what closing the log
    leaves in the files.
  \<^item> \<open>IngestPipe\<close>, \<open>IngestFlow\<close>: \<open>internal/ingest\<close>, the write path, flushing and recovery.
  \<^item> \<open>Server\<close>: \<open>cmd/metricstore\<close>, start-up, the HTTP handlers, the tickers and the self check.
    \<open>DatabaseFlow\<close>, \<open>Grouping\<close>, \<open>LogRecords\<close>: what its operations keep, whatever points a
    flush has to group and whatever directory a start finds. \<open>ServerFlow\<close>, \<open>Restart\<close>,
    \<open>Retained\<close>: the runs of the whole process, its restarts, and what retention takes from it.
    \<open>CleanRestart\<close>: the runs in which no call fails, and what survives a stop in order; its
    relation \<open>linked\<close> matches the memtable with the records of the log.
  \<^item> \<open>QueryOverlap\<close>: one query taken apart into its calls, with any steps of the other
    operations between them. \<open>CompactionOverlap\<close>: a compaction taken apart in the same way, and
    what a query sees in the middle of it.

  \<^bold>\<open>How the parts interact.\<close> A write resolves its series in the index, appends to the log, and
  then, under the pipeline's lock, is routed to a window and written to the memtable; at a
  threshold the memtable is flushed: grouped by window, stored as blocks, listed in the
  windows' shards, and the log's replay watermark moves on and the log is truncated. A query
  reads the memtable and the blocks of the overlapping shards. Compaction replaces a block by
  its downsampled copy, the sweep archives and reclaims old blocks. A start opens the log and
  replays it from the watermark. The model passes the state explicitly: \<open>server\<close> holds the
  pipeline's record \<open>ingest\<close>, which holds the index, the log, the memtable and the database.

  \<^bold>\<open>How the code is rendered.\<close> Structures are records, enumerations datatypes, 64-bit integers
  words with the wrap-around of Go, doubles their bit patterns, maps \<open>fmap\<close>. Errors and panics
  are values of \<open>err\<close> in a sum or option. Whatever the language leaves open is an argument: the
  iteration order of every map (\<open>visits\<close>, \<open>iterates\<close>), the result of \<open>sort.Slice\<close>
  (\<open>slice_sort\<close>), the clock. The file system is a map of files with a schedule of faults:
  each call takes the next entry of \<open>faults\<close>, and a failing write still stores a prefix. So a
  theorem without an assumption on \<open>faults\<close> holds for every failure of every call. The buffered
  writer keeps its 64 KiB, its sticky error, and whether its file has been closed: every later
  call on a closed file fails. A panic in a handler ends the request; one in a ticker or in the
  self check ends the process, and their functions return it with the files it leaves. The JSON
  decoder, \<open>strconv.ParseFloat\<close> and \<open>http.ServeFile\<close> are parameters without assumptions.

  \<^bold>\<open>What the lemmas show.\<close>

  \<^item> Each component has an invariant that its operations keep (\<open>index_inv\<close>, \<open>mem_inv\<close>,
    \<open>store_inv\<close>, \<open>reader_inv\<close>, \<open>mgr_inv\<close>, \<open>wal_ok\<close>, \<open>ingest_inv\<close>), and each operation a lemma
    for what it does on every branch. \<open>server_ok\<close> joins them and holds in every state that
    \<open>server_run\<close> describes: a start on any directory, requests, ticks, the self check and the
    halves of appends in any order. In all of them the header of a block is exact, so a sweep
    takes the blocks without a point younger than the cutoff, and no others.
  \<^item> Downsampling yields the mean of every maximal run of a window, is strictly ordered and
    idempotent; queries aggregate exactly the points that match; the sweep removes exactly the
    archived blocks that nobody reads; a block that a reader holds stays.
  \<^item> A single write that the server accepts is in the answer of the next query, and flushing does
    not change what queries see while the buffered points lie in the active window. A query that
    other operations overlap answers only what was stored while it ran, and all that stayed
    in one place meanwhile, as long as no append races with its read of the memtable.
  \<^item> Synchronised records survive a crash and a replay delivers them in order; unsynchronised
    ones survive as a prefix; truncation keeps later records that have reached the file. After
    a run from an empty directory without faulty calls or overlapping handlers, stopping and
    starting again brings back exactly the buffered points of the window the start is in.
  \<^item> Where the code falls short, the theorem says exactly how: records whose bytes hold a
    newline or end in a carriage return, the first record after a torn one, acknowledged records that a crash finds in the
    writer's buffer, records that are appended while a flush runs, buffered records at a
    truncation, sequence numbers after a restart, points of an earlier window at a flush, blocks
    older than the active window at a compaction, points exactly at the cutoff of a sweep, ranges
    that run backwards, queries that overlap a flush or a compaction, and, after a restart, the
    series ids and all that was flushed before. A start whose log holds several windows can be
    refused, and then no restart helps. A truncation that fails after it has closed the file
    leaves a log that never works again (\<open>closed_segment_stuck\<close>), and an append can push a
    settled point out of the sight of a query that reads the memtable (\<open>racing_read_misses\<close>).

  \<^bold>\<open>Bounds and fuel.\<close> All loops are recursions that Isabelle proves terminating; none runs on
  fuel, except \<open>lower_bound_within\<close>, which counts the passes of the binary search: \<open>k\<close> passes
  are enough for fewer than \<open>2 ^ k\<close> points. The assumptions on numbers are \<open>fits\<close> (a timestamp
  that is not negative and leaves the length of a window below \<open>2 ^ 63\<close>) and \<open>headroom\<close> (ids
  that do not run over 64 bits), and for a start \<open>log_dated\<close>, which says the same of the records
  that can be read; \<open>crash_records\<close> shows that after a crash of a log whose calls succeeded these were
  all appended. Beyond these bounds the code wraps around, and so do the definitions.

  \<^bold>\<open>Not modelled.\<close> Locks and goroutines: an operation is one step, except where the code itself
  releases its lock or takes none: between the two halves of an append (\<open>append_log\<close>,
  \<open>append_apply\<close>), between opening and closing a block (\<open>reader_step\<close>), and between the calls of
  a query (\<open>query_step\<close>, with the read of the memtable in two steps) or of a compaction
  (\<open>compaction_steps\<close>). Flushes and sweeps are taken apart only as the steps \<open>world_step\<close> that a
  query may meet. The data race between \<open>MemTable.Read\<close> and \<open>MemTable.Write\<close> has no defined
  outcome: the runs with it are left out (\<open>points_alone\<close>), and \<open>racing_Range\<close> shows one outcome. The semaphore of the pipeline. The
  assembly versions of the hash. The HTTP transport, the rendering of
  JSON, flags, signals and logging, the web page, the build files and the tests. A file
  descriptor is not a resource of the model, so leaks of descriptors are not visible in it.
\<close>

end
